(* ===== verification/Prelude.thy ===== *)
theory Prelude imports Main "HOL-Library.Sublist" begin

text \<open>
  Shared vocabulary of the development: Python strings as lists of code points, the string
  operations of the standard library that the modelled code calls, results with errors as
  values, and the fold that stops at the first error.
\<close>

named_theorems pystr_simps "unfolding rules for literals and character classes"
named_theorems result_simps "unfolding rules for error results"

section \<open>Python strings\<close>

text \<open>
  A Python string is a sequence of Unicode code points, not of bytes; the separator of a
  canonical agent node is one beyond ASCII. \<open>u\<close> turns an ASCII literal into a string.
\<close>

type_synonym pystr = "nat list"

definition u :: "string \<Rightarrow> pystr" where
  "u s = map of_char s"

declare u_def [pystr_simps]

abbreviation ch :: "char \<Rightarrow> nat" where
  "ch c \<equiv> of_char c"

definition is_ascii :: "pystr \<Rightarrow> bool" where
  "is_ascii s = list_all (\<lambda>c. c < 128) s"

definition ascii_digit :: "nat \<Rightarrow> bool" where
  "ascii_digit c \<longleftrightarrow> 48 \<le> c \<and> c \<le> 57"

definition ascii_upper :: "nat \<Rightarrow> bool" where
  "ascii_upper c \<longleftrightarrow> 65 \<le> c \<and> c \<le> 90"

definition ascii_alpha :: "nat \<Rightarrow> bool" where
  "ascii_alpha c \<longleftrightarrow> ascii_upper c \<or> 97 \<le> c \<and> c \<le> 122"

definition ascii_lower :: "nat \<Rightarrow> nat" where
  "ascii_lower c = (if ascii_upper c then c + 32 else c)"

declare ascii_digit_def [pystr_simps] ascii_upper_def [pystr_simps]
  ascii_alpha_def [pystr_simps] ascii_lower_def [pystr_simps]

text \<open>
  \<open>str.casefold\<close> and \<open>str.lower\<close> read the Unicode tables of the interpreter. What they do
  on ASCII is written out; what they do beyond it is a parameter: \<open>fold_char\<close> gives the case
  folding of one non-ASCII code point (folding is defined code point by code point), and
  \<open>lower_str\<close> the lower case of a string that holds one (lowering is not: a final sigma
  looks at its neighbours).
\<close>

record unicode =
  fold_char :: "nat \<Rightarrow> nat list"
  lower_str :: "pystr \<Rightarrow> pystr"

definition casefold :: "unicode \<Rightarrow> pystr \<Rightarrow> pystr" where
  "casefold U s = concat (map (\<lambda>c. if c < 128 then [ascii_lower c] else fold_char U c) s)"

definition lower :: "unicode \<Rightarrow> pystr \<Rightarrow> pystr" where
  "lower U s = (if is_ascii s then map ascii_lower s else lower_str U s)"

definition ascii_only :: unicode where
  "ascii_only = \<lparr>fold_char = (\<lambda>c. [c]), lower_str = id\<rparr>"

lemma casefold_Nil [simp]: "casefold U [] = []"
  by (simp add: casefold_def)

lemma casefold_append: "casefold U (s @ t) = casefold U s @ casefold U t"
  by (simp add: casefold_def)

lemma casefold_ascii: "is_ascii s \<Longrightarrow> casefold U s = map ascii_lower s"
  by (induction s) (auto simp: casefold_def is_ascii_def)

lemma ascii_lower_idem [simp]: "ascii_lower (ascii_lower c) = ascii_lower c"
  by (simp add: ascii_lower_def ascii_upper_def)

lemma is_ascii_lower: "is_ascii s \<Longrightarrow> is_ascii (map ascii_lower s)"
  by (induction s) (auto simp: is_ascii_def pystr_simps)

lemma lower_ascii_idem: "is_ascii s \<Longrightarrow> lower U (lower U s) = lower U s"
  by (simp add: lower_def is_ascii_lower)

lemma casefold_lower_ascii: "is_ascii s \<Longrightarrow> casefold U (lower U s) = casefold U s"
  by (simp add: lower_def casefold_ascii is_ascii_lower)

text \<open>The white space \<open>str.strip\<close> removes: the code points with \<open>str.isspace\<close>.\<close>

definition is_space :: "nat \<Rightarrow> bool" where
  "is_space c \<longleftrightarrow> 9 \<le> c \<and> c \<le> 13 \<or> 28 \<le> c \<and> c \<le> 32 \<or> c = 133 \<or> c = 160 \<or> c = 5760
     \<or> 8192 \<le> c \<and> c \<le> 8202 \<or> c = 8232 \<or> c = 8233 \<or> c = 8239 \<or> c = 8287 \<or> c = 12288"

definition rstrip_by :: "(nat \<Rightarrow> bool) \<Rightarrow> pystr \<Rightarrow> pystr" where
  "rstrip_by P s = rev (dropWhile P (rev s))"

definition strip :: "pystr \<Rightarrow> pystr" where
  "strip s = rstrip_by is_space (dropWhile is_space s)"

lemma rstrip_by_id: "(s \<noteq> [] \<Longrightarrow> \<not> P (last s)) \<Longrightarrow> rstrip_by P s = s"
  by (cases s rule: rev_cases) (auto simp: rstrip_by_def)

lemma strip_id: "(\<And>c. c \<in> set s \<Longrightarrow> \<not> is_space c) \<Longrightarrow> strip s = s"
proof -
  assume *: "\<And>c. c \<in> set s \<Longrightarrow> \<not> is_space c"
  then have "dropWhile is_space s = s" by (cases s) auto
  then show ?thesis using * by (simp add: strip_def rstrip_by_id)
qed

definition replace_char :: "nat \<Rightarrow> nat \<Rightarrow> pystr \<Rightarrow> pystr" where
  "replace_char a b s = map (\<lambda>c. if c = a then b else c) s"

definition delete_char :: "nat \<Rightarrow> pystr \<Rightarrow> pystr" where
  "delete_char a s = filter (\<lambda>c. c \<noteq> a) s"

text \<open>\<open>s.find(c)\<close> for one character: its first index, or \<open>None\<close> for \<open>-1\<close>.\<close>

fun find_char :: "nat \<Rightarrow> pystr \<Rightarrow> nat option" where
  "find_char c [] = None"
| "find_char c (x # xs) = (if x = c then Some 0 else map_option Suc (find_char c xs))"

lemma find_char_None: "find_char c s = None \<longleftrightarrow> c \<notin> set s"
  by (induction s) auto

lemma find_char_Some: "find_char c s = Some i \<Longrightarrow> i < length s \<and> s ! i = c \<and> c \<notin> set (take i s)"
  by (induction s arbitrary: i) (auto split: if_splits)

lemma find_char_append:
  "c \<notin> set p \<Longrightarrow> find_char c (p @ c # q) = Some (length p)"
  by (induction p) auto

text \<open>\<open>s.split(c)\<close> and \<open>c.join(parts)\<close> for a one-character separator.\<close>

fun split_char :: "nat \<Rightarrow> pystr \<Rightarrow> pystr list" where
  "split_char c [] = [[]]"
| "split_char c (x # xs) =
     (if x = c then [] # split_char c xs
      else (case split_char c xs of [] \<Rightarrow> [[x]] | p # ps \<Rightarrow> (x # p) # ps))"

fun join_char :: "nat \<Rightarrow> pystr list \<Rightarrow> pystr" where
  "join_char c [] = []"
| "join_char c [p] = p"
| "join_char c (p # q # ps) = p @ c # join_char c (q # ps)"

lemma split_char_nonempty [simp]: "split_char c s \<noteq> []"
  by (induction s) (auto split: list.splits)

lemma join_split_char: "join_char c (split_char c s) = s"
proof (induction s)
  case (Cons x xs)
  then show ?case
    by (cases "split_char c xs" rule: list.exhaust; cases "tl (split_char c xs)")
       (auto split: list.splits)
qed simp

lemma split_char_free: "c \<notin> set s \<Longrightarrow> split_char c s = [s]"
  by (induction s) auto

lemma split_char_append: "c \<notin> set p \<Longrightarrow> split_char c (p @ c # s) = p # split_char c s"
  by (induction p) auto

lemma split_join_char:
  "ps \<noteq> [] \<Longrightarrow> (\<And>p. p \<in> set ps \<Longrightarrow> c \<notin> set p) \<Longrightarrow> split_char c (join_char c ps) = ps"
  by (induction c ps rule: join_char.induct) (auto simp: split_char_free split_char_append)

text \<open>
  \<open>s.rpartition(c)\<close>: what precedes the last \<open>c\<close>, whether there is one, and what follows it.
  Without one it is \<open>("", "", s)\<close>.
\<close>

definition rpartition :: "nat \<Rightarrow> pystr \<Rightarrow> pystr \<times> bool \<times> pystr" where
  "rpartition c s =
     (if c \<in> set s
      then (rev (tl (dropWhile (\<lambda>x. x \<noteq> c) (rev s))), True,
            rev (takeWhile (\<lambda>x. x \<noteq> c) (rev s)))
      else ([], False, s))"

lemma rpartition_append: "c \<notin> set t \<Longrightarrow> rpartition c (p @ c # t) = (p, True, t)"
proof -
  assume "c \<notin> set t"
  then have "dropWhile (\<lambda>x. x \<noteq> c) (rev t @ c # rev p) = c # rev p"
    and "takeWhile (\<lambda>x. x \<noteq> c) (rev t @ c # rev p) = rev t"
    by (auto simp: dropWhile_append takeWhile_append)
  then show ?thesis by (simp add: rpartition_def)
qed

lemma rpartition_free: "c \<notin> set s \<Longrightarrow> rpartition c s = ([], False, s)"
  by (simp add: rpartition_def)

text \<open>The decimal spelling of a count, as an f-string writes it.\<close>

fun decimal :: "nat \<Rightarrow> pystr" where
  "decimal n = (if n < 10 then [48 + n] else decimal (n div 10) @ [48 + n mod 10])"

declare decimal.simps [simp del]

fun undecimal :: "pystr \<Rightarrow> nat" where
  "undecimal s = foldl (\<lambda>n c. 10 * n + (c - 48)) 0 s"

lemma undecimal_decimal: "undecimal (decimal n) = n"
proof (induction n rule: decimal.induct)
  case (1 n)
  then show ?case by (subst decimal.simps) auto
qed

lemma decimal_inject [simp]: "decimal m = decimal n \<longleftrightarrow> m = n"
  by (metis undecimal_decimal)

lemma decimal_digits: "c \<in> set (decimal n) \<Longrightarrow> ascii_digit c"
proof (induction n rule: decimal.induct)
  case (1 n)
  show ?case
  proof (cases "n < 10")
    case True
    with "1.prems" show ?thesis by (subst (asm) decimal.simps) (simp add: ascii_digit_def)
  next
    case False
    with "1.prems" have "c \<in> set (decimal (n div 10)) \<or> c = 48 + n mod 10"
      by (subst (asm) decimal.simps) auto
    with "1.IH" False show ?thesis by (auto simp: ascii_digit_def)
  qed
qed

section \<open>Results\<close>

text \<open>A raise is \<open>Inl\<close> of an error value; \<open>bindE\<close> runs the rest when nothing was raised.\<close>

definition bindE :: "'e + 'a \<Rightarrow> ('a \<Rightarrow> 'e + 'b) \<Rightarrow> 'e + 'b" where
  "bindE r f = (case r of Inl e \<Rightarrow> Inl e | Inr x \<Rightarrow> f x)"

lemma bindE_simps [simp, result_simps]:
  "bindE (Inl e) f = Inl e"
  "bindE (Inr x) f = f x"
  by (simp_all add: bindE_def)

lemma bindE_Inr_iff [result_simps]: "bindE r f = Inr y \<longleftrightarrow> (\<exists>x. r = Inr x \<and> f x = Inr y)"
  by (cases r) auto

lemma bindE_Inl_iff [result_simps]:
  "bindE r f = Inl e \<longleftrightarrow> r = Inl e \<or> (\<exists>x. r = Inr x \<and> f x = Inl e)"
  by (cases r) auto

lemma bindE_cong [fundef_cong]:
  "r = r' \<Longrightarrow> (\<And>x. r' = Inr x \<Longrightarrow> f x = g x) \<Longrightarrow> bindE r f = bindE r' g"
  by (cases r') auto

lemma bindE_assoc: "bindE (bindE r f) g = bindE r (\<lambda>x. bindE (f x) g)"
  by (cases r) auto

text \<open>\<open>if bad: raise e\<close>.\<close>

definition refuse_if :: "bool \<Rightarrow> 'e \<Rightarrow> 'e + unit" where
  "refuse_if b e = (if b then Inl e else Inr ())"

lemma refuse_if_simps [result_simps]:
  "refuse_if b e = Inr x \<longleftrightarrow> \<not> b"
  "refuse_if b e = Inl e' \<longleftrightarrow> b \<and> e' = e"
  by (auto simp: refuse_if_def)

text \<open>A loop over a sequence whose body may raise.\<close>

fun foldE :: "('a \<Rightarrow> 's \<Rightarrow> 'e + 's) \<Rightarrow> 'a list \<Rightarrow> 's \<Rightarrow> 'e + 's" where
  "foldE f [] s = Inr s"
| "foldE f (x # xs) s = bindE (f x s) (foldE f xs)"

lemma foldE_append: "foldE f (xs @ ys) s = bindE (foldE f xs s) (foldE f ys)"
proof (induction xs arbitrary: s)
  case (Cons x xs)
  then have "foldE f (xs @ ys) = (\<lambda>s. bindE (foldE f xs s) (foldE f ys))" by blast
  then show ?case by (simp add: bindE_assoc)
qed simp

lemma foldE_invariant:
  "foldE f xs s = Inr t \<Longrightarrow> P s \<Longrightarrow>
   (\<And>x s s'. x \<in> set xs \<Longrightarrow> P s \<Longrightarrow> f x s = Inr s' \<Longrightarrow> P s') \<Longrightarrow> P t"
proof (induction xs arbitrary: s)
  case (Cons x xs)
  from Cons.prems(1) obtain s' where s': "f x s = Inr s'" and rest: "foldE f xs s' = Inr t"
    by (auto simp: result_simps)
  show ?case
  proof (rule Cons.IH [OF rest])
    show "P s'" using Cons.prems(2,3) s' by (meson list.set_intros(1))
    show "\<And>y s s'. y \<in> set xs \<Longrightarrow> P s \<Longrightarrow> f y s = Inr s' \<Longrightarrow> P s'"
      using Cons.prems(3) by (meson list.set_intros(2))
  qed
qed simp

lemma foldE_cong [fundef_cong]:
  "xs = ys \<Longrightarrow> s = t \<Longrightarrow> (\<And>x s. x \<in> set ys \<Longrightarrow> f x s = g x s) \<Longrightarrow> foldE f xs s = foldE g ys t"
proof (induction xs arbitrary: ys s t)
  case (Cons x xs)
  then show ?case by (cases ys) (auto intro!: bindE_cong)
qed simp

fun mapE :: "('a \<Rightarrow> 'e + 'b) \<Rightarrow> 'a list \<Rightarrow> 'e + 'b list" where
  "mapE f [] = Inr []"
| "mapE f (x # xs) = bindE (f x) (\<lambda>y. bindE (mapE f xs) (\<lambda>ys. Inr (y # ys)))"

lemma mapE_Inr_iff: "mapE f xs = Inr ys \<longleftrightarrow> list_all2 (\<lambda>x y. f x = Inr y) xs ys"
  by (induction xs arbitrary: ys) (auto simp: result_simps list_all2_Cons1)

section \<open>Insertion-ordered dictionaries\<close>

text \<open>
  A Python dict keeps insertion order and one entry per key: an association list with
  distinct keys. Writing a key it holds replaces the value in place; a new key goes last.
\<close>

fun dict_set :: "'k \<Rightarrow> 'v \<Rightarrow> ('k \<times> 'v) list \<Rightarrow> ('k \<times> 'v) list" where
  "dict_set k v [] = [(k, v)]"
| "dict_set k v ((k', w) # d) = (if k' = k then (k, v) # d else (k', w) # dict_set k v d)"

definition dict_pop :: "'k \<Rightarrow> ('k \<times> 'v) list \<Rightarrow> ('k \<times> 'v) list" where
  "dict_pop k d = filter (\<lambda>(k', _). k' \<noteq> k) d"

abbreviation dict_keys :: "('k \<times> 'v) list \<Rightarrow> 'k list" where
  "dict_keys d \<equiv> map fst d"

lemma map_of_dict_set [simp]: "map_of (dict_set k v d) = (map_of d)(k \<mapsto> v)"
  by (induction k v d rule: dict_set.induct) auto

lemma map_of_dict_pop [simp]: "map_of (dict_pop k d) = (map_of d)(k := None)"
  by (induction d) (auto simp: dict_pop_def)

lemma set_keys_dict_set [simp]: "set (dict_keys (dict_set k v d)) = insert k (set (dict_keys d))"
  by (induction k v d rule: dict_set.induct) auto

lemma fst_set_dict_set [simp]: "fst ` set (dict_set k v d) = insert k (fst ` set d)"
  using set_keys_dict_set [of k v d] by simp

lemma distinct_dict_set [simp]:
  "distinct (dict_keys d) \<Longrightarrow> distinct (dict_keys (dict_set k v d))"
proof (induction k v d rule: dict_set.induct)
  case (2 k v k' w d)
  then show ?case using set_keys_dict_set [of k v d] by auto
qed simp

lemma distinct_filter_keys [simp]:
  "distinct (dict_keys d) \<Longrightarrow> distinct (dict_keys (filter P d))"
  by (induction d) auto

lemma distinct_dict_pop [simp]:
  "distinct (dict_keys d) \<Longrightarrow> distinct (dict_keys (dict_pop k d))"
  by (simp add: dict_pop_def)

lemma map_of_filter_keys:
  "map_of (filter (\<lambda>(k, _). P k) d) k = (if P k then map_of d k else None)"
  by (induction d) auto

text \<open>\<open>d.setdefault(k, []).append(v)\<close>: the groups keep first-appearance order.\<close>

fun add_to_group :: "'k \<Rightarrow> 'v \<Rightarrow> ('k \<times> 'v list) list \<Rightarrow> ('k \<times> 'v list) list" where
  "add_to_group k v [] = [(k, [v])]"
| "add_to_group k v ((k', vs) # d) =
     (if k' = k then (k', vs @ [v]) # d else (k', vs) # add_to_group k v d)"

definition group_by :: "('v \<Rightarrow> 'k) \<Rightarrow> 'v list \<Rightarrow> ('k \<times> 'v list) list" where
  "group_by f xs = fold (\<lambda>x d. add_to_group (f x) x d) xs []"

lemma map_of_add_to_group:
  "map_of (add_to_group k v d) =
     (map_of d)(k \<mapsto> (case map_of d k of None \<Rightarrow> [] | Some vs \<Rightarrow> vs) @ [v])"
  by (induction k v d rule: add_to_group.induct) auto

lemma keys_add_to_group:
  "dict_keys (add_to_group k v d) = (if k \<in> set (dict_keys d) then dict_keys d else dict_keys d @ [k])"
  by (induction k v d rule: add_to_group.induct) auto

lemma fold_add_to_group:
  "map_of (fold (\<lambda>x d. add_to_group (f x) x d) xs d) k =
     (if k \<in> f ` set xs
      then Some ((case map_of d k of None \<Rightarrow> [] | Some vs \<Rightarrow> vs) @ filter (\<lambda>x. f x = k) xs)
      else map_of d k)"
proof (induction xs arbitrary: d)
  case (Cons x xs)
  have "filter (\<lambda>y. f y = f x) xs = []" if "f x \<notin> f ` set xs"
    using that by (metis (mono_tags, lifting) filter_False image_eqI)
  with Cons show ?case by (auto simp: map_of_add_to_group)
qed simp

lemma map_of_group_by:
  "map_of (group_by f xs) k = (if k \<in> f ` set xs then Some (filter (\<lambda>x. f x = k) xs) else None)"
  by (simp add: group_by_def fold_add_to_group)

lemma distinct_group_by: "distinct (dict_keys (group_by f xs))"
proof -
  have "distinct (dict_keys d) \<Longrightarrow>
      distinct (dict_keys (fold (\<lambda>x d. add_to_group (f x) x d) xs d))" for d
    by (induction xs arbitrary: d) (auto simp: keys_add_to_group)
  then show ?thesis by (simp add: group_by_def)
qed

lemma group_by_entry:
  "(k, g) \<in> set (group_by f xs) \<longleftrightarrow> k \<in> f ` set xs \<and> g = filter (\<lambda>x. f x = k) xs"
proof -
  have "(k, g) \<in> set (group_by f xs) \<longleftrightarrow> map_of (group_by f xs) k = Some g"
    using distinct_group_by [of f xs] by (simp add: map_of_eq_Some_iff)
  then show ?thesis by (auto simp: map_of_group_by)
qed

lemma set_keys_group_by: "set (dict_keys (group_by f xs)) = f ` set xs"
proof -
  have "dom (map_of (group_by f xs)) = f ` set xs"
    by (auto simp: dom_def map_of_group_by)
  then show ?thesis by (simp add: dom_map_of_conv_image_fst)
qed

lemma group_by_nonempty:
  "(k, g) \<in> set (group_by f xs) \<Longrightarrow> g \<noteq> [] \<and> (\<forall>x \<in> set g. f x = k)"
  by (auto simp: group_by_entry) (metis (mono_tags, lifting) filter_empty_conv)

lemma keys_map_values: "dict_keys (map (\<lambda>(k, v). (k, h v)) d) = dict_keys d"
  by (induction d) auto

lemma subseq_distinct: "subseq xs ys \<Longrightarrow> distinct ys \<Longrightarrow> distinct xs"
  by (induction rule: list_emb.induct) (auto dest: list_emb_set)

lemma list_all2_source: "list_all2 P xs ys \<Longrightarrow> y \<in> set ys \<Longrightarrow> \<exists>x \<in> set xs. P x y"
  by (induction rule: list_all2_induct) auto

lemma filter_swap: "filter P (filter Q xs) = filter Q (filter P xs)"
  by (induction xs) auto

lemma map_of_rev_distinct: "distinct (dict_keys d) \<Longrightarrow> map_of d = map_of (rev d)"
  by (subst map_of_inject_set) (auto simp flip: rev_map)

lemma dict_set_new: "k \<notin> fst ` set d \<Longrightarrow> dict_set k v d = d @ [(k, v)]"
  by (induction d) auto

text \<open>What one element of a loop establishes and every step keeps, the loop establishes.\<close>

lemma foldE_establishes:
  assumes "foldE f xs s = Inr t" "x \<in> set xs" "\<And>s s'. f x s = Inr s' \<Longrightarrow> Q s'"
    and "\<And>y s s'. y \<in> set xs \<Longrightarrow> Q s \<Longrightarrow> f y s = Inr s' \<Longrightarrow> Q s'"
  shows "Q t"
proof -
  from assms(2) obtain pre post where xs: "xs = pre @ x # post" by (meson split_list)
  with assms(1) obtain s1 s2 where "f x s1 = Inr s2" and r: "foldE f post s2 = Inr t"
    by (auto simp: foldE_append result_simps)
  then have "Q s2" using assms(3) by blast
  then show ?thesis
    by (rule foldE_invariant [where P = Q, OF r]) (use assms(4) xs in auto)
qed

lemma foldE_ConsE:
  assumes "foldE f (x # xs) s = Inr t"
  obtains s' where "f x s = Inr s'" "foldE f xs s' = Inr t"
  using assms by (auto simp: result_simps)

end
