(* ===== verification/Kuid.thy ===== *)
theory Kuid imports Prelude "HOL-Library.Word" begin

unbundle bit_operations_syntax

text \<open>
  The Crockford base-32 codec of the 25-bit box identifier (\<open>src/kanibako/kuid.py\<close>).
  Values are Python integers; the clock and the random bytes of \<open>generate\<close> are arguments.
\<close>

datatype kuid_error = OutOfRange int | WrongLength nat | NotInAlphabet nat

definition ALPHABET :: pystr where
  "ALPHABET = u ''0123456789abcdefghjkmnpqrstvwxyz''"

definition SENTINEL :: pystr where
  "SENTINEL = u ''00000''"

definition BITS :: nat where "BITS = 25"

definition CHARS :: nat where "CHARS = 5"

fun popcount :: "nat \<Rightarrow> nat" where
  "popcount n = (if n = 0 then 0 else n mod 2 + popcount (n div 2))"

declare popcount.simps [simp del]

definition encode :: "int \<Rightarrow> kuid_error + pystr" where
  "encode value =
     (if \<not> (0 \<le> value \<and> value < 2 ^ BITS) then Inl (OutOfRange value)
      else Inr (map (\<lambda>i. ALPHABET ! nat (drop_bit (5 * (CHARS - 1 - i)) value AND 31)) [0..<CHARS]))"

definition canonicalize :: "unicode \<Rightarrow> pystr \<Rightarrow> pystr" where
  "canonicalize U s =
     replace_char (ch CHR ''l'') (ch CHR ''1'') (replace_char (ch CHR ''i'') (ch CHR ''1'')
       (replace_char (ch CHR ''o'') (ch CHR ''0'') (delete_char (ch CHR ''-'') (lower U s))))"

definition decode_char :: "nat \<Rightarrow> int \<Rightarrow> kuid_error + int" where
  "decode_char c value =
     (case find_char c ALPHABET of
        None \<Rightarrow> Inl (NotInAlphabet c)
      | Some idx \<Rightarrow> Inr (push_bit 5 value OR int idx))"

definition decode :: "unicode \<Rightarrow> pystr \<Rightarrow> kuid_error + int" where
  "decode U s0 = (let s = canonicalize U s0 in
     if length s \<noteq> CHARS then Inl (WrongLength (length s)) else foldE decode_char s 0)"

definition is_valid :: "unicode \<Rightarrow> pystr \<Rightarrow> bool" where
  "is_valid U s = (case decode U s of Inl _ \<Rightarrow> False | Inr value \<Rightarrow> popcount (nat value) mod 2 = 1)"

text \<open>\<open>clock_ms\<close> is \<open>int(time.time() * 1000)\<close>; \<open>b1\<close>, \<open>b2\<close> the bytes of \<open>os.urandom(2)\<close>.\<close>

definition generate :: "int \<Rightarrow> 8 word \<Rightarrow> 8 word \<Rightarrow> kuid_error + pystr" where
  "generate clock_ms b1 b2 =
     (let ms = clock_ms mod 1000;
          random14 = (256 * uint b1 + uint b2) AND (2 ^ 14 - 1);
          data24 = push_bit 14 ms OR random14;
          parity = (if popcount (nat data24) mod 2 = 1 then 0 else 1)
      in encode (push_bit 1 data24 OR parity))"

section \<open>Lemmas\<close>

lemma alphabet_length [simp]: "length ALPHABET = 32"
  by (simp add: ALPHABET_def u_def)

lemma alphabet_roundtrip: "list_all (\<lambda>i. find_char (ALPHABET ! i) ALPHABET = Some i) [0..<32]"
  by code_simp

lemma find_alphabet: "i < 32 \<Longrightarrow> find_char (ALPHABET ! i) ALPHABET = Some i"
  using alphabet_roundtrip by (simp add: list_all_iff)

text \<open>No symbol of the alphabet is changed by \<open>canonicalize\<close>.\<close>

lemma alphabet_canonical:
  "list_all (\<lambda>c. c < 128 \<and> ascii_lower c = c \<and> c \<notin> {ch CHR ''-'', ch CHR ''o'', ch CHR ''i'', ch CHR ''l''})
     ALPHABET"
  by code_simp

lemma canonicalize_alphabet: "set s \<subseteq> set ALPHABET \<Longrightarrow> canonicalize U s = s"
proof -
  assume "set s \<subseteq> set ALPHABET"
  then have *: "c \<in> set s \<Longrightarrow> c < 128 \<and> ascii_lower c = c \<and> c \<noteq> ch CHR ''-'' \<and> c \<noteq> ch CHR ''o''
      \<and> c \<noteq> ch CHR ''i'' \<and> c \<noteq> ch CHR ''l''" for c
    using alphabet_canonical by (auto simp: list_all_iff)
  then have "lower U s = s"
    by (simp add: lower_def is_ascii_def list_all_iff map_idI)
  moreover have "delete_char (ch CHR ''-'') s = s"
    using * by (auto simp: delete_char_def intro!: filter_True)
  moreover have "a \<in> {ch CHR ''o'', ch CHR ''i'', ch CHR ''l''} \<Longrightarrow> replace_char a b s = s" for a b
    using * by (auto simp: replace_char_def intro!: map_idI)
  ultimately show ?thesis by (simp add: canonicalize_def)
qed

lemma push_or_digit:
  fixes v d :: int
  assumes "0 \<le> d" "d < 2 ^ n"
  shows "push_bit n v OR d = v * 2 ^ n + d"
proof -
  have "take_bit n d = d" using assms by (simp add: take_bit_int_eq_self)
  then show ?thesis
    using concat_bit_eq [of n d v] by (simp add: concat_bit_def push_bit_eq_mult or.commute)
qed

definition digit :: "nat \<Rightarrow> int \<Rightarrow> int" where
  "digit k v = v div 32 ^ k mod 32"

lemma digit_bounds: "0 \<le> digit k v" "digit k v < 32"
  by (simp_all add: digit_def)

lemma encode_digits:
  "0 \<le> v \<Longrightarrow> v < 2 ^ 25 \<Longrightarrow>
   encode v = Inr (map (\<lambda>k. ALPHABET ! nat (digit k v)) [4, 3, 2, 1, 0])"
proof -
  have d: "drop_bit (5 * k) v AND 31 = digit k v" for k
  proof -
    have "(31::int) = mask 5" by (simp add: mask_eq_exp_minus_1)
    then have "drop_bit (5 * k) v AND 31 = take_bit 5 (drop_bit (5 * k) v)"
      by (simp add: take_bit_eq_mask)
    then show ?thesis by (simp add: digit_def take_bit_eq_mod drop_bit_eq_div power_mult)
  qed
  have r: "[0..<5] = [0, 1, 2, 3, 4::nat]" by (simp add: upt_rec)
  assume "0 \<le> v" "v < 2 ^ 25"
  then show ?thesis
    using d [of 4] d [of 3] d [of 2] d [of 1] d [of 0] by (simp add: encode_def BITS_def CHARS_def r)
qed

lemma digit_0: "0 \<le> d \<Longrightarrow> d < 32 \<Longrightarrow> digit 0 (a * 32 + d) = d"
  by (simp add: digit_def)

lemma digit_Suc: "0 \<le> d \<Longrightarrow> d < 32 \<Longrightarrow> digit (Suc k) (a * 32 + d) = digit k a"
  by (simp add: digit_def zdiv_zmult2_eq)

lemma digits_value:
  assumes "0 \<le> v" "v < 2 ^ 25"
  shows "(((digit 4 v * 32 + digit 3 v) * 32 + digit 2 v) * 32 + digit 1 v) * 32 + digit 0 v = v"
proof -
  have step: "v div 32 ^ Suc k * 32 + digit k v = v div 32 ^ k" for k
  proof -
    have "v div 32 ^ Suc k = v div 32 ^ k div 32"
      by (simp add: power_Suc2 zdiv_zmult2_eq del: power_Suc)
    then show ?thesis by (simp add: digit_def)
  qed
  have top: "digit 4 v = v div 32 ^ 4"
    using assms by (simp add: digit_def)
  show ?thesis
    unfolding top using step [of 3] step [of 2] step [of 1] step [of 0] by simp
qed

lemma digit_horner:
  assumes "0 \<le> d4" "d4 < 32" "0 \<le> d3" "d3 < 32" "0 \<le> d2" "d2 < 32" "0 \<le> d1" "d1 < 32" "0 \<le> d0" "d0 < 32"
  defines "v \<equiv> (((d4 * 32 + d3) * 32 + d2) * 32 + d1) * 32 + d0"
  shows "digit 0 v = d0" "digit 1 v = d1" "digit 2 v = d2" "digit 3 v = d3" "digit 4 v = d4"
    "0 \<le> v" "v < 2 ^ 25"
proof -
  have n: "(1::nat) = Suc 0" "(2::nat) = Suc (Suc 0)" "(3::nat) = Suc (Suc (Suc 0))"
    "(4::nat) = Suc (Suc (Suc (Suc 0)))" by simp_all
  have "digit 0 d4 = d4" using assms(1,2) by (simp add: digit_def)
  then show "digit 0 v = d0" "digit 1 v = d1" "digit 2 v = d2" "digit 3 v = d3" "digit 4 v = d4"
    unfolding v_def n using assms(1-10) by (simp_all only: digit_0 digit_Suc)
  show "0 \<le> v" "v < 2 ^ 25" unfolding v_def using assms(1-10) by simp_all
qed

lemma decode_char_alphabet:
  "i < 32 \<Longrightarrow> decode_char (ALPHABET ! i) v = Inr (v * 32 + int i)"
  using push_or_digit [of "int i" 5 v] by (simp add: decode_char_def find_alphabet)

lemma decode_char_Inr:
  "decode_char c v = Inr w \<Longrightarrow> \<exists>i<32. c = ALPHABET ! i \<and> w = v * 32 + int i"
proof -
  assume *: "decode_char c v = Inr w"
  then obtain i where i: "find_char c ALPHABET = Some i"
    by (auto simp: decode_char_def split: option.splits)
  then have "i < 32" "c = ALPHABET ! i" using find_char_Some [OF i] by simp_all
  with * show ?thesis using decode_char_alphabet [of i v] by auto
qed

lemma popcount_double: "b < 2 \<Longrightarrow> popcount (2 * n + b) = popcount n + b"
  by (cases "n = 0 \<and> b = 0") (auto simp: popcount.simps [of "2 * n + b"] popcount.simps [of 0])

lemma encode_alphabet:
  "0 \<le> v \<Longrightarrow> v < 2 ^ 25 \<Longrightarrow> encode v = Inr s \<Longrightarrow> set s \<subseteq> set ALPHABET \<and> length s = 5"
  using digit_bounds [of _ v] by (auto simp: encode_digits nat_less_iff)

text \<open>
  C40. Decoding inverts encoding: every 25-bit value has a spelling of five symbols, and that
  spelling decodes to the value.
\<close>

theorem decode_encode:
  assumes "0 \<le> v" "v < 2 ^ 25"
  shows "\<exists>s. encode v = Inr s \<and> length s = 5 \<and> decode U s = Inr v"
proof -
  let ?s = "map (\<lambda>k. ALPHABET ! nat (digit k v)) [4, 3, 2, 1, 0]"
  have enc: "encode v = Inr ?s" using assms by (rule encode_digits)
  have "canonicalize U ?s = ?s"
    using encode_alphabet [OF assms enc] by (intro canonicalize_alphabet) simp
  moreover have "foldE decode_char ?s 0 = Inr v"
    using digit_bounds [of _ v] digits_value [OF assms]
    by (simp add: decode_char_alphabet nat_less_iff)
  ultimately show ?thesis using enc by (simp add: decode_def Let_def CHARS_def)
qed

theorem decode_encode_witness:
  "(0::int) \<le> 12345678 \<and> (12345678::int) < 2 ^ 25 \<and>
   (\<exists>s. encode 12345678 = Inr s \<and> decode ascii_only s = Inr 12345678)"
proof -
  have h: "(0::int) \<le> 12345678" "(12345678::int) < 2 ^ 25" by simp_all
  show ?thesis using h decode_encode [OF h, of ascii_only] by auto
qed

lemma decode_symbols:
  assumes "decode U s = Inr v"
  obtains i4 i3 i2 i1 i0 where "i4 < 32" "i3 < 32" "i2 < 32" "i1 < 32" "i0 < 32"
    "canonicalize U s = map (\<lambda>i. ALPHABET ! i) [i4, i3, i2, i1, i0]"
    "v = (((int i4 * 32 + int i3) * 32 + int i2) * 32 + int i1) * 32 + int i0"
proof -
  have len: "length (canonicalize U s) = 5" and f: "foldE decode_char (canonicalize U s) 0 = Inr v"
    using assms by (auto simp: decode_def Let_def CHARS_def split: if_splits)
  from len obtain a b c d e where cs: "canonicalize U s = [a, b, c, d, e]"
    by (auto simp: numeral_eq_Suc length_Suc_conv)
  from f cs obtain v4 v3 v2 v1 where
    "decode_char a 0 = Inr v4" "decode_char b v4 = Inr v3" "decode_char c v3 = Inr v2"
    "decode_char d v2 = Inr v1" "decode_char e v1 = Inr v"
    by (auto simp: result_simps)
  from this [THEN decode_char_Inr] show ?thesis using cs that by auto
qed

text \<open>
  Encoding inverts decoding up to spelling: what \<open>decode\<close> accepts is a 25-bit value whose
  encoding is the canonical form of the input.
\<close>

theorem encode_decode:
  assumes "decode U s = Inr v"
  shows "0 \<le> v \<and> v < 2 ^ 25 \<and> encode v = Inr (canonicalize U s)"
proof -
  obtain i4 i3 i2 i1 i0 where i: "i4 < 32" "i3 < 32" "i2 < 32" "i1 < 32" "i0 < 32"
    and c: "canonicalize U s = map (\<lambda>i. ALPHABET ! i) [i4, i3, i2, i1, i0]"
    and v: "v = (((int i4 * 32 + int i3) * 32 + int i2) * 32 + int i1) * 32 + int i0"
    using decode_symbols [OF assms] by metis
  note h = digit_horner [of "int i4" "int i3" "int i2" "int i1" "int i0", folded v]
  have b: "0 \<le> v" "v < 2 ^ 25" using i h(6,7) by simp_all
  have "encode v = Inr (canonicalize U s)"
    unfolding encode_digits [OF b] c using i h(1-5) by simp
  with b show ?thesis by simp
qed

theorem encode_decode_witness:
  "decode ascii_only (u ''O-ZilZ'') = Inr 1016895 \<and> (1016895::int) < 2 ^ 25 \<and>
   encode 1016895 = Inr (canonicalize ascii_only (u ''O-ZilZ''))"
proof -
  have h: "decode ascii_only (u ''O-ZilZ'') = Inr 1016895" by code_simp
  show ?thesis using h encode_decode [OF h] by simp
qed

lemma is_valid_encode:
  "0 \<le> v \<Longrightarrow> v < 2 ^ 25 \<Longrightarrow> encode v = Inr s \<Longrightarrow> is_valid U s \<longleftrightarrow> popcount (nat v) mod 2 = 1"
  using decode_encode [of v U] by (auto simp: is_valid_def)

lemma parity_completes:
  "0 \<le> d \<Longrightarrow> p = (if popcount (nat d) mod 2 = 1 then 0 else 1) \<Longrightarrow>
   popcount (nat (2 * d + p)) mod 2 = 1"
  using popcount_double [of "nat p" "nat d"] by (auto simp: nat_add_distrib nat_mult_distrib)

text \<open>
  \<open>generate\<close> never fails: whatever the clock and the random bytes, it returns five symbols
  that \<open>is_valid\<close> accepts, so never the reserved sentinel.
\<close>

theorem generate_valid:
  "\<exists>s. generate clock_ms b1 b2 = Inr s \<and> length s = 5 \<and> is_valid U s \<and> s \<noteq> SENTINEL"
proof -
  define r where "r = (256 * uint b1 + uint b2) AND (2 ^ 14 - 1)"
  define d where "d = push_bit 14 (clock_ms mod 1000) OR r"
  define p :: int where "p = (if popcount (nat d) mod 2 = 1 then 0 else 1)"
  have "r = take_bit 14 (256 * uint b1 + uint b2)"
    by (simp add: r_def take_bit_eq_mask mask_eq_exp_minus_1)
  then have r: "0 \<le> r" "r < 2 ^ 14"
    using take_bit_int_less_exp [of 14 "256 * uint b1 + uint b2"] by simp_all
  then have d: "d = clock_ms mod 1000 * 2 ^ 14 + r" unfolding d_def by (rule push_or_digit)
  have "0 \<le> clock_ms mod 1000" "clock_ms mod 1000 < 1000" by simp_all
  then have d24: "0 \<le> d" "d < 2 ^ 24" using r by (simp_all add: d)
  have v: "push_bit 1 d OR p = 2 * d + p"
    using push_or_digit [of p 1 d] by (simp add: p_def)
  have b: "0 \<le> 2 * d + p" "2 * d + p < 2 ^ 25" using d24 by (simp_all add: p_def)
  obtain s where s: "encode (2 * d + p) = Inr s" "length s = 5"
    using decode_encode [OF b] by blast
  have "generate clock_ms b1 b2 = encode (push_bit 1 d OR p)"
    unfolding generate_def Let_def p_def d_def r_def ..
  with s(1) v have gen: "generate clock_ms b1 b2 = Inr s" by simp
  have valid: "is_valid U' s" for U'
    using is_valid_encode [OF b s(1)] parity_completes [OF d24(1), of p] by (simp add: p_def)
  moreover have "\<not> is_valid ascii_only SENTINEL" by code_simp
  ultimately have "s \<noteq> SENTINEL" by metis
  with gen s(2) valid show ?thesis by blast
qed

end
