(* ===== verification/Identifiers.thy ===== *)
theory Identifiers imports Prelude begin

text \<open>
  The name rule and the case-blind comparison of identifiers
  (\<open>src/kanibako/identifiers.py\<close>).
\<close>

section \<open>The name rule\<close>

text \<open>The clauses \<open>name_flaw\<close> reports, in the order it checks them.\<close>

datatype flaw = FlawEmpty | FlawTooLong | FlawChar nat | FlawLeadingDigit

definition NAME_MAX_LEN :: nat where
  "NAME_MAX_LEN = 64"

definition name_char :: "nat \<Rightarrow> bool" where
  "name_char c \<longleftrightarrow> ascii_alpha c \<or> ascii_digit c \<or> c = ch CHR ''_''"

definition name_flaw :: "pystr \<Rightarrow> flaw option" where
  "name_flaw name =
     (if name = [] then Some FlawEmpty
      else if NAME_MAX_LEN < length name then Some FlawTooLong
      else case find (\<lambda>c. \<not> name_char c) name of
        Some c \<Rightarrow> Some (FlawChar c)
      | None \<Rightarrow> if ascii_digit (hd name) then Some FlawLeadingDigit else None)"

definition is_name :: "pystr \<Rightarrow> bool" where
  "is_name name \<longleftrightarrow> name_flaw name = None"

definition derived_name :: "pystr \<Rightarrow> pystr" where
  "derived_name text = replace_char (ch CHR ''.'') (ch CHR ''_'')
     (replace_char (ch CHR ''-'') (ch CHR ''_'') text)"

text \<open>The loop of \<open>first_free_name\<close>; \<open>None\<close> is a loop that never returns.\<close>

partial_function (option) first_free_loop ::
  "(pystr \<Rightarrow> bool) \<Rightarrow> pystr \<Rightarrow> pystr \<Rightarrow> nat \<Rightarrow> pystr option" where
  "first_free_loop taken base candidate n =
     (if taken candidate then first_free_loop taken base (base @ decimal n) (n + 1)
      else Some candidate)"

definition first_free_name :: "pystr \<Rightarrow> (pystr \<Rightarrow> bool) \<Rightarrow> pystr option" where
  "first_free_name base taken = first_free_loop taken base base 2"

definition underscore_spelling :: "pystr \<Rightarrow> pystr option" where
  "underscore_spelling name =
     (if name = [] \<or> \<not> is_ascii name then None
      else let spelled = map (\<lambda>c. if name_char c then c else ch CHR ''_'') name;
               spelled' = (if ascii_digit (hd spelled) then ch CHR ''_'' # spelled else spelled)
           in if is_name spelled' then Some spelled' else None)"

section \<open>Comparison\<close>

definition agent_node_case :: "unicode \<Rightarrow> pystr \<Rightarrow> pystr" where
  "agent_node_case U name = lower U name"

definition find_identifier :: "unicode \<Rightarrow> pystr \<Rightarrow> pystr list \<Rightarrow> pystr option" where
  "find_identifier U name candidates =
     find (\<lambda>candidate. casefold U candidate = casefold U name) candidates"

section \<open>Lemmas\<close>

lemma name_char_ascii: "name_char c \<Longrightarrow> c < 128"
  by (auto simp: name_char_def pystr_simps)

lemma is_name_iff:
  "is_name s \<longleftrightarrow> s \<noteq> [] \<and> length s \<le> 64 \<and> (\<forall>c \<in> set s. name_char c) \<and> \<not> ascii_digit (hd s)"
  by (auto simp: is_name_def name_flaw_def NAME_MAX_LEN_def find_None_iff find_Some_iff
      split: option.splits)

lemma is_name_ascii: "is_name s \<Longrightarrow> is_ascii s"
  by (auto simp: is_name_iff is_ascii_def list_all_iff dest: name_char_ascii)

lemma name_char_lower: "name_char c \<Longrightarrow> name_char (ascii_lower c)"
  by (auto simp: name_char_def pystr_simps)

lemma is_name_lower: "is_name s \<Longrightarrow> is_name (lower U s)"
proof -
  assume s: "is_name s"
  then obtain a t where at: "s = a # t" by (cases s) (auto simp: is_name_iff)
  have "\<not> ascii_digit (ascii_lower a)"
    using s at by (auto simp: is_name_iff pystr_simps)
  then show ?thesis
    using s at is_name_ascii [OF s] by (auto simp: is_name_iff lower_def name_char_lower)
qed

lemma name_char_not_space: "name_char c \<Longrightarrow> \<not> is_space c"
  by (auto simp: name_char_def is_space_def pystr_simps)

lemma is_name_strip: "is_name s \<Longrightarrow> strip s = s"
  by (auto simp: is_name_iff intro!: strip_id dest: name_char_not_space)

lemma find_identifier_Some:
  "find_identifier U name cs = Some c \<Longrightarrow> c \<in> set cs \<and> casefold U c = casefold U name"
  by (auto simp: find_identifier_def find_Some_iff)

lemma find_identifier_None:
  "find_identifier U name cs = None \<longleftrightarrow> (\<forall>c \<in> set cs. casefold U c \<noteq> casefold U name)"
  by (auto simp: find_identifier_def find_None_iff)

lemma find_identifier_cong:
  "casefold U a = casefold U b \<Longrightarrow> find_identifier U a cs = find_identifier U b cs"
  by (simp add: find_identifier_def)

text \<open>The candidates after the first: none is tried twice, so a finite set runs out.\<close>

lemma first_free_loop_finds:
  "\<not> taken (base @ decimal m) \<Longrightarrow> n \<le> m \<Longrightarrow> (\<And>k. n \<le> k \<Longrightarrow> k < m \<Longrightarrow> taken (base @ decimal k))
   \<Longrightarrow> taken cand \<Longrightarrow> first_free_loop taken base cand n = Some (base @ decimal m)"
proof (induction "m - n" arbitrary: n cand)
  case 0
  then show ?case
    by (subst first_free_loop.simps, simp, subst first_free_loop.simps) simp
next
  case (Suc d)
  then have "taken (base @ decimal n)" "n < m" by auto
  moreover have "first_free_loop taken base (base @ decimal n) (n + 1) = Some (base @ decimal m)"
    using Suc by (intro Suc.hyps(1)) auto
  ultimately show ?case using Suc.prems by (subst first_free_loop.simps) simp
qed

lemma least_free_suffix:
  assumes "finite {s. taken s}"
  obtains m where "2 \<le> m" "\<not> taken (base @ decimal m)"
    "\<And>k. 2 \<le> k \<Longrightarrow> k < m \<Longrightarrow> taken (base @ decimal k)"
proof -
  have inj: "inj_on (\<lambda>n. base @ decimal n) {2::nat..}" by (auto simp: inj_on_def)
  have "\<not> (\<lambda>n. base @ decimal n) ` {2::nat..} \<subseteq> {s. taken s}"
    using inj assms by (meson finite_imageD finite_subset infinite_Ici)
  then have ex: "\<exists>m. 2 \<le> m \<and> \<not> taken (base @ decimal m)" by auto
  define m where "m = (LEAST m. 2 \<le> m \<and> \<not> taken (base @ decimal m))"
  from ex have "2 \<le> m \<and> \<not> taken (base @ decimal m)"
    unfolding m_def by (rule LeastI_ex)
  moreover have "\<And>k. 2 \<le> k \<Longrightarrow> k < m \<Longrightarrow> taken (base @ decimal k)"
    unfolding m_def using not_less_Least by blast
  ultimately show ?thesis using that by blast
qed



end
