(* ===== verification/AgentRef.thy ===== *)
theory AgentRef imports Identifiers begin

text \<open>
  The \<open>persona+harness\<close> selection grammar (\<open>src/kanibako/agent_ref.py\<close>): parsing a reference
  into its canonical node, addressing the built-in pseudo-agent, and the case folds a node takes.
\<close>

section \<open>The grammar's data\<close>

definition PLUS_SEP :: nat where "PLUS_SEP = 43"

definition CANONICAL_SEP :: nat where "CANONICAL_SEP = 8472"

definition SEPARATORS :: "nat list" where
  "SEPARATORS = [PLUS_SEP, CANONICAL_SEP]"

definition PSEUDO_AGENT_NAMES :: "pystr list" where
  "PSEUDO_AGENT_NAMES = [u ''default'', u ''shell'']"

definition GENERAL_SLOT :: pystr where
  "GENERAL_SLOT = u ''shell''"

definition ADDRESSABLE_PSEUDO_AGENTS :: "pystr list" where
  "ADDRESSABLE_PSEUDO_AGENTS = [GENERAL_SLOT]"

text \<open>What a caller hands over: a string, or a value of another type.\<close>

datatype pyarg = PyStr pystr | PyOther

datatype role = AgentName | PersonaSegment | HarnessSegment

datatype ref_error = RefNotString | RefEmpty | RefSegment role flaw | RefReserved role

record agent_identity =
  node :: pystr
  registered_name :: "pystr option"
  persona :: "pystr option"
  harness :: "pystr option"
  target_name :: pystr
  entry_path :: "pystr option"

definition designation :: "agent_identity \<Rightarrow> (pystr \<times> pystr) option" where
  "designation a = (case persona a of None \<Rightarrow> None | Some p \<Rightarrow>
     (case harness a of None \<Rightarrow> None | Some h \<Rightarrow> Some (p, h)))"

section \<open>Parsing\<close>

definition is_segment_safe :: "pystr \<Rightarrow> bool" where
  "is_segment_safe segment \<longleftrightarrow> name_flaw segment = None"

definition reserved_pseudo_agent :: "unicode \<Rightarrow> pystr \<Rightarrow> bool" where
  "reserved_pseudo_agent U name \<longleftrightarrow> find_identifier U name PSEUDO_AGENT_NAMES \<noteq> None"

text \<open>The least of the indices the separators have, over those that occur.\<close>

definition first_sep_index :: "pystr \<Rightarrow> nat option" where
  "first_sep_index raw =
     (case List.map_filter (\<lambda>sep. find_char sep raw) SEPARATORS of
        [] \<Rightarrow> None
      | i # is \<Rightarrow> Some (fold min is i))"

definition display_agent_ref :: "pystr \<Rightarrow> pystr" where
  "display_agent_ref nd = replace_char CANONICAL_SEP PLUS_SEP nd"

definition check_segment :: "unicode \<Rightarrow> role \<Rightarrow> pystr \<Rightarrow> ref_error + unit" where
  "check_segment U r segment =
     (case name_flaw segment of
        Some fl \<Rightarrow> Inl (RefSegment r fl)
      | None \<Rightarrow> refuse_if (reserved_pseudo_agent U segment) (RefReserved r))"

definition parse_ref_text :: "unicode \<Rightarrow> pystr \<Rightarrow> ref_error + pystr \<times> pystr" where
  "parse_ref_text U raw =
     (let ref = strip raw in
      if ref = [] then Inl RefEmpty
      else case first_sep_index ref of
        None \<Rightarrow> bindE (check_segment U AgentName ref) (\<lambda>_. Inr (ref, ref))
      | Some idx \<Rightarrow>
          (let p = take idx ref; h = drop (idx + 1) ref in
           bindE (check_segment U PersonaSegment p) (\<lambda>_.
           bindE (check_segment U HarnessSegment h) (\<lambda>_.
           Inr (p @ CANONICAL_SEP # h, h)))))"

fun parse_agent_ref :: "unicode \<Rightarrow> pyarg \<Rightarrow> ref_error + pystr \<times> pystr" where
  "parse_agent_ref U PyOther = Inl RefNotString"
| "parse_agent_ref U (PyStr raw) = parse_ref_text U raw"

definition canonicalize_agent_ref :: "unicode \<Rightarrow> pyarg \<Rightarrow> ref_error + pystr" where
  "canonicalize_agent_ref U raw = bindE (parse_agent_ref U raw) (\<lambda>(nd, _). Inr nd)"

section \<open>Addresses and case\<close>

fun parse_agent_address :: "unicode \<Rightarrow> pyarg \<Rightarrow> ref_error + pystr \<times> pystr" where
  "parse_agent_address U (PyStr raw) =
     (case find_identifier U (strip raw) ADDRESSABLE_PSEUDO_AGENTS of
        Some pseudo \<Rightarrow> Inr (pseudo, pseudo)
      | None \<Rightarrow> parse_agent_ref U (PyStr raw))"
| "parse_agent_address U PyOther = parse_agent_ref U PyOther"

definition harness_of :: "pystr \<Rightarrow> pystr" where
  "harness_of nd = (case rpartition CANONICAL_SEP nd of (_, _, h) \<Rightarrow> if h \<noteq> [] then h else nd)"

definition persona_of :: "pystr \<Rightarrow> pystr" where
  "persona_of nd = (case rpartition CANONICAL_SEP nd of (p, sep, _) \<Rightarrow> if sep then p else nd)"

definition with_harness :: "pystr \<Rightarrow> pystr \<Rightarrow> pystr" where
  "with_harness nd h =
     (case rpartition CANONICAL_SEP nd of (p, sep, _) \<Rightarrow> if sep then p @ CANONICAL_SEP # h else h)"

definition agent_address_node :: "unicode \<Rightarrow> pyarg \<Rightarrow> ref_error + pystr" where
  "agent_address_node U raw =
     bindE (parse_agent_address U raw) (\<lambda>(nd, h). Inr (with_harness nd (agent_node_case U h)))"

definition agent_segment_case :: "unicode \<Rightarrow> pystr \<Rightarrow> pystr" where
  "agent_segment_case U segment =
     (case find_identifier U segment PSEUDO_AGENT_NAMES of
        Some pseudo \<Rightarrow> pseudo
      | None \<Rightarrow> (case parse_agent_ref U (PyStr segment) of
          Inl _ \<Rightarrow> segment
        | Inr (_, h) \<Rightarrow>
            if \<not> suffix h segment then segment
            else take (length segment - length h) segment @ agent_node_case U h))"

section \<open>Lemmas\<close>

text \<open>A segment that may be used: it follows the name rule and is not reserved.\<close>

definition good_segment :: "unicode \<Rightarrow> pystr \<Rightarrow> bool" where
  "good_segment U s \<longleftrightarrow> is_name s \<and> \<not> reserved_pseudo_agent U s"

lemma check_segment_Inr [simp]: "check_segment U r s = Inr x \<longleftrightarrow> good_segment U s"
  by (auto simp: check_segment_def good_segment_def is_name_def result_simps split: option.splits)

lemma check_segment_good [simp]: "good_segment U s \<Longrightarrow> check_segment U r s = Inr ()"
  by simp

lemma good_segment_nonempty [dest]: "good_segment U s \<Longrightarrow> s \<noteq> []"
  by (auto simp: good_segment_def is_name_iff)

lemma good_segment_chars: "good_segment U s \<Longrightarrow> c \<in> set s \<Longrightarrow> name_char c"
  by (auto simp: good_segment_def is_name_iff)

lemma sep_no_name_char: "\<not> name_char PLUS_SEP" "\<not> name_char CANONICAL_SEP"
  by (simp_all add: PLUS_SEP_def CANONICAL_SEP_def name_char_def pystr_simps)

lemma sep_no_space: "\<not> is_space PLUS_SEP" "\<not> is_space CANONICAL_SEP"
  by (simp_all add: PLUS_SEP_def CANONICAL_SEP_def is_space_def)

lemma good_segment_no_sep:
  assumes "good_segment U s"
  shows "PLUS_SEP \<notin> set s" "CANONICAL_SEP \<notin> set s"
  using good_segment_chars [OF assms] sep_no_name_char by blast+

lemma reserved_cong: "casefold U a = casefold U b \<Longrightarrow> reserved_pseudo_agent U a = reserved_pseudo_agent U b"
  by (simp add: reserved_pseudo_agent_def find_identifier_def)

lemma casefold_node_case: "good_segment U s \<Longrightarrow> casefold U (agent_node_case U s) = casefold U s"
  unfolding agent_node_case_def good_segment_def by (blast intro: casefold_lower_ascii is_name_ascii)

lemma good_segment_lower: "good_segment U s \<Longrightarrow> good_segment U (agent_node_case U s)"
proof -
  assume s: "good_segment U s"
  then have "is_name (agent_node_case U s)"
    unfolding agent_node_case_def good_segment_def by (blast intro: is_name_lower)
  moreover have "\<not> reserved_pseudo_agent U (agent_node_case U s)"
    using s reserved_cong [OF casefold_node_case [OF s]] by (auto simp: good_segment_def)
  ultimately show ?thesis by (simp add: good_segment_def)
qed

lemma agent_node_case_idem: "good_segment U s \<Longrightarrow> agent_node_case U (agent_node_case U s) = agent_node_case U s"
  by (simp add: agent_node_case_def good_segment_def lower_ascii_idem is_name_ascii)

lemma first_sep_index_None: "first_sep_index s = None \<longleftrightarrow> PLUS_SEP \<notin> set s \<and> CANONICAL_SEP \<notin> set s"
  by (auto simp: first_sep_index_def SEPARATORS_def List.map_filter_simps find_char_None [symmetric]
      split: option.splits list.splits)

lemma first_sep_index_good:
  assumes p: "PLUS_SEP \<notin> set p" "CANONICAL_SEP \<notin> set p"
    and h: "PLUS_SEP \<notin> set h" "CANONICAL_SEP \<notin> set h" and c: "c = PLUS_SEP \<or> c = CANONICAL_SEP"
  shows "first_sep_index (p @ c # h) = Some (length p)"
proof -
  have f: "find_char d (p @ c # h) = (if d = c then Some (length p) else None)"
    if "d = PLUS_SEP \<or> d = CANONICAL_SEP" for d
    using that p h c find_char_append [of c p h] find_char_None [of d "p @ c # h"] by auto
  show ?thesis
    using c f [of PLUS_SEP] f [of CANONICAL_SEP]
    by (auto simp: first_sep_index_def SEPARATORS_def List.map_filter_simps PLUS_SEP_def CANONICAL_SEP_def)
qed

lemma parse_ref_text_bare: "good_segment U s \<Longrightarrow> parse_ref_text U s = Inr (s, s)"
proof -
  assume s: "good_segment U s"
  then have "strip s = s" by (auto simp: good_segment_def intro: is_name_strip)
  moreover have "first_sep_index s = None"
    using good_segment_no_sep [OF s] by (simp add: first_sep_index_None)
  ultimately show ?thesis using s by (auto simp: parse_ref_text_def)
qed

lemma good_pair_strip:
  assumes "good_segment U p" "good_segment U h" "c = PLUS_SEP \<or> c = CANONICAL_SEP"
  shows "strip (p @ c # h) = p @ c # h"
  using good_segment_chars [OF assms(1)] good_segment_chars [OF assms(2)] assms(3)
  by (intro strip_id) (use sep_no_space name_char_not_space in force)

lemma parse_ref_text_pair:
  assumes p: "good_segment U p" and h: "good_segment U h" and c: "c = PLUS_SEP \<or> c = CANONICAL_SEP"
  shows "parse_ref_text U (p @ c # h) = Inr (p @ CANONICAL_SEP # h, h)"
proof -
  have "first_sep_index (p @ c # h) = Some (length p)"
    using good_segment_no_sep [OF p] good_segment_no_sep [OF h] c by (intro first_sep_index_good)
  then show ?thesis
    using good_pair_strip [OF p h c] p h by (simp add: parse_ref_text_def Let_def)
qed

text \<open>Concrete segments for the witnesses.\<close>

lemma sample_segments:
  "good_segment ascii_only (u ''Nav'')" "good_segment ascii_only (u ''Claude'')"
  "good_segment ascii_only (u ''shellx'')"
  by (simp_all add: good_segment_def reserved_pseudo_agent_def find_identifier_def is_name_def
      name_flaw_def NAME_MAX_LEN_def name_char_def PSEUDO_AGENT_NAMES_def casefold_def pystr_simps)

lemma sample_pair:
  "parse_agent_ref ascii_only (PyStr (u ''Nav'' @ PLUS_SEP # u ''Claude'')) =
     Inr (u ''Nav'' @ CANONICAL_SEP # u ''Claude'', u ''Claude'')"
  by (simp add: parse_ref_text_pair sample_segments)

text \<open>Every successful parse is one of the two shapes.\<close>

lemma parse_ref_text_shape:
  assumes "parse_ref_text U raw = Inr (nd, h)"
  shows "nd = h \<and> good_segment U h \<or>
    (\<exists>p. good_segment U p \<and> good_segment U h \<and> nd = p @ CANONICAL_SEP # h)"
  using assms
  by (auto simp: parse_ref_text_def Let_def result_simps split: if_splits option.splits)

lemma with_harness_pair:
  "good_segment U h \<Longrightarrow> with_harness (p @ CANONICAL_SEP # h) k = p @ CANONICAL_SEP # k"
  by (simp add: with_harness_def rpartition_append good_segment_no_sep)

lemma with_harness_bare: "good_segment U h \<Longrightarrow> with_harness h k = k"
  by (simp add: with_harness_def rpartition_free good_segment_no_sep)

text \<open>
  Parsing is canonical: the node a reference parses to is itself a reference that parses to
  the same node and harness, and so is the spelling a user is shown for it; the harness read
  back from the node is the parsed one, and both segments follow the name rule.
\<close>

theorem parse_agent_ref_canonical:
  assumes "parse_agent_ref U raw = Inr (nd, h)"
  shows "parse_agent_ref U (PyStr nd) = Inr (nd, h) \<and>
    parse_agent_ref U (PyStr (display_agent_ref nd)) = Inr (nd, h) \<and>
    harness_of nd = h \<and> is_name h \<and> is_name (persona_of nd)"
proof -
  obtain t where "raw = PyStr t" using assms by (cases raw) auto
  with assms parse_ref_text_shape [of U t nd h]
  consider (bare) "nd = h" "good_segment U h"
    | (pair) p where "good_segment U p" "good_segment U h" "nd = p @ CANONICAL_SEP # h"
    by auto
  then show ?thesis
  proof cases
    case bare
    have "display_agent_ref h = h"
      using good_segment_no_sep(2) [OF bare(2)]
      by (auto simp: display_agent_ref_def replace_char_def intro!: map_idI)
    then show ?thesis
      using bare good_segment_no_sep(2) [OF bare(2)]
      by (simp add: parse_ref_text_bare harness_of_def persona_of_def rpartition_free good_segment_def)
  next
    case pair
    have "display_agent_ref nd = p @ PLUS_SEP # h"
      using good_segment_no_sep(2) [OF pair(1)] good_segment_no_sep(2) [OF pair(2)] pair(3)
      by (auto simp: display_agent_ref_def replace_char_def intro!: map_idI)
    moreover have "h \<noteq> []" using pair(2) by blast
    ultimately show ?thesis
      using pair good_segment_no_sep(2) [OF pair(2)]
      by (simp add: parse_ref_text_pair harness_of_def persona_of_def rpartition_append good_segment_def)
  qed
qed

theorem parse_agent_ref_canonical_witness:
  "parse_agent_ref ascii_only (PyStr (u ''Nav'' @ CANONICAL_SEP # u ''Claude'')) =
     Inr (u ''Nav'' @ CANONICAL_SEP # u ''Claude'', u ''Claude'') \<and>
   harness_of (u ''Nav'' @ CANONICAL_SEP # u ''Claude'') = u ''Claude''"
  using parse_agent_ref_canonical [OF sample_pair] by simp

text \<open>
  The reservation holds for every spelling: no reference parses to a node whose persona or
  harness compares equal, case-blind, to the name of a pseudo-agent.
\<close>

theorem parse_agent_ref_not_reserved:
  assumes "parse_agent_ref U raw = Inr (nd, h)" and "r \<in> set PSEUDO_AGENT_NAMES"
  shows "casefold U h \<noteq> casefold U r \<and> casefold U (persona_of nd) \<noteq> casefold U r"
proof -
  have free: "good_segment U s \<Longrightarrow> casefold U s \<noteq> casefold U r" for s
    using assms(2) by (auto simp: good_segment_def reserved_pseudo_agent_def find_identifier_None)
  obtain t where "raw = PyStr t" using assms(1) by (cases raw) auto
  with assms(1) parse_ref_text_shape [of U t nd h]
  consider (bare) "nd = h" "good_segment U h"
    | (pair) p where "good_segment U p" "good_segment U h" "nd = p @ CANONICAL_SEP # h"
    by auto
  then show ?thesis
  proof cases
    case bare
    then show ?thesis
      using free good_segment_no_sep(2) [OF bare(2)] by (simp add: persona_of_def rpartition_free)
  next
    case pair
    then show ?thesis
      using free good_segment_no_sep(2) [OF pair(2)] by (simp add: persona_of_def rpartition_append)
  qed
qed

theorem parse_agent_ref_not_reserved_witness:
  "parse_agent_ref ascii_only (PyStr (u ''shellx'')) = Inr (u ''shellx'', u ''shellx'') \<and>
   u ''shell'' \<in> set PSEUDO_AGENT_NAMES \<and>
   casefold ascii_only (u ''shellx'') \<noteq> casefold ascii_only (u ''shell'')"
proof -
  have h: "parse_agent_ref ascii_only (PyStr (u ''shellx'')) = Inr (u ''shellx'', u ''shellx'')"
    using parse_ref_text_bare [OF sample_segments(3)] by simp
  have m: "u ''shell'' \<in> set PSEUDO_AGENT_NAMES" by (simp add: PSEUDO_AGENT_NAMES_def)
  show ?thesis using h m parse_agent_ref_not_reserved [OF h m] by simp
qed

lemma agent_address_shell:
  "agent_address_node U (PyStr GENERAL_SLOT) = Inr GENERAL_SLOT"
proof -
  have "strip GENERAL_SLOT = GENERAL_SLOT" and low: "lower U GENERAL_SLOT = GENERAL_SLOT"
    and sep: "CANONICAL_SEP \<notin> set GENERAL_SLOT"
    by (simp_all add: GENERAL_SLOT_def u_def strip_def rstrip_by_def is_space_def lower_def
        is_ascii_def pystr_simps CANONICAL_SEP_def)
  then have "parse_agent_address U (PyStr GENERAL_SLOT) = Inr (GENERAL_SLOT, GENERAL_SLOT)"
    by (simp add: ADDRESSABLE_PSEUDO_AGENTS_def find_identifier_def)
  then show ?thesis
    using low sep by (simp add: agent_address_node_def agent_node_case_def with_harness_def rpartition_free)
qed

lemma address_of_good:
  "good_segment U s \<Longrightarrow> find_identifier U s ADDRESSABLE_PSEUDO_AGENTS = None"
  by (auto simp: good_segment_def reserved_pseudo_agent_def find_identifier_None
      ADDRESSABLE_PSEUDO_AGENTS_def PSEUDO_AGENT_NAMES_def GENERAL_SLOT_def)

lemma pair_not_addressable:
  assumes "fold_char U CANONICAL_SEP = [CANONICAL_SEP]" "c = CANONICAL_SEP"
  shows "find_identifier U (p @ c # h) ADDRESSABLE_PSEUDO_AGENTS = None"
proof -
  have "CANONICAL_SEP \<in> set (casefold U (p @ c # h))"
    using assms by (simp add: casefold_def CANONICAL_SEP_def)
  moreover have "CANONICAL_SEP \<notin> set (casefold U GENERAL_SLOT)"
    by (simp add: casefold_def CANONICAL_SEP_def GENERAL_SLOT_def pystr_simps)
  ultimately have "casefold U GENERAL_SLOT \<noteq> casefold U (p @ c # h)" by metis
  then show ?thesis by (simp add: find_identifier_None ADDRESSABLE_PSEUDO_AGENTS_def)
qed

text \<open>The three shapes an address parses to.\<close>

lemma parse_agent_address_shape:
  assumes "parse_agent_address U raw = Inr (nd, h)"
  shows "nd = GENERAL_SLOT \<and> h = GENERAL_SLOT \<or> nd = h \<and> good_segment U h \<or>
    (\<exists>p. good_segment U p \<and> good_segment U h \<and> nd = p @ CANONICAL_SEP # h)"
proof (cases raw)
  case (PyStr t)
  show ?thesis
  proof (cases "find_identifier U (strip t) ADDRESSABLE_PSEUDO_AGENTS")
    case None
    with assms PyStr parse_ref_text_shape [of U t nd h] show ?thesis by auto
  next
    case (Some q)
    with find_identifier_Some [OF Some] assms PyStr show ?thesis
      by (simp add: ADDRESSABLE_PSEUDO_AGENTS_def)
  qed
qed (use assms in simp)

text \<open>
  Folding at the address hop is stable: the node an address reaches is an address that
  reaches the same node, so a node read back from a stamp or a key names the same store.
\<close>

theorem agent_address_node_stable:
  assumes sep: "fold_char U CANONICAL_SEP = [CANONICAL_SEP]"
    and addr: "agent_address_node U raw = Inr n"
  shows "agent_address_node U (PyStr n) = Inr n"
proof -
  obtain nd h where p: "parse_agent_address U raw = Inr (nd, h)"
    and n: "n = with_harness nd (agent_node_case U h)"
    using addr by (auto simp: agent_address_node_def result_simps)
  let ?k = "agent_node_case U h"
  from parse_agent_address_shape [OF p]
  consider (shell) "nd = GENERAL_SLOT" "h = GENERAL_SLOT" | (bare) "nd = h" "good_segment U h"
    | (pair) q where "good_segment U q" "good_segment U h" "nd = q @ CANONICAL_SEP # h"
    by auto
  then show ?thesis
  proof cases
    case shell
    have "agent_address_node U (PyStr GENERAL_SLOT) = Inr n"
      using n shell agent_address_shell [of U]
      by (simp add: agent_address_node_def ADDRESSABLE_PSEUDO_AGENTS_def find_identifier_def
          GENERAL_SLOT_def strip_def rstrip_by_def is_space_def pystr_simps)
    with agent_address_shell [of U] show ?thesis by simp
  next
    case bare
    have k: "good_segment U ?k" using good_segment_lower [OF bare(2)] .
    have "strip ?k = ?k" using k by (auto simp: good_segment_def intro: is_name_strip)
    then have "parse_agent_address U (PyStr ?k) = Inr (?k, ?k)"
      using address_of_good [OF k] parse_ref_text_bare [OF k] by simp
    then show ?thesis
      using n bare k
      by (simp add: agent_address_node_def with_harness_bare agent_node_case_idem)
  next
    case pair
    have k: "good_segment U ?k" using good_segment_lower [OF pair(2)] .
    have nk: "n = q @ CANONICAL_SEP # ?k" using n pair by (simp add: with_harness_pair)
    have "parse_agent_address U (PyStr n) = Inr (n, ?k)"
      unfolding nk using pair_not_addressable [OF sep refl, of q ?k] good_pair_strip [OF pair(1) k]
        parse_ref_text_pair [OF pair(1) k] by simp
    then show ?thesis
      using nk pair(2) k by (simp add: agent_address_node_def with_harness_pair agent_node_case_idem)
  qed
qed

theorem agent_address_node_stable_witness:
  "agent_address_node ascii_only (PyStr (u ''Nav'' @ CANONICAL_SEP # u ''claude'')) =
     Inr (u ''Nav'' @ CANONICAL_SEP # u ''claude'')"
proof -
  have s: "fold_char ascii_only CANONICAL_SEP = [CANONICAL_SEP]" by (simp add: ascii_only_def)
  have n: "agent_node_case ascii_only (u ''Claude'') = u ''claude''"
    by (simp add: agent_node_case_def lower_def is_ascii_def pystr_simps)
  have "find_identifier ascii_only (strip (u ''Nav'' @ PLUS_SEP # u ''Claude'')) ADDRESSABLE_PSEUDO_AGENTS = None"
    by (subst good_pair_strip [OF sample_segments(1,2)])
       (simp_all add: find_identifier_def ADDRESSABLE_PSEUDO_AGENTS_def GENERAL_SLOT_def
         casefold_def PLUS_SEP_def pystr_simps)
  then have "agent_address_node ascii_only (PyStr (u ''Nav'' @ PLUS_SEP # u ''Claude'')) =
      Inr (u ''Nav'' @ CANONICAL_SEP # u ''claude'')"
    using sample_pair n sample_segments
    by (simp add: agent_address_node_def with_harness_pair good_segment_no_sep)
  from agent_address_node_stable [OF s this] show ?thesis .
qed

text \<open>
  Whatever segment a user wrote, \<open>agent_segment_case\<close> changes nothing but its case: the
  result compares equal, case-blind, to what was written.
\<close>

theorem agent_segment_case_only_case:
  "casefold U (agent_segment_case U segment) = casefold U segment"
proof (cases "find_identifier U segment PSEUDO_AGENT_NAMES")
  case (Some q)
  then show ?thesis using find_identifier_Some [OF Some] by (simp add: agent_segment_case_def)
next
  case None
  show ?thesis
  proof (cases "parse_agent_ref U (PyStr segment)")
    case (Inl e)
    with None show ?thesis by (simp add: agent_segment_case_def)
  next
    case (Inr r)
    obtain nd h where r: "r = (nd, h)" by (cases r)
    then have g: "good_segment U h" using Inr parse_ref_text_shape [of U segment nd h] by auto
    show ?thesis
    proof (cases "suffix h segment")
      case True
      then obtain p where p: "segment = p @ h" by (auto simp: suffix_def)
      have "agent_segment_case U segment = p @ agent_node_case U h"
        unfolding agent_segment_case_def None Inr r using True by (simp add: p)
      then show ?thesis
        unfolding p by (simp only: casefold_append casefold_node_case [OF g])
    next
      case False
      with None Inr r show ?thesis by (simp add: agent_segment_case_def)
    qed
  qed
qed

end
