(* ===== verification/Keyspace.thy ===== *)
theory Keyspace imports AgentRef begin

text \<open>
  The positions of the dest-keyed categories in the closed keyspace
  (\<open>src/kanibako/settings/settings_keyspace.py\<close>, \<open>kb_store.py\<close>): where a category key ends,
  and how a message spells a key or an entry of one.
\<close>

abbreviation dot :: nat where "dot \<equiv> ch CHR ''.''"

text \<open>Containment order of the four scopes, outermost first (\<open>kb_store.SCOPE_CONTAINMENT\<close>).\<close>

definition SCOPE_CONTAINMENT :: "pystr list" where
  "SCOPE_CONTAINMENT = [u ''system'', u ''agent'', u ''workset'', u ''box'']"

definition TERMINAL_CATEGORY_TAILS :: "pystr list list" where
  "TERMINAL_CATEGORY_TAILS =
     [[u ''masks''], [u ''bindings'', u ''ro''], [u ''bindings'', u ''rw''],
      [u ''caches''], [u ''seeded''], [u ''common''], [u ''synced'']]"

definition is_terminal_category_tail :: "pystr list \<Rightarrow> bool" where
  "is_terminal_category_tail tail \<longleftrightarrow>
     list_ex (\<lambda>cat. length cat \<le> length tail \<and> drop (length tail - length cat) tail = cat)
       TERMINAL_CATEGORY_TAILS"

text \<open>The loop over the tails; the first that ends the key decides.\<close>

fun terminal_key_loop :: "pystr list \<Rightarrow> pystr list list \<Rightarrow> bool" where
  "terminal_key_loop parts [] = False"
| "terminal_key_loop parts (cat # cats) =
     (if length parts \<le> length cat \<or> drop (length parts - length cat) parts \<noteq> cat
      then terminal_key_loop parts cats
      else (let scope = take (length parts - length cat) parts in
        if hd scope \<notin> set SCOPE_CONTAINMENT then False
        else length scope = (if hd scope = u ''agent'' then 2 else 1)))"

definition is_terminal_category_key :: "pystr \<Rightarrow> bool" where
  "is_terminal_category_key key = terminal_key_loop (split_char dot key) TERMINAL_CATEGORY_TAILS"

text \<open>\<open>s.partition(".")\<close>, for its first and last part.\<close>

definition partition_dot :: "pystr \<Rightarrow> pystr \<times> pystr" where
  "partition_dot s = (takeWhile (\<lambda>c. c \<noteq> dot) s, tl (dropWhile (\<lambda>c. c \<noteq> dot) s))"

definition entry_label :: "pystr \<Rightarrow> pystr \<Rightarrow> pystr" where
  "entry_label declaration entry =
     (case partition_dot declaration of (h, target) \<Rightarrow>
        if is_terminal_category_key (if h = u ''pref'' then target else declaration)
        then declaration @ u ''['' @ entry @ u '']''
        else declaration @ u ''.'' @ entry)"

text \<open>The heads whose next segment is an agent node.\<close>

definition NODE_HEADS :: "pystr list list" where
  "NODE_HEADS = [[u ''agent''], [u ''meta'', u ''agent''], [u ''pref'', u ''agent'']]"

fun display_loop :: "pystr list \<Rightarrow> pystr list list \<Rightarrow> pystr list" where
  "display_loop parts [] = parts"
| "display_loop parts (h # hs) =
     (if take (length h) parts = h \<and> length h < length parts
      then h @ display_agent_ref (parts ! length h) # drop (length h + 1) parts
      else display_loop parts hs)"

definition display_segments :: "pystr list \<Rightarrow> pystr list" where
  "display_segments segments = display_loop segments NODE_HEADS"

definition shown_key :: "pystr \<Rightarrow> pystr" where
  "shown_key key = join_char dot (display_segments (split_char dot key))"

section \<open>Lemmas\<close>

text \<open>A category key is a scope, one segment but for the agent tier's two, and a tail.\<close>

definition scope_path :: "pystr list \<Rightarrow> bool" where
  "scope_path p \<longleftrightarrow> (\<exists>s. p = [s] \<and> s \<in> set SCOPE_CONTAINMENT \<and> s \<noteq> u ''agent'') \<or>
     (\<exists>nd. p = [u ''agent'', nd])"

lemma tails_last_distinct:
  "c \<in> set TERMINAL_CATEGORY_TAILS \<Longrightarrow> d \<in> set TERMINAL_CATEGORY_TAILS \<Longrightarrow> last c = last d \<Longrightarrow> c = d"
  by (auto simp: TERMINAL_CATEGORY_TAILS_def u_def)

lemma tails_nonempty: "c \<in> set TERMINAL_CATEGORY_TAILS \<Longrightarrow> c \<noteq> []"
  by (auto simp: TERMINAL_CATEGORY_TAILS_def)

lemma scope_path_iff:
  "p \<noteq> [] \<Longrightarrow> scope_path p \<longleftrightarrow>
    hd p \<in> set SCOPE_CONTAINMENT \<and> length p = (if hd p = u ''agent'' then 2 else 1)"
  by (cases p; cases "tl p")
     (auto simp: scope_path_def SCOPE_CONTAINMENT_def u_def length_Suc_conv split: if_splits)

lemma terminal_key_loop_iff:
  "set cats \<subseteq> set TERMINAL_CATEGORY_TAILS \<Longrightarrow>
   terminal_key_loop parts cats \<longleftrightarrow> (\<exists>p cat. cat \<in> set cats \<and> scope_path p \<and> parts = p @ cat)"
proof (induction cats)
  case (Cons cat cats)
  have cat: "cat \<in> set TERMINAL_CATEGORY_TAILS" "cat \<noteq> []"
    using Cons.prems tails_nonempty by auto
  show ?case
  proof (cases "length parts \<le> length cat \<or> drop (length parts - length cat) parts \<noteq> cat")
    case True
    then have "\<not> (\<exists>p. scope_path p \<and> parts = p @ cat)"
      by (auto simp: scope_path_def)
    with True Cons show ?thesis by auto
  next
    case False
    then obtain p where p: "parts = p @ cat" "p \<noteq> []"
      by (metis append_take_drop_id length_drop diff_diff_cancel le_cases append_self_conv2)
    have uniq: "d = cat \<and> q = p" if "d \<in> set (cat # cats)" "parts = q @ d" for d q
    proof -
      have "d \<in> set TERMINAL_CATEGORY_TAILS" using that(1) Cons.prems by auto
      moreover from this have "last d = last cat"
        using that(2) p(1) cat(2) tails_nonempty by (metis last_appendR)
      ultimately have "d = cat" using tails_last_distinct cat(1) by blast
      with that(2) p(1) show ?thesis by simp
    qed
    have "terminal_key_loop parts (cat # cats) \<longleftrightarrow> scope_path p"
      using False p scope_path_iff [OF p(2)] by (simp add: Let_def)
    with uniq p(1) show ?thesis by auto
  qed
qed simp

text \<open>
  \<open>is_terminal_category_key\<close> is the position test it is documented to be: a key is a
  category key exactly when it is a scope followed by one of the category tails, the scope
  being one segment, or \<open>agent\<close> and a node.
\<close>

theorem terminal_key_position:
  "is_terminal_category_key key \<longleftrightarrow>
    (\<exists>p cat. cat \<in> set TERMINAL_CATEGORY_TAILS \<and> scope_path p \<and> split_char dot key = p @ cat)"
  by (simp add: is_terminal_category_key_def terminal_key_loop_iff)

lemma terminal_key_of_path:
  assumes "q \<noteq> []" "\<And>s. s \<in> set q \<Longrightarrow> dot \<notin> set s"
  shows "is_terminal_category_key (join_char dot q) \<longleftrightarrow>
    (\<exists>p cat. cat \<in> set TERMINAL_CATEGORY_TAILS \<and> scope_path p \<and> q = p @ cat)"
  using assms by (simp add: is_terminal_category_key_def terminal_key_loop_iff split_join_char)

end
