(* ===== verification/Keystore.thy ===== *)
theory Keystore imports Keyspace "HOL-Library.Word" begin

text \<open>
  The nested key store and the cascade merge (\<open>src/kanibako/settings/keystore.py\<close>,
  \<open>kb_store.py\<close>, \<open>settings_merge.py\<close>).
\<close>

section \<open>Values\<close>

text \<open>
  The value space of a store: a nested node, or a leaf. A present \<open>None\<close> is a leaf, distinct
  from an absent name. A float is held as its 64 bits and never inspected.
\<close>

datatype leaf =
    LNone
  | LStr pystr
  | LInt int
  | LFloat "64 word"
  | LBool bool
  | LList "pystr list"
  | LBind pystr pystr "pystr option"
  | LEntry pystr "pystr option"

datatype store_value = SLeaf leaf | SNode "(pystr \<times> store_value) list"

type_synonym keystore = "(pystr \<times> store_value) list"

section \<open>Writing\<close>

definition RESERVED_KEY_NAMES :: "pystr list" where
  "RESERVED_KEY_NAMES =
     [u ''get'', u ''keys'', u ''values'', u ''items'', u ''pop'', u ''popitem'', u ''setdefault'',
      u ''update'', u ''clear'', u ''copy'', u ''fromkeys'', u ''RESERVED_KEY_NAMES'',
      u ''insert_segments'']"

datatype key_error = ReservedDunder pystr | ReservedShadow pystr | NoSegments

definition check_key_name :: "pystr \<Rightarrow> key_error + pystr" where
  "check_key_name key =
     (if prefix (u ''__'') key \<and> suffix (u ''__'') key then Inl (ReservedDunder key)
      else if key \<in> set RESERVED_KEY_NAMES then Inl (ReservedShadow key)
      else Inr key)"

text \<open>\<open>store[key] = value\<close>.\<close>

definition set_item :: "keystore \<Rightarrow> pystr \<Rightarrow> store_value \<Rightarrow> key_error + keystore" where
  "set_item ks key v = bindE (check_key_name key) (\<lambda>k. Inr (dict_set k v ks))"

text \<open>
  \<open>insert_segments\<close>: a missing or non-node parent becomes a fresh node, installed before the
  descent goes on; a refused name leaves what was installed above it, so the result is the
  error, if any, and the store as it then stands.
\<close>

fun insert_segments :: "keystore \<Rightarrow> pystr list \<Rightarrow> store_value \<Rightarrow> key_error option \<times> keystore" where
  "insert_segments ks [] v = (Some NoSegments, ks)"
| "insert_segments ks [seg] v =
     (case set_item ks seg v of Inl e \<Rightarrow> (Some e, ks) | Inr ks' \<Rightarrow> (None, ks'))"
| "insert_segments ks (seg # seg' # rest) v =
     (case map_of ks seg of
        Some (SNode child) \<Rightarrow>
          (case insert_segments child (seg' # rest) v of (e, c) \<Rightarrow> (e, dict_set seg (SNode c) ks))
      | _ \<Rightarrow>
          (case check_key_name seg of
             Inl e \<Rightarrow> (Some e, ks)
           | Inr _ \<Rightarrow>
               (case insert_segments [] (seg' # rest) v of (e, c) \<Rightarrow> (e, dict_set seg (SNode c) ks))))"

fun clone_store :: "keystore \<Rightarrow> keystore" where
  "clone_store ks = map (\<lambda>(k, v). (k, case v of SNode sub \<Rightarrow> SNode (clone_store sub) | SLeaf l \<Rightarrow> SLeaf l)) ks"

text \<open>The value at a path of segments.\<close>

fun ks_lookup :: "keystore \<Rightarrow> pystr list \<Rightarrow> store_value option" where
  "ks_lookup ks [] = Some (SNode ks)"
| "ks_lookup ks [seg] = map_of ks seg"
| "ks_lookup ks (seg # seg' # rest) =
     (case map_of ks seg of Some (SNode sub) \<Rightarrow> ks_lookup sub (seg' # rest) | _ \<Rightarrow> None)"

section \<open>The cascade merge\<close>

definition PREF_ROOT :: pystr where "PREF_ROOT = u ''pref''"

definition is_category_root :: "pystr list \<Rightarrow> bool" where
  "is_category_root path = is_terminal_category_key (join_char dot path)"

definition is_category_entry :: "pystr list \<Rightarrow> bool" where
  "is_category_entry path =
     list_ex (\<lambda>i. is_terminal_category_key (join_char dot (take i path))) [1..<length path]"

text \<open>\<open>True\<close> for the \<open>_OMIT\<close> answer, \<open>False\<close> for a \<open>None\<close> that is kept.\<close>

definition omits_present_none :: "pystr list \<Rightarrow> bool" where
  "omits_present_none path =
     (if path \<noteq> [] \<and> hd path = PREF_ROOT then False
      else if path \<noteq> [] \<and> is_category_root path then True
      else is_category_entry path)"

definition names_in_order :: "keystore list \<Rightarrow> pystr list" where
  "names_in_order levels =
     fold (\<lambda>name seen. if name \<in> set seen then seen else seen @ [name])
       (concat (map dict_keys levels)) []"

text \<open>The values a name has at the levels that set it, most specific first.\<close>

fun setters :: "pystr \<Rightarrow> keystore list \<Rightarrow> store_value list" where
  "setters name [] = []"
| "setters name (level # levels) =
     (case map_of level name of None \<Rightarrow> setters name levels | Some v \<Rightarrow> v # setters name levels)"

fun subtrees :: "store_value list \<Rightarrow> keystore list" where
  "subtrees [] = []"
| "subtrees (SNode sub # vs) = sub # subtrees vs"
| "subtrees (SLeaf l # vs) = subtrees vs"

text \<open>A measure for the descent: every subtree is smaller than the node that holds it.\<close>

fun weight :: "keystore \<Rightarrow> nat" where
  "weight ks = Suc (sum_list (map (\<lambda>(k, v). case v of SNode sub \<Rightarrow> weight sub | SLeaf l \<Rightarrow> 0) ks))"

lemma weight_pos: "0 < weight ks"
  by simp

declare weight.simps [simp del]

lemma weight_member: "map_of ks k = Some (SNode sub) \<Longrightarrow> weight sub < weight ks"
proof -
  assume "map_of ks k = Some (SNode sub)"
  then have "(k, SNode sub) \<in> set ks" by (rule map_of_SomeD)
  then have "weight sub \<le> sum_list (map (\<lambda>(k, v). case v of SNode sub \<Rightarrow> weight sub | SLeaf l \<Rightarrow> 0) ks)"
    by (induction ks) auto
  then show ?thesis by (simp add: weight.simps [of ks])
qed

lemma subtrees_setters_Cons:
  "subtrees (setters n (l # ls)) =
     (case map_of l n of Some (SNode sub) \<Rightarrow> [sub] | _ \<Rightarrow> []) @ subtrees (setters n ls)"
  by (simp split: option.splits store_value.splits)

lemma weight_subtrees:
  "subtrees (setters n ls) = [] \<or>
   sum_list (map weight (subtrees (setters n ls))) < sum_list (map weight ls)"
proof (induction ls)
  case (Cons l ls)
  show ?case
  proof (cases "\<exists>sub. map_of l n = Some (SNode sub)")
    case True
    then obtain sub where s: "map_of l n = Some (SNode sub)" by blast
    with weight_member [OF s] Cons.IH show ?thesis by (auto simp: subtrees_setters_Cons)
  next
    case False
    then have "subtrees (setters n (l # ls)) = subtrees (setters n ls)"
      unfolding subtrees_setters_Cons by (auto split: option.splits store_value.splits)
    with Cons.IH weight_pos [of l] show ?thesis by auto
  qed
qed simp

function merge_nodes :: "keystore list \<Rightarrow> pystr list \<Rightarrow> keystore" where
  "merge_nodes levels path =
     concat (map (\<lambda>name.
       (case setters name levels of
          [] \<Rightarrow> []
        | SNode sub # vs \<Rightarrow>
            [(name, SNode (merge_nodes (subtrees (SNode sub # vs)) (path @ [name])))]
        | SLeaf LNone # _ \<Rightarrow> if omits_present_none (path @ [name]) then [] else [(name, SLeaf LNone)]
        | SLeaf l # _ \<Rightarrow> [(name, SLeaf l)]))
       (names_in_order levels))"
  by pat_completeness auto
termination
proof (relation "measure (\<lambda>(levels, _). sum_list (map weight levels))", goal_cases)
  case (2 levels path name v vs sub)
  then show ?case using weight_subtrees [of name levels] by auto
qed simp

declare merge_nodes.simps [simp del]

definition merge :: "keystore list \<Rightarrow> keystore" where
  "merge levels = merge_nodes levels []"

section \<open>Lemmas\<close>

lemma fold_names:
  "set (fold (\<lambda>name seen. if name \<in> set seen then seen else seen @ [name]) xs seen) = set seen \<union> set xs"
  "distinct seen \<Longrightarrow>
   distinct (fold (\<lambda>name seen. if name \<in> set seen then seen else seen @ [name]) xs seen)"
  by (induction xs arbitrary: seen) auto

lemma fold_names_distinct:
  "distinct (seen @ xs) \<Longrightarrow>
   fold (\<lambda>name seen. if name \<in> set seen then seen else seen @ [name]) xs seen = seen @ xs"
  by (induction xs arbitrary: seen) auto

lemma set_names_in_order: "set (names_in_order ls) = \<Union> (set ` dict_keys ` set ls)"
  by (simp add: names_in_order_def fold_names)

lemma distinct_names_in_order: "distinct (names_in_order ls)"
  by (simp add: names_in_order_def fold_names)

lemma names_in_order_single: "distinct (dict_keys ks) \<Longrightarrow> names_in_order [ks] = dict_keys ks"
  by (simp add: names_in_order_def fold_names_distinct)

lemma setters_Nil: "setters n ls = [] \<longleftrightarrow> n \<notin> set (names_in_order ls)"
  by (induction ls)
     (auto simp: set_names_in_order map_of_eq_None_iff dest!: map_of_SomeD split: option.splits,
      force)

text \<open>What one name contributes to the merged node.\<close>

definition merged_entry :: "keystore list \<Rightarrow> pystr list \<Rightarrow> pystr \<Rightarrow> store_value option" where
  "merged_entry ls path name =
     (case setters name ls of
        [] \<Rightarrow> None
      | SNode sub # vs \<Rightarrow> Some (SNode (merge_nodes (subtrees (setters name ls)) (path @ [name])))
      | SLeaf LNone # _ \<Rightarrow> if omits_present_none (path @ [name]) then None else Some (SLeaf LNone)
      | SLeaf l # _ \<Rightarrow> Some (SLeaf l))"

lemma merge_nodes_entries:
  "merge_nodes ls path =
   concat (map (\<lambda>name. case merged_entry ls path name of None \<Rightarrow> [] | Some v \<Rightarrow> [(name, v)])
     (names_in_order ls))"
  unfolding merged_entry_def
  by (subst merge_nodes.simps, intro arg_cong [where f = concat] map_cong refl)
     (auto split: list.splits store_value.splits leaf.splits)

lemma map_of_optional_entries:
  "map_of (concat (map (\<lambda>k. case f k of None \<Rightarrow> [] | Some v \<Rightarrow> [(k, v)]) ks)) k =
   (if k \<in> set ks then f k else None)"
  by (induction ks) (auto split: option.splits)

lemma keys_optional_entries:
  "map fst (concat (map (\<lambda>k. case f k of None \<Rightarrow> [] | Some v \<Rightarrow> [(k, v)]) ks)) =
   filter (\<lambda>k. f k \<noteq> None) ks"
  by (induction ks) (auto split: option.splits)

lemma map_of_merge_nodes: "map_of (merge_nodes ls path) name = merged_entry ls path name"
proof (cases "name \<in> set (names_in_order ls)")
  case False
  then have "setters name ls = []" by (simp add: setters_Nil)
  with False show ?thesis
    by (simp add: merge_nodes_entries map_of_optional_entries) (simp add: merged_entry_def)
qed (simp add: merge_nodes_entries map_of_optional_entries)

lemma distinct_merge_nodes: "distinct (dict_keys (merge_nodes ls path))"
  unfolding merge_nodes_entries keys_optional_entries by (simp add: distinct_names_in_order)

text \<open>
  A level blocks a path when it sets the whole path, or puts a leaf where the path goes on: no
  less specific level can then be seen at it.
\<close>

fun blocks :: "keystore \<Rightarrow> pystr list \<Rightarrow> bool" where
  "blocks ks [] = True"
| "blocks ks [n] = (map_of ks n \<noteq> None)"
| "blocks ks (n # m # r) =
     (case map_of ks n of None \<Rightarrow> False | Some (SLeaf _) \<Rightarrow> True | Some (SNode sub) \<Rightarrow> blocks sub (m # r))"

lemma setters_append: "setters n (xs @ ys) = setters n xs @ setters n ys"
  by (induction xs) (auto split: option.splits)

lemma subtrees_append: "subtrees (vs @ ws) = subtrees vs @ subtrees ws"
  by (induction vs rule: subtrees.induct) auto

lemma set_setters: "v \<in> set (setters n ls) \<longleftrightarrow> (\<exists>l \<in> set ls. map_of l n = Some v)"
  by (induction ls) (auto split: option.splits)

lemma set_subtrees: "s \<in> set (subtrees vs) \<longleftrightarrow> SNode s \<in> set vs"
  by (induction vs rule: subtrees.induct) auto

lemma lookup_Cons2:
  "q \<noteq> [] \<Longrightarrow> ks_lookup ks (n # q) =
     (case map_of ks n of Some (SNode sub) \<Rightarrow> ks_lookup sub q | _ \<Rightarrow> None)"
  by (cases q) auto

lemma merge_nodes_lookup_Cons2:
  assumes "setters n ls \<noteq> []" "\<exists>s. hd (setters n ls) = SNode s" "q \<noteq> []"
  shows "ks_lookup (merge_nodes ls path) (n # q) =
    ks_lookup (merge_nodes (subtrees (setters n ls)) (path @ [n])) q"
  using assms by (cases "setters n ls") (auto simp: lookup_Cons2 map_of_merge_nodes merged_entry_def)

lemma merge_nodes_most_specific:
  assumes "q \<noteq> []" "ks_lookup lvl q = Some (SLeaf l)" "\<forall>x \<in> set pre. \<not> blocks x q"
    and "\<not> (l = LNone \<and> omits_present_none (path @ q))"
  shows "ks_lookup (merge_nodes (pre @ lvl # post) path) q = Some (SLeaf l)"
  using assms
proof (induction q arbitrary: pre lvl post path)
  case (Cons n q)
  show ?case
  proof (cases q)
    case Nil
    with Cons.prems have "setters n pre = []"
      using set_setters [of _ n pre] by (cases "setters n pre") auto
    with Nil Cons.prems show ?thesis
      by (auto simp: map_of_merge_nodes merged_entry_def setters_append split: leaf.splits)
  next
    case (Cons m r)
    from Cons.prems(2) Cons obtain sub where sub: "map_of lvl n = Some (SNode sub)"
      "ks_lookup sub q = Some (SLeaf l)"
      by (auto split: option.splits store_value.splits)
    have nodes: "\<exists>s. v = SNode s \<and> \<not> blocks s q" if "v \<in> set (setters n pre)" for v
    proof -
      from that obtain x where "x \<in> set pre" "map_of x n = Some v" by (auto simp: set_setters)
      with Cons.prems(3) Cons show ?thesis by (cases v) fastforce+
    qed
    define pre' where "pre' = subtrees (setters n pre)"
    have "\<forall>x \<in> set pre'. \<not> blocks x q"
      using nodes by (fastforce simp: pre'_def set_subtrees)
    with Cons.IH [of sub pre' "path @ [n]" "subtrees (setters n post)"] Cons sub Cons.prems(4)
    have "ks_lookup (merge_nodes (pre' @ sub # subtrees (setters n post)) (path @ [n])) q
        = Some (SLeaf l)" by simp
    moreover have "subtrees (setters n (pre @ lvl # post)) = pre' @ sub # subtrees (setters n post)"
      using sub by (simp add: setters_append subtrees_append pre'_def)
    moreover have "\<exists>s. hd (setters n (pre @ lvl # post)) = SNode s"
      using nodes sub by (cases "setters n pre") (auto simp: setters_append)
    moreover have "setters n (pre @ lvl # post) \<noteq> []" "q \<noteq> []"
      using sub Cons by (auto simp: setters_append)
    ultimately show ?thesis by (metis merge_nodes_lookup_Cons2)
  qed
qed simp

lemma subtrees_split:
  "subtrees (setters n ls) = pre' @ sub # post' \<Longrightarrow>
   \<exists>pre lvl post. ls = pre @ lvl # post \<and> map_of lvl n = Some (SNode sub) \<and>
     subtrees (setters n pre) = pre'"
proof (induction ls arbitrary: pre')
  case (Cons l ls)
  show ?case
  proof (cases "\<exists>s. map_of l n = Some (SNode s)")
    case True
    then obtain s where s: "map_of l n = Some (SNode s)" by blast
    show ?thesis
    proof (cases pre')
      case Nil
      with Cons.prems s show ?thesis by (intro exI [of _ "[]"] exI [of _ l] exI [of _ ls]) auto
    next
      case (Cons a pre'')
      with Cons.prems s have "subtrees (setters n ls) = pre'' @ sub # post'" "a = s" by auto
      from Cons.IH [OF this(1)] obtain pre lvl post where "ls = pre @ lvl # post"
        "map_of lvl n = Some (SNode sub)" "subtrees (setters n pre) = pre''" by blast
      with s \<open>a = s\<close> Cons show ?thesis
        by (intro exI [of _ "l # pre"] exI [of _ lvl] exI [of _ post]) auto
    qed
  next
    case False
    then have skip: "subtrees (setters n (l # xs)) = subtrees (setters n xs)" for xs
      unfolding subtrees_setters_Cons by (auto split: option.splits store_value.splits)
    with Cons.prems Cons.IH obtain pre lvl post where "ls = pre @ lvl # post"
      "map_of lvl n = Some (SNode sub)" "subtrees (setters n pre) = pre'" by metis
    with skip show ?thesis by (intro exI [of _ "l # pre"] exI [of _ lvl] exI [of _ post]) auto
  qed
qed simp

lemma setters_split:
  "setters n ls = v # vs \<Longrightarrow>
   \<exists>pre lvl post. ls = pre @ lvl # post \<and> map_of lvl n = Some v \<and> (\<forall>x \<in> set pre. map_of x n = None)"
proof (induction ls)
  case (Cons l ls)
  show ?case
  proof (cases "map_of l n")
    case None
    with Cons obtain pre lvl post where "ls = pre @ lvl # post" "map_of lvl n = Some v"
      "\<forall>x \<in> set pre. map_of x n = None" by auto
    with None show ?thesis by (intro exI [of _ "l # pre"] exI [of _ lvl] exI [of _ post]) auto
  next
    case (Some w)
    with Cons.prems show ?thesis by (intro exI [of _ "[]"] exI [of _ l] exI [of _ ls]) auto
  qed
qed simp

lemma merge_nodes_no_invention:
  "q \<noteq> [] \<Longrightarrow> ks_lookup (merge_nodes ls path) q = Some (SLeaf l) \<Longrightarrow>
   \<not> (l = LNone \<and> omits_present_none (path @ q)) \<and>
   (\<exists>pre lvl post. ls = pre @ lvl # post \<and> ks_lookup lvl q = Some (SLeaf l) \<and>
     (\<forall>x \<in> set pre. ks_lookup x q = None))"
proof (induction q arbitrary: ls path)
  case (Cons n q)
  show ?case
  proof (cases q)
    case Nil
    with Cons.prems(2) obtain vs where vs: "setters n ls = SLeaf l # vs"
      and "\<not> (l = LNone \<and> omits_present_none (path @ [n]))"
      by (auto simp: map_of_merge_nodes merged_entry_def split: list.splits store_value.splits
            leaf.splits if_splits)
    with setters_split [OF vs] Nil show ?thesis by simp
  next
    case (Cons m r)
    with Cons.prems(2) have
      "\<exists>s vs. setters n ls = SNode s # vs"
      by (auto simp: map_of_merge_nodes merged_entry_def split: list.splits store_value.splits
            leaf.splits if_splits)
    with Cons Cons.prems(2)
    have "ks_lookup (merge_nodes (subtrees (setters n ls)) (path @ [n])) q = Some (SLeaf l)"
      by (auto simp: map_of_merge_nodes merged_entry_def)
    from Cons.IH [OF _ this] Cons obtain pre' sub post'
      where sp: "subtrees (setters n ls) = pre' @ sub # post'" "ks_lookup sub q = Some (SLeaf l)"
        "\<forall>x \<in> set pre'. ks_lookup x q = None" "\<not> (l = LNone \<and> omits_present_none (path @ n # q))"
      by auto
    from subtrees_split [OF sp(1)] obtain pre lvl post where ls: "ls = pre @ lvl # post"
      "map_of lvl n = Some (SNode sub)" "subtrees (setters n pre) = pre'" by blast
    have "ks_lookup x (n # q) = None" if "x \<in> set pre" for x
    proof (cases "map_of x n")
      case (Some v)
      with that have "v \<in> set (setters n pre)" by (auto simp: set_setters)
      with sp(3) ls(3) Some Cons show ?thesis
        by (cases v) (auto simp: set_subtrees lookup_Cons2)
    qed (simp add: Cons)
    moreover have "ks_lookup lvl (n # q) = Some (SLeaf l)"
      using ls(2) sp(2) Cons by simp
    ultimately show ?thesis using ls(1) sp(4) by blast
  qed
qed simp

lemma merge_nodes_single:
  assumes d: "distinct (dict_keys ks)"
    and e: "\<And>n. n \<in> set (dict_keys ks) \<Longrightarrow> merged_entry [ks] path n = map_of ks n"
  shows "merge_nodes [ks] path = ks"
proof -
  have "concat (map (\<lambda>n. case merged_entry [ks] path n of None \<Rightarrow> [] | Some v \<Rightarrow> [(n, v)]) (dict_keys ks))
      = concat (map (\<lambda>n. case map_of ks n of None \<Rightarrow> [] | Some v \<Rightarrow> [(n, v)]) (dict_keys ks))"
    by (intro arg_cong [where f = concat] map_cong refl) (simp add: e)
  also have "\<dots> = ks"
    using d
  proof (induction ks)
    case (Cons kv ks)
    obtain k v where kv: "kv = (k, v)" by (cases kv)
    have "concat (map (\<lambda>n. case map_of (kv # ks) n of None \<Rightarrow> [] | Some v \<Rightarrow> [(n, v)]) (dict_keys ks))
        = concat (map (\<lambda>n. case map_of ks n of None \<Rightarrow> [] | Some v \<Rightarrow> [(n, v)]) (dict_keys ks))"
      using Cons.prems by (intro arg_cong [where f = concat] map_cong refl) (auto simp: kv)
    with Cons show ?case by (simp add: kv)
  qed simp
  finally show ?thesis unfolding merge_nodes_entries [of "[ks]"] by (simp add: names_in_order_single [OF d])
qed

lemma merge_nodes_idem: "merge_nodes [merge_nodes ls path] path = merge_nodes ls path"
proof (induction ls path rule: merge_nodes.induct)
  case (1 ls path)
  show ?case
  proof (rule merge_nodes_single [OF distinct_merge_nodes])
    fix n
    show "merged_entry [merge_nodes ls path] path n = map_of (merge_nodes ls path) n"
    proof (cases "\<exists>s vs. setters n ls = SNode s # vs")
      case True
      then obtain s vs where s: "setters n ls = SNode s # vs" by blast
      then have "n \<in> set (names_in_order ls)" using setters_Nil [of n ls] by auto
      from "1.IH" [OF this s refl] s show ?thesis
        by (simp add: map_of_merge_nodes merged_entry_def)
    next
      case False
      then show ?thesis
        by (cases "setters n ls"; cases "hd (setters n ls)")
           (auto simp: map_of_merge_nodes merged_entry_def split: leaf.splits)
    qed
  qed
qed

text \<open>Writing at a path.\<close>

lemma lookup_dict_set:
  "ks_lookup (dict_set n v ks) (m # q) =
     (if m \<noteq> n then ks_lookup ks (m # q)
      else if q = [] then Some v
      else (case v of SNode sub \<Rightarrow> ks_lookup sub q | SLeaf _ \<Rightarrow> None))"
  by (cases q) auto

lemma insert_segments_spec:
  "insert_segments ks segs v = (None, ks') \<Longrightarrow>
   ks_lookup ks' segs = Some v \<and>
   (\<forall>q. \<not> prefix segs q \<longrightarrow> \<not> prefix q segs \<longrightarrow> ks_lookup ks' q = ks_lookup ks q)"
proof (induction ks segs v arbitrary: ks' rule: insert_segments.induct)
  case (2 ks seg v)
  then have ks': "ks' = dict_set seg v ks"
    by (auto simp: set_item_def check_key_name_def bindE_def split: sum.splits if_splits)
  show ?case
  proof (intro conjI allI impI)
    fix q assume "\<not> prefix [seg] q" "\<not> prefix q [seg]"
    then show "ks_lookup ks' q = ks_lookup ks q"
      by (cases q) (auto simp: ks' lookup_dict_set)
  qed (simp add: ks')
next
  case (3 ks seg seg' rest v)
  have step: "ks_lookup ks' (seg # seg' # rest) = Some v \<and>
      (\<forall>q. \<not> prefix (seg # seg' # rest) q \<longrightarrow> \<not> prefix q (seg # seg' # rest) \<longrightarrow>
         ks_lookup ks' q = ks_lookup ks q)"
    if base: "\<And>q. q \<noteq> [] \<Longrightarrow> ks_lookup base q =
          (case map_of ks seg of Some (SNode sub) \<Rightarrow> ks_lookup sub q | _ \<Rightarrow> None)"
      and c: "ks_lookup c (seg' # rest) = Some v \<and>
        (\<forall>q. \<not> prefix (seg' # rest) q \<longrightarrow> \<not> prefix q (seg' # rest) \<longrightarrow> ks_lookup c q = ks_lookup base q)"
      and ks': "ks' = dict_set seg (SNode c) ks" for base c
  proof (intro conjI allI impI)
    fix q assume *: "\<not> prefix (seg # seg' # rest) q" "\<not> prefix q (seg # seg' # rest)"
    then obtain m q' where q: "q = m # q'" by (cases q) auto
    show "ks_lookup ks' q = ks_lookup ks q"
    proof (cases "m = seg")
      case True
      with * q c have "ks_lookup c q' = ks_lookup base q'" "q' \<noteq> []" by auto
      with True q ks' base show ?thesis by (simp add: lookup_dict_set lookup_Cons2)
    qed (simp add: q ks' lookup_dict_set)
  qed (use c ks' in \<open>simp add: lookup_dict_set\<close>)
  show ?case
  proof (cases "\<exists>child. map_of ks seg = Some (SNode child)")
    case True
    then obtain child where ch: "map_of ks seg = Some (SNode child)" by blast
    with "3.prems" obtain c where c: "insert_segments child (seg' # rest) v = (None, c)"
      "ks' = dict_set seg (SNode c) ks" by (auto split: prod.splits)
    have "ks_lookup c (seg' # rest) = Some v \<and> (\<forall>q. \<not> prefix (seg' # rest) q \<longrightarrow>
        \<not> prefix q (seg' # rest) \<longrightarrow> ks_lookup c q = ks_lookup child q)"
      using "3.IH" ch c(1) by simp
    from step [OF _ this c(2)] ch show ?thesis by simp
  next
    case False
    with "3.prems" obtain k c where c: "check_key_name seg = Inr k"
      "insert_segments [] (seg' # rest) v = (None, c)" "ks' = dict_set seg (SNode c) ks"
      by (auto split: option.splits store_value.splits sum.splits prod.splits)
    have empty: "q \<noteq> [] \<Longrightarrow> ks_lookup [] q = None" for q
      by (cases q; cases "tl q") auto
    have "ks_lookup c (seg' # rest) = Some v \<and> (\<forall>q. \<not> prefix (seg' # rest) q \<longrightarrow>
        \<not> prefix q (seg' # rest) \<longrightarrow> ks_lookup c q = ks_lookup [] q)"
    proof (cases "map_of ks seg")
      case None
      with c "3.IH" show ?thesis by simp
    next
      case (Some a)
      with False c "3.IH" show ?thesis by (cases a) simp_all
    qed
    from step [OF _ this c(3)] empty False show ?thesis
      by (auto split: option.splits store_value.splits)
  qed
qed simp

lemma clone_store_id: "clone_store ks = ks"
proof (induction ks rule: clone_store.induct)
  case (1 ks)
  have "map (\<lambda>(k, v). (k, case v of SNode sub \<Rightarrow> SNode (clone_store sub) | SLeaf l \<Rightarrow> SLeaf l)) ks
      = map (\<lambda>x. x) ks"
    using "1.IH" by (intro map_cong refl) (force split: store_value.splits)
  then show ?case by simp
qed

section \<open>The cascade properties\<close>

text \<open>
  C36. The most specific setter wins: a leaf a level sets at a path is the merged value there,
  whatever the less specific levels hold, when no more specific level sets the path or puts a
  leaf above it, unless it is a present \<open>None\<close> at a category key, which the merge leaves out.
\<close>

theorem merge_most_specific_wins:
  assumes "ks_lookup lvl q = Some (SLeaf l)" "\<forall>x \<in> set pre. \<not> blocks x q"
    and "\<not> (l = LNone \<and> omits_present_none q)"
  shows "ks_lookup (merge (pre @ lvl # post)) q = Some (SLeaf l)"
proof -
  from assms(1) have "q \<noteq> []" by auto
  from merge_nodes_most_specific [OF this assms(1,2), of "[]" post] assms(3)
  show ?thesis by (simp add: merge_def)
qed

definition sample_box :: keystore where
  "sample_box = [(u ''agent'', SNode [(u ''mode'', SLeaf LNone)])]"

definition sample_system :: keystore where
  "sample_system = [(u ''agent'', SNode [(u ''mode'', SLeaf (LStr (u ''ask''))),
     (u ''model'', SLeaf (LStr (u ''opus'')))])]"

lemma merge_most_specific_wins_witness:
  "ks_lookup (merge ([sample_box] @ sample_system # [])) [u ''agent'', u ''model'']
     = Some (SLeaf (LStr (u ''opus'')))"
  by (rule merge_most_specific_wins) (simp_all add: sample_box_def sample_system_def u_def)

text \<open>
  C37. The merge invents nothing: a leaf of the merged store is held at that very path by one of
  the levels, every more specific level is silent about the path, and a \<open>None\<close> survives only
  outside the category keys.
\<close>

theorem merge_no_invention:
  assumes "ks_lookup (merge ls) q = Some (SLeaf l)"
  shows "\<not> (l = LNone \<and> omits_present_none q) \<and>
    (\<exists>pre lvl post. ls = pre @ lvl # post \<and> ks_lookup lvl q = Some (SLeaf l) \<and>
      (\<forall>x \<in> set pre. ks_lookup x q = None))"
proof -
  from assms have "q \<noteq> []" by auto
  from merge_nodes_no_invention [OF this] assms show ?thesis by (simp add: merge_def) force
qed

lemma merge_no_invention_witness:
  "\<exists>pre lvl post. [sample_box, sample_system] = pre @ lvl # post \<and>
     ks_lookup lvl [u ''agent'', u ''mode''] = Some (SLeaf LNone)"
proof -
  have "ks_lookup (merge [sample_box, sample_system]) [u ''agent'', u ''mode''] = Some (SLeaf LNone)"
    by code_simp
  from merge_no_invention [OF this] show ?thesis by blast
qed

text \<open>Merging is idempotent: a merged store is its own merge, key order included.\<close>

theorem merge_idempotent: "merge [merge ls] = merge ls"
  by (simp add: merge_def merge_nodes_idem)

text \<open>
  A write through \<open>insert_segments\<close> that is not refused is read back at its path, and every
  path that is neither above nor below it keeps its value.
\<close>

theorem insert_segments_frame:
  assumes "insert_segments ks segs v = (None, ks')"
  shows "ks_lookup ks' segs = Some v \<and>
    (\<forall>q. \<not> prefix segs q \<longrightarrow> \<not> prefix q segs \<longrightarrow> ks_lookup ks' q = ks_lookup ks q)"
  by (rule insert_segments_spec [OF assms])

lemma insert_segments_frame_witness:
  "ks_lookup (snd (insert_segments sample_system [u ''agent'', u ''mode''] (SLeaf (LBool True))))
     [u ''agent'', u ''model''] = Some (SLeaf (LStr (u ''opus'')))"
proof -
  have e: "insert_segments sample_system [u ''agent'', u ''mode''] (SLeaf (LBool True)) =
    (None, [(u ''agent'', SNode [(u ''mode'', SLeaf (LBool True)),
      (u ''model'', SLeaf (LStr (u ''opus'')))])])" by code_simp
  show ?thesis
    unfolding e snd_conv
    using insert_segments_frame [OF e] by (simp add: sample_system_def u_def)
qed

end
