(* ===== verification/Paths.thy ===== *)
theory Paths imports Prelude begin

text \<open>
  Guest paths: the canonical form of a bind destination
  (\<open>src/kanibako/settings/settings_resolve.py: normalize_bind_dest\<close>), and the two questions the
  collapse asks of one, how deep it is and whether it lies at or inside another
  (\<open>settings/store_collapse.py: _segments, is_within\<close>,
  \<open>settings/settings_categories.py: path_depth\<close>). \<open>posixpath.normpath\<close> and the parts of a
  \<open>PurePosixPath\<close> are written out from the standard library. The locale \<open>containment\<close> states
  what the fold of the bind map needs of "at or inside"; guest paths are its interpretation.
\<close>

text \<open>The code points of \<open>/\<close> and of an opening brace.\<close>

abbreviation slash :: nat where "slash \<equiv> 47"
abbreviation open_brace :: nat where "open_brace \<equiv> 123"

definition GUEST_HOME :: pystr where "GUEST_HOME = u ''/home/agent''"

definition rstrip_slash :: "pystr \<Rightarrow> pystr" where
  "rstrip_slash = rstrip_by (\<lambda>c. c = slash)"

section \<open>The standard library\<close>

text \<open>One component of the loop of \<open>posixpath.normpath\<close>.\<close>

definition norm_step :: "bool \<Rightarrow> pystr list \<Rightarrow> pystr \<Rightarrow> pystr list" where
  "norm_step rooted comps part =
     (if part = [] \<or> part = u ''.'' then comps
      else if part \<noteq> u ''..'' \<or> \<not> rooted \<and> comps = [] \<or> comps \<noteq> [] \<and> last comps = u ''..''
      then comps @ [part]
      else butlast comps)"

definition initial_slashes :: "pystr \<Rightarrow> nat" where
  "initial_slashes p =
     (if \<not> prefix (u ''/'') p then 0
      else if prefix (u ''//'') p \<and> \<not> prefix (u ''///'') p then 2 else 1)"

definition normpath :: "pystr \<Rightarrow> pystr" where
  "normpath p =
     (if p = [] then u ''.''
      else (let n = initial_slashes p;
                comps = foldl (norm_step (n > 0)) [] (split_char slash p);
                path = replicate n slash @ join_char slash comps
            in if path = [] then u ''.'' else path))"

text \<open>\<open>len(PurePosixPath(p).parts)\<close>: the root counts one, empty and \<open>.\<close> components none.\<close>

definition parts_count :: "pystr \<Rightarrow> nat" where
  "parts_count p = (if prefix (u ''/'') p then 1 else 0)
     + length (filter (\<lambda>c. c \<noteq> [] \<and> c \<noteq> u ''.'') (split_char slash p))"

section \<open>Destinations\<close>

definition expand_tilde :: "pystr \<Rightarrow> pystr" where
  "expand_tilde dest = (if prefix (u ''~/'') dest then GUEST_HOME @ tl dest else dest)"

definition drop_trailing :: "pystr \<Rightarrow> pystr" where
  "drop_trailing out =
     (if 1 < length out \<and> last out = slash
      then (if rstrip_slash out = [] then u ''/'' else rstrip_slash out) else out)"

definition normalize_bind_dest :: "pystr \<Rightarrow> pystr" where
  "normalize_bind_dest dest =
     (if dest = u ''~'' then GUEST_HOME
      else (let out = drop_trailing (expand_tilde dest)
            in if open_brace \<in> set out then out
               else if prefix (u ''/'') out
               then (let p = normpath out in if prefix (u ''//'') p then tl p else p)
               else out))"

definition path_segments :: "pystr \<Rightarrow> nat" where
  "path_segments dest = parts_count dest"

definition is_within :: "pystr \<Rightarrow> pystr \<Rightarrow> bool" where
  "is_within dest root \<longleftrightarrow> dest = root \<or> prefix (rstrip_slash root @ [slash]) dest"

definition path_depth :: "pystr \<Rightarrow> nat" where
  "path_depth box_dest =
     length (filter (\<lambda>c. c \<noteq> [])
       (split_char slash (rstrip_slash (dropWhile (\<lambda>c. c = slash) box_dest))))"

section \<open>Canonical absolute paths\<close>

text \<open>A clean component is what a resolved path holds between two slashes.\<close>

definition clean :: "pystr list \<Rightarrow> bool" where
  "clean cs \<longleftrightarrow> (\<forall>c \<in> set cs. c \<noteq> [] \<and> c \<noteq> u ''.'' \<and> c \<noteq> u ''..'' \<and> slash \<notin> set c)"

definition path_str :: "pystr list \<Rightarrow> pystr" where
  "path_str cs = concat (map (\<lambda>c. slash # c) cs)"

text \<open>The absolute path with the given components.\<close>

definition abs_path :: "pystr list \<Rightarrow> pystr" where
  "abs_path cs = (if cs = [] then u ''/'' else path_str cs)"

lemma path_str_simps [simp]:
  "path_str [] = []"
  "path_str (c # cs) = slash # c @ path_str cs"
  "path_str (cs @ ds) = path_str cs @ path_str ds"
  by (simp_all add: path_str_def)

lemma join_path_str: "cs \<noteq> [] \<Longrightarrow> slash # join_char slash cs = path_str cs"
  by (induction "slash" cs rule: join_char.induct) auto

lemma abs_path_join: "abs_path cs = slash # join_char slash cs"
  using join_path_str [of cs] by (auto simp: abs_path_def u_def)

lemma clean_append [simp]: "clean (cs @ ds) \<longleftrightarrow> clean cs \<and> clean ds"
  by (auto simp: clean_def)

lemma clean_Nil [simp]: "clean []"
  by (simp add: clean_def)

lemma clean_Cons: "clean (c # cs) \<longleftrightarrow>
  c \<noteq> [] \<and> c \<noteq> u ''.'' \<and> c \<noteq> u ''..'' \<and> slash \<notin> set c \<and> clean cs"
  by (auto simp: clean_def)

lemma clean_butlast: "clean cs \<Longrightarrow> clean (butlast cs)"
  by (auto simp: clean_def dest: in_set_butlastD)

lemma split_abs_path:
  "clean cs \<Longrightarrow> split_char slash (abs_path cs) = [] # (if cs = [] then [[]] else cs)"
  by (auto simp: abs_path_join split_join_char clean_def)

lemma norm_step_clean: "clean cs \<Longrightarrow> slash \<notin> set c \<Longrightarrow> clean (norm_step True cs c)"
  by (auto simp: norm_step_def clean_butlast clean_Cons) (auto simp: clean_def)

lemma foldl_norm_clean:
  "clean cs \<Longrightarrow> (\<And>c. c \<in> set xs \<Longrightarrow> slash \<notin> set c) \<Longrightarrow> clean (foldl (norm_step True) cs xs)"
  by (induction xs arbitrary: cs) (auto simp: norm_step_clean)

lemma foldl_norm_id: "clean (cs @ ds) \<Longrightarrow> foldl (norm_step True) cs ds = cs @ ds"
proof (induction ds arbitrary: cs)
  case (Cons d ds)
  then have "norm_step True cs d = cs @ [d]" by (simp add: norm_step_def clean_Cons)
  with Cons show ?case by (simp add: clean_Cons)
qed simp

lemma clean_join_head: "clean cs \<Longrightarrow> join_char slash cs = x # xs \<Longrightarrow> x \<noteq> slash"
proof (induction "slash" cs rule: join_char.induct)
  case (2 p)
  then show ?case by (auto simp: clean_Cons)
next
  case (3 p q ps)
  then show ?case by (cases p) (auto simp: clean_Cons)
qed simp

lemma split_char_parts: "p \<in> set (split_char c s) \<Longrightarrow> c \<notin> set p"
  by (induction s arbitrary: p) (auto split: list.splits if_splits)

lemma normpath_abs_path: "clean cs \<Longrightarrow> normpath (abs_path cs) = abs_path cs"
proof -
  assume c: "clean cs"
  have n: "initial_slashes (abs_path cs) = 1"
    using clean_join_head [OF c]
    by (cases "join_char slash cs") (auto simp: abs_path_join initial_slashes_def u_def)
  have "foldl (norm_step True) [] (split_char slash (abs_path cs)) = cs"
    using c by (simp add: split_abs_path norm_step_def foldl_norm_id)
  with n show ?thesis by (simp add: normpath_def Let_def) (simp add: abs_path_join)
qed

lemma normpath_absolute:
  assumes "prefix (u ''/'') p"
  shows "\<exists>cs. clean cs \<and> (if prefix (u ''//'') (normpath p) then tl (normpath p) else normpath p)
    = abs_path cs"
proof -
  define cs where "cs = foldl (norm_step True) [] (split_char slash p)"
  have c: "clean cs"
    unfolding cs_def by (rule foldl_norm_clean) (auto dest: split_char_parts)
  have n: "initial_slashes p = 1 \<or> initial_slashes p = 2" and "p \<noteq> []"
    using assms by (auto simp: initial_slashes_def u_def)
  then have e: "normpath p = replicate (initial_slashes p) slash @ join_char slash cs"
    by (auto simp: normpath_def Let_def cs_def)
  have h: "\<not> prefix [slash] (join_char slash cs)"
    using clean_join_head [OF c] by (auto simp: prefix_def)
  show ?thesis
    using n h c by (intro exI [of _ cs]) (auto simp: e u_def abs_path_join eval_nat_numeral)
qed

section \<open>The canonical form\<close>

text \<open>What \<open>normalize_bind_dest\<close> leaves alone.\<close>

definition canonical_dest :: "pystr \<Rightarrow> bool" where
  "canonical_dest p \<longleftrightarrow>
     (open_brace \<in> set p \<or> \<not> prefix (u ''/'') p) \<and> p \<noteq> u ''~'' \<and> \<not> prefix (u ''~/'') p \<and>
       \<not> (1 < length p \<and> last p = slash)
     \<or> open_brace \<notin> set p \<and> (\<exists>cs. clean cs \<and> p = abs_path cs)"

lemma rstrip_slash_snoc:
  "rstrip_slash (p @ [c]) = (if c = slash then rstrip_slash p else p @ [c])"
  "rstrip_slash [] = []"
  by (simp_all add: rstrip_slash_def rstrip_by_def)

lemma rstrip_slash_last: "rstrip_slash p = [] \<or> last (rstrip_slash p) \<noteq> slash"
  by (induction p rule: rev_induct) (auto simp: rstrip_slash_snoc)

lemma rstrip_slash_decompose: "\<exists>k. p = rstrip_slash p @ replicate k slash"
proof (induction p rule: rev_induct)
  case (snoc c p)
  then obtain k where k: "p = rstrip_slash p @ replicate k slash" by blast
  show ?case
  proof (cases "c = slash")
    case True
    have "p @ [c] = rstrip_slash p @ replicate (Suc k) slash"
      by (subst k) (simp add: True replicate_append_same)
    with True show ?thesis by (metis rstrip_slash_snoc(1))
  qed (simp add: rstrip_slash_snoc exI [of _ 0])
qed (simp add: rstrip_slash_snoc)

lemma rstrip_slash_prefix: "prefix (rstrip_slash p) p"
  using rstrip_slash_decompose [of p] by (auto simp: prefix_def)

lemma expand_tilde_no_tilde:
  "dest \<noteq> u ''~'' \<Longrightarrow> expand_tilde dest \<noteq> u ''~'' \<and> \<not> prefix (u ''~/'') (expand_tilde dest)"
  by (auto simp: expand_tilde_def GUEST_HOME_def u_def)

lemma drop_trailing_last: "\<not> (1 < length (drop_trailing p) \<and> last (drop_trailing p) = slash)"
  using rstrip_slash_last [of p] by (auto simp: drop_trailing_def u_def)

lemma drop_trailing_no_tilde:
  assumes "p \<noteq> u ''~''" "\<not> prefix (u ''~/'') p"
  shows "drop_trailing p \<noteq> u ''~'' \<and> \<not> prefix (u ''~/'') (drop_trailing p)"
proof (cases "1 < length p \<and> last p = slash \<and> rstrip_slash p \<noteq> []")
  case True
  obtain k where k: "p = rstrip_slash p @ replicate k slash" using rstrip_slash_decompose by blast
  have "rstrip_slash p \<noteq> u ''~''"
    using k True assms by (cases k) (auto simp: u_def)
  moreover have "\<not> prefix (u ''~/'') (rstrip_slash p)"
    using assms(2) rstrip_slash_prefix prefix_order.trans by blast
  ultimately show ?thesis using True by (simp add: drop_trailing_def)
next
  case False
  with assms show ?thesis by (auto simp: drop_trailing_def u_def)
qed

lemma abs_path_last:
  assumes "clean cs" shows "\<not> (1 < length (abs_path cs) \<and> last (abs_path cs) = slash)"
proof (cases cs rule: rev_cases)
  case (snoc ds c)
  with assms have "c \<noteq> []" "slash \<notin> set c" by (auto simp: clean_Cons)
  then have "last c \<noteq> slash" by (metis last_in_set)
  with snoc \<open>c \<noteq> []\<close> show ?thesis by (simp add: abs_path_def)
qed (simp add: abs_path_def u_def)

lemma normalize_canonical:
  assumes "canonical_dest p" shows "normalize_bind_dest p = p"
proof (cases "open_brace \<notin> set p \<and> (\<exists>cs. clean cs \<and> p = abs_path cs)")
  case True
  then obtain cs where cs: "clean cs" "p = abs_path cs" "open_brace \<notin> set p" by blast
  then obtain r where r: "p = slash # r" by (auto simp: abs_path_join)
  have "\<not> prefix (u ''//'') p"
    using clean_join_head [OF cs(1)] cs(2) by (auto simp: abs_path_join u_def prefix_def)
  moreover have "expand_tilde p = p" "p \<noteq> u ''~''" by (simp_all add: expand_tilde_def r u_def)
  moreover have "drop_trailing p = p" using abs_path_last [OF cs(1)] cs(2) by (auto simp: drop_trailing_def)
  moreover have "normpath p = p" using normpath_abs_path [OF cs(1)] cs(2) by simp
  ultimately show ?thesis using cs(3) by (simp add: normalize_bind_dest_def Let_def)
next
  case False
  with assms show ?thesis
    by (auto simp: normalize_bind_dest_def canonical_dest_def Let_def expand_tilde_def drop_trailing_def)
qed

lemma normpath_chars:
  "open_brace \<notin> set p \<Longrightarrow> open_brace \<notin> set (normpath p)"
proof -
  assume p: "open_brace \<notin> set p"
  have parts: "c \<in> set (split_char slash p) \<Longrightarrow> set c \<subseteq> set p" for c
    by (induction p arbitrary: c) (force split: list.splits if_splits)+
  have step: "\<forall>c \<in> set cs. open_brace \<notin> set c \<Longrightarrow> \<forall>c \<in> set xs. open_brace \<notin> set c \<Longrightarrow>
      \<forall>c \<in> set (foldl (norm_step b) cs xs). open_brace \<notin> set c" for b cs xs
  proof (induction xs arbitrary: cs)
    case (Cons x xs)
    from Cons.prems have "\<forall>c \<in> set (norm_step b cs x). open_brace \<notin> set c"
      by (auto simp: norm_step_def dest: in_set_butlastD)
    with Cons show ?case by simp
  qed simp
  have join: "\<forall>c \<in> set cs. open_brace \<notin> set c \<Longrightarrow> open_brace \<notin> set (join_char slash cs)" for cs
    by (induction "slash" cs rule: join_char.induct) auto
  define b where "b = (initial_slashes p > 0)"
  have "open_brace \<notin> set (join_char slash (foldl (norm_step b) [] (split_char slash p)))"
    using p parts by (intro join step) auto
  then show ?thesis by (auto simp: normpath_def Let_def u_def b_def)
qed

lemma canonical_normalize: "canonical_dest (normalize_bind_dest dest)"
proof (cases "dest = u ''~''")
  case True
  have "GUEST_HOME = abs_path [u ''home'', u ''agent'']" by code_simp
  moreover have "clean [u ''home'', u ''agent'']" by (simp add: clean_Cons u_def)
  moreover have "open_brace \<notin> set GUEST_HOME" by (simp add: GUEST_HOME_def u_def)
  ultimately show ?thesis using True unfolding canonical_dest_def normalize_bind_dest_def by auto
next
  case False
  define p where "p = drop_trailing (expand_tilde dest)"
  have p: "p \<noteq> u ''~''" "\<not> prefix (u ''~/'') p" "\<not> (1 < length p \<and> last p = slash)"
    using drop_trailing_no_tilde expand_tilde_no_tilde [OF False] drop_trailing_last
    unfolding p_def by blast+
  show ?thesis
  proof (cases "open_brace \<notin> set p \<and> prefix (u ''/'') p")
    case True
    define r where "r = (if prefix (u ''//'') (normpath p) then tl (normpath p) else normpath p)"
    have "open_brace \<notin> set r"
      using normpath_chars [of p] True by (cases "normpath p") (auto simp: r_def)
    moreover have "normalize_bind_dest dest = r"
      using False True by (simp add: normalize_bind_dest_def Let_def p_def r_def)
    ultimately show ?thesis
      using normpath_absolute [of p] True by (simp add: canonical_dest_def r_def)
  next
    case c: False
    then have "normalize_bind_dest dest = p"
      using False by (auto simp: normalize_bind_dest_def Let_def p_def)
    with p c show ?thesis by (auto simp: canonical_dest_def)
  qed
qed

text \<open>
  Canonicalizing a destination is idempotent: every producer applies it and every reader
  applies it again, and the second application changes nothing.
\<close>

theorem normalize_bind_dest_idem:
  "normalize_bind_dest (normalize_bind_dest dest) = normalize_bind_dest dest"
  by (rule normalize_canonical [OF canonical_normalize])

section \<open>At or inside\<close>

text \<open>Every destination the fold compares is tidy: it has no trailing slash to speak of.\<close>

definition tidy :: "pystr \<Rightarrow> bool" where
  "tidy p \<longleftrightarrow> \<not> (1 < length p \<and> last p = slash)"

lemma tidy_normalize: "tidy (normalize_bind_dest d)"
  using canonical_normalize [of d] abs_path_last by (auto simp: canonical_dest_def tidy_def)

lemma tidy_rstrip: "tidy p \<Longrightarrow> p \<noteq> u ''/'' \<Longrightarrow> rstrip_slash p = p"
proof (cases p rule: rev_cases)
  case (snoc q c)
  assume "tidy p" "p \<noteq> u ''/''"
  with snoc show ?thesis
    using rstrip_slash_snoc(1) [of q c] by (cases q) (auto simp: tidy_def u_def)
qed (simp add: rstrip_slash_snoc)

lemma rstrip_root: "rstrip_slash (u ''/'') = []"
  by (simp add: rstrip_slash_def rstrip_by_def u_def)

lemma is_within_refl [simp]: "is_within d d"
  by (simp add: is_within_def)

lemma is_within_trans:
  assumes "is_within d r" "is_within r s" shows "is_within d s"
proof (cases "d = r \<or> r = s")
  case False
  with assms have dr: "prefix (rstrip_slash r @ [slash]) d" and rs: "prefix (rstrip_slash s @ [slash]) r"
    by (auto simp: is_within_def)
  have "prefix (rstrip_slash s @ [slash]) (rstrip_slash r @ [slash])"
  proof -
    obtain k where k: "r = rstrip_slash r @ replicate k slash" using rstrip_slash_decompose by blast
    from rs have "prefix (rstrip_slash s @ [slash]) (rstrip_slash r @ replicate k slash)"
      using k by simp
    then consider "prefix (rstrip_slash s @ [slash]) (rstrip_slash r)"
      | t where "rstrip_slash s @ [slash] = rstrip_slash r @ t" "prefix t (replicate k slash)"
      by (auto simp: prefix_append)
    then show ?thesis
    proof cases
      case 2
      show ?thesis
      proof (cases t rule: rev_cases)
        case Nil
        with 2 show ?thesis by (metis append_Nil2 prefix_append prefix_order.refl)
      next
        case (snoc t' c)
        with 2 have e: "rstrip_slash s = rstrip_slash r @ t'" "c = slash" by auto
        have "set t' \<subseteq> {slash}"
          using 2(2) snoc by (auto dest!: set_mono_prefix split: if_splits)
        then have "t' = []"
          using e(1) rstrip_slash_last [of s] by (cases t' rule: rev_cases) auto
        with e show ?thesis by simp
      qed
    qed (simp add: prefix_append)
  qed
  with dr show ?thesis unfolding is_within_def using prefix_order.trans by blast
qed (use assms in auto)

lemma within_strict_length:
  assumes "tidy r" "prefix (rstrip_slash r @ [slash]) s"
  shows "length r < length s \<or> r = u ''/'' \<and> s \<noteq> []"
  using assms tidy_rstrip [of r] prefix_length_le [OF assms(2)] by (cases "r = u ''/''") auto

lemma is_within_longer:
  assumes "tidy r" "is_within s r" "s \<noteq> r" shows "length r < length s"
proof -
  have p: "prefix (rstrip_slash r @ [slash]) s" using assms by (simp add: is_within_def)
  show ?thesis
  proof (cases "r = u ''/''")
    case True
    with p obtain t where "s = slash # t" by (auto simp: rstrip_root prefix_def)
    with True assms(3) show ?thesis by (cases t) (auto simp: u_def)
  qed (use within_strict_length [OF assms(1) p] in auto)
qed

lemma is_within_antisym:
  assumes t: "tidy r" "tidy s" and w: "is_within r s" "is_within s r" shows "r = s"
proof (rule ccontr)
  assume ne: "r \<noteq> s"
  with w have p: "prefix (rstrip_slash s @ [slash]) r" "prefix (rstrip_slash r @ [slash]) s"
    by (auto simp: is_within_def)
  have "rstrip_slash b = b" if "tidy b" "b \<noteq> a" "a = u ''/''" for a b
    using that tidy_rstrip by blast
  moreover have "False" if "a = u ''/''" "rstrip_slash b = b" "prefix (rstrip_slash b @ [slash]) a"
      "prefix (rstrip_slash a @ [slash]) b" for a b
    using that by (auto simp: u_def prefix_Cons)
  ultimately have "r \<noteq> u ''/''" "s \<noteq> u ''/''" using t p ne by blast+
  with within_strict_length [OF t(2) p(1)] within_strict_length [OF t(1) p(2)] show False by simp
qed

lemma is_within_tree:
  assumes "tidy r" "tidy s" "is_within d r" "is_within d s" shows "is_within r s \<or> is_within s r"
proof (cases "d = r \<or> d = s")
  case False
  with assms have p: "prefix (rstrip_slash r @ [slash]) d" "prefix (rstrip_slash s @ [slash]) d"
    by (auto simp: is_within_def)
  then have "prefix (rstrip_slash r @ [slash]) (rstrip_slash s @ [slash]) \<or>
      prefix (rstrip_slash s @ [slash]) (rstrip_slash r @ [slash])"
    by (rule prefix_same_cases)
  moreover have "is_within a b \<or> is_within b a" if "tidy a" "tidy b"
      "prefix (rstrip_slash a @ [slash]) (rstrip_slash b @ [slash])" for a b
  proof -
    from that(3) consider "rstrip_slash a = rstrip_slash b" | "prefix (rstrip_slash a @ [slash]) (rstrip_slash b)"
      by (auto simp: prefix_snoc)
    then show ?thesis
    proof cases
      case 1
      then show ?thesis
        using that tidy_rstrip [of a] tidy_rstrip [of b] rstrip_root
        by (cases "a = u ''/''"; cases "b = u ''/''") (auto simp: is_within_def u_def)
    next
      case 2
      then show ?thesis unfolding is_within_def using rstrip_slash_prefix prefix_order.trans by blast
    qed
  qed
  ultimately show ?thesis using assms(1,2) by blast
qed (use assms in auto)

text \<open>On canonical absolute paths the string test is the prefix order of the components.\<close>

lemma component_boundary:
  assumes "slash \<notin> set r" "slash \<notin> set d" "prefix (r @ slash # x) (d @ y)"
    and "y = [] \<or> hd y = slash"
  shows "r = d \<and> prefix (slash # x) y"
  using assms
proof (induction r arbitrary: d)
  case Nil
  then show ?case by (cases d) auto
next
  case (Cons a r)
  then show ?case by (cases d; cases y) auto
qed

lemma prefix_path_str:
  "clean rs \<Longrightarrow> clean ds \<Longrightarrow> prefix (path_str rs @ [slash]) (path_str ds) \<longleftrightarrow> strict_prefix rs ds"
proof (induction rs arbitrary: ds)
  case Nil
  then show ?case by (cases ds) auto
next
  case (Cons r rs)
  show ?case
  proof (cases ds)
    case ds: (Cons d ds')
    have sl: "\<exists>x. path_str cs @ [slash] = slash # x" for cs by (cases cs) auto
    then obtain x where x: "path_str rs @ [slash] = slash # x" by blast
    have y: "path_str ds' = [] \<or> hd (path_str ds') = slash" by (cases ds') auto
    have "prefix (path_str (r # rs) @ [slash]) (path_str ds) \<longleftrightarrow>
        r = d \<and> prefix (path_str rs @ [slash]) (path_str ds')"
      using component_boundary [of r d x "path_str ds'"] x y Cons.prems ds
      by (auto simp: clean_Cons)
    with Cons ds show ?thesis by (auto simp: clean_Cons)
  qed simp
qed

lemma path_str_not_root: "clean cs \<Longrightarrow> path_str cs \<noteq> u ''/''"
  by (cases cs) (auto simp: clean_Cons u_def)

lemma rstrip_abs_path: "clean cs \<Longrightarrow> rstrip_slash (abs_path cs) = path_str cs"
  using tidy_rstrip [of "abs_path cs"] abs_path_last [of cs] rstrip_root path_str_not_root [of cs]
  by (cases "cs = []") (auto simp: tidy_def abs_path_def)

lemma abs_path_inj:
  assumes "clean rs" "clean ds" "abs_path rs = abs_path ds" shows "rs = ds"
proof -
  from assms(3) have "path_str rs @ [slash] = path_str ds @ [slash]"
    using rstrip_abs_path [OF assms(1)] rstrip_abs_path [OF assms(2)] by simp
  then have "path_str rs = path_str ds" by simp
  show ?thesis
  proof (cases "rs = [] \<or> ds = []")
    case True
    with \<open>path_str rs = path_str ds\<close> show ?thesis by (cases rs; cases ds) auto
  next
    case False
    then have "join_char slash rs = join_char slash ds"
      using join_path_str [of rs] join_path_str [of ds] \<open>path_str rs = path_str ds\<close>
      by (metis list.inject)
    with False assms(1,2) show ?thesis
      using split_join_char [of rs slash] split_join_char [of ds slash] by (metis clean_def)
  qed
qed

text \<open>
  On canonical absolute destinations \<open>is_within\<close> is exactly the prefix order of the path
  components: the separator guard makes the string comparison a comparison of paths.
\<close>

theorem is_within_components:
  assumes "clean rs" "clean ds"
  shows "is_within (abs_path ds) (abs_path rs) \<longleftrightarrow> prefix rs ds"
proof (cases "ds = rs")
  case False
  then have ne: "abs_path ds \<noteq> abs_path rs" using abs_path_inj assms by blast
  have "prefix (path_str rs @ [slash]) (abs_path ds) \<longleftrightarrow> strict_prefix rs ds"
  proof (cases "ds = []")
    case True
    have "\<not> prefix (path_str rs @ [slash]) (u ''/'') \<or> rs = []"
      by (cases rs) (auto simp: u_def)
    with True False show ?thesis by (simp add: abs_path_def)
  qed (use prefix_path_str [OF assms] in \<open>simp add: abs_path_def\<close>)
  with ne False show ?thesis by (auto simp: is_within_def rstrip_abs_path assms)
qed simp

lemma is_within_components_witness:
  "is_within (u ''/home/agent/w'') (u ''/home/agent'') \<and> \<not> is_within (u ''/home/agents'') (u ''/home/agent'')"
proof -
  have e: "u ''/home/agent/w'' = abs_path [u ''home'', u ''agent'', u ''w'']"
    "u ''/home/agents'' = abs_path [u ''home'', u ''agents'']"
    "u ''/home/agent'' = abs_path [u ''home'', u ''agent'']" by code_simp+
  have c: "clean [u ''home'', u ''agent'', u ''w'']" "clean [u ''home'', u ''agents'']"
    "clean [u ''home'', u ''agent'']" by (simp_all add: clean_Cons u_def)
  show ?thesis
    unfolding e using is_within_components [OF c(3,1)] is_within_components [OF c(3,2)]
    by (simp add: u_def)
qed

text \<open>The sort key of the fold counts components: inside is deeper.\<close>

lemma parts_count_abs_path: "clean cs \<Longrightarrow> parts_count (abs_path cs) = 1 + length cs"
proof -
  assume c: "clean cs"
  then have "filter (\<lambda>c. c \<noteq> [] \<and> c \<noteq> u ''.'') cs = cs" by (auto simp: clean_def filter_id_conv)
  moreover have "prefix (u ''/'') (abs_path cs)" by (simp add: abs_path_join u_def)
  ultimately show ?thesis using c by (simp add: parts_count_def split_abs_path)
qed

lemma path_depth_abs_path: "clean cs \<Longrightarrow> path_depth (abs_path cs) = length cs"
proof -
  assume c: "clean cs"
  have "dropWhile (\<lambda>c. c = slash) (abs_path cs) = join_char slash cs"
    using clean_join_head [OF c] by (cases "join_char slash cs") (auto simp: abs_path_join)
  moreover have "rstrip_slash (join_char slash cs) = join_char slash cs"
  proof (cases "cs = []")
    case False
    then have "abs_path cs = slash # join_char slash cs" by (simp add: abs_path_join)
    with abs_path_last [OF c] show ?thesis
      by (cases "join_char slash cs" rule: rev_cases) (auto simp: rstrip_slash_snoc)
  qed (simp add: rstrip_slash_snoc)
  moreover have "cs \<noteq> [] \<Longrightarrow> split_char slash (join_char slash cs) = cs"
    using c by (simp add: split_join_char clean_def)
  moreover have "filter (\<lambda>c. c \<noteq> []) cs = cs" using c by (auto simp: clean_def filter_id_conv)
  moreover have "path_depth (abs_path []) = 0" by code_simp
  ultimately show ?thesis by (cases "cs = []") (simp_all add: path_depth_def)
qed

section \<open>The interface of the fold\<close>

text \<open>
  What the fold of the bind map relies on: "at or inside" is a partial order on the tidy
  destinations, and the places that hold one destination form a chain. A layout is a set of
  occupied places, home among them, some of them masks, with nothing strictly inside a mask.
\<close>

definition layout :: "('a \<Rightarrow> 'a \<Rightarrow> bool) \<Rightarrow> 'a \<Rightarrow> 'a set \<Rightarrow> 'a set \<Rightarrow> bool" where
  "layout within home occ masks \<longleftrightarrow> home \<in> occ \<and> home \<notin> masks \<and> masks \<subseteq> occ \<and>
     (\<forall>m \<in> masks. \<forall>d \<in> occ. within d m \<longrightarrow> d = m)"

locale containment =
  fixes within :: "'a \<Rightarrow> 'a \<Rightarrow> bool" and carrier :: "'a \<Rightarrow> bool"
  assumes refl: "within a a"
    and trans: "within a b \<Longrightarrow> within b c \<Longrightarrow> within a c"
    and antisym: "carrier a \<Longrightarrow> carrier b \<Longrightarrow> within a b \<Longrightarrow> within b a \<Longrightarrow> a = b"
    and tree: "carrier a \<Longrightarrow> carrier b \<Longrightarrow> within d a \<Longrightarrow> within d b \<Longrightarrow> within a b \<or> within b a"
begin

text \<open>Taking a place that holds nothing but masks keeps a layout.\<close>

lemma layout_bind:
  assumes l: "layout within home occ masks"
    and m: "\<And>m. m \<in> masks \<Longrightarrow> within p m \<Longrightarrow> m = p"
    and b: "\<And>b. b \<in> occ - masks \<Longrightarrow> \<not> within b p"
  shows "layout within home (insert p {d \<in> occ. \<not> within d p}) {d \<in> masks. \<not> within d p}"
  unfolding layout_def
proof (intro conjI ballI impI)
  fix q d assume *: "q \<in> {d \<in> masks. \<not> within d p}" "d \<in> insert p {d \<in> occ. \<not> within d p}" "within d q"
  show "d = q"
  proof (cases "d = p")
    case True
    with * m [of q] refl [of p] show ?thesis by auto
  qed (use * l in \<open>auto simp: layout_def\<close>)
qed (use l b in \<open>auto simp: layout_def\<close>)

text \<open>So does masking a place outside every mask that does not hold home.\<close>

lemma layout_mask:
  assumes l: "layout within home occ masks"
    and m: "\<And>m. m \<in> masks \<Longrightarrow> \<not> within p m" and h: "\<not> within home p"
  shows "layout within home (insert p {d \<in> occ. \<not> within d p}) (insert p {d \<in> masks. \<not> within d p})"
  using l m h refl [of p] unfolding layout_def by auto

lemma layout_home: "layout within home occ masks \<Longrightarrow> m \<in> masks \<Longrightarrow> \<not> within home m"
  by (auto simp: layout_def)

text \<open>What was inside an occupied place stays inside one.\<close>

lemma covered_step:
  assumes "\<exists>k \<in> occ. within d k" shows "\<exists>k \<in> insert p {k \<in> occ. \<not> within k p}. within d k"
  using assms trans by blast

text \<open>Among the places that hold one destination, an innermost one lies inside all of them.\<close>

lemma innermost_unique:
  assumes "\<And>r. r \<in> roots \<Longrightarrow> carrier r \<and> within d r" "a \<in> roots" "b \<in> roots"
    and "\<And>r. r \<in> roots \<Longrightarrow> within r a \<Longrightarrow> r = a" "\<And>r. r \<in> roots \<Longrightarrow> within r b \<Longrightarrow> r = b"
  shows "a = b"
  using assms tree by metis

lemma innermost_below:
  assumes "\<And>r. r \<in> roots \<Longrightarrow> carrier r \<and> within d r" "a \<in> roots" "r \<in> roots"
    and "\<And>r. r \<in> roots \<Longrightarrow> within r a \<Longrightarrow> r = a"
  shows "within a r"
  using assms tree refl by metis

end

interpretation guest: containment is_within tidy
  by unfold_locales (auto intro: is_within_trans is_within_antisym dest: is_within_tree)

end
