(* ===== verification/Categories.thy ===== *)
theory Categories imports Keyspace Paths begin

text \<open>
  The vocabulary of path delivery (\<open>src/kanibako/settings/settings_categories.py\<close>): the category
  tables, the entry a declaration emits, the credential gate, and the three questions settled
  at the launch seam (both scalar families naming one variable, which secret a destination
  delivers, what a narrow resolve mounts), each refusal as a value naming its participants.
\<close>

datatype delivery = COPY | MOUNT | ENV

record category_entry =
  category :: pystr
  scope :: pystr
  box_dest :: pystr
  host_src :: "pystr option"
  delivery :: delivery
  options :: pystr
  ename :: pystr
  key_segments :: "pystr list"
  is_credential :: bool

definition DELIVERY :: "(pystr \<times> delivery) list" where
  "DELIVERY =
     [(u ''masks'', MOUNT), (u ''bindings.ro'', MOUNT), (u ''bindings.rw'', MOUNT),
      (u ''caches'', MOUNT), (u ''seeded'', COPY), (u ''common'', MOUNT), (u ''synced'', COPY),
      (u ''env'', ENV), (u ''secret_path'', MOUNT)]"

definition ABSTRACT_CATEGORIES :: "pystr list" where
  "ABSTRACT_CATEGORIES = [u ''common'', u ''caches'', u ''seeded'']"

definition CONCRETE_CATEGORIES :: "pystr list" where
  "CONCRETE_CATEGORIES = [u ''bindings.ro'', u ''bindings.rw'', u ''secret_path'']"

text \<open>The rank of a scope in apply order; every entry's scope is one of the four.\<close>

definition scope_rank :: "pystr \<Rightarrow> nat" where
  "scope_rank s = length (takeWhile (\<lambda>x. x \<noteq> s) SCOPE_CONTAINMENT)"

text \<open>
  The two properties of an entry: the dotted spelling of its key, and how a message names it.
  \<open>key_segments\<close> is never empty: it ends in the entry's destination or variable.
\<close>

definition entry_key :: "category_entry \<Rightarrow> pystr" where
  "entry_key e = join_char dot (key_segments e)"

definition elabel :: "category_entry \<Rightarrow> pystr" where
  "elabel e = entry_label (join_char dot (display_segments (butlast (key_segments e))))
     (last (key_segments e))"

section \<open>Mount options\<close>

definition bind_options :: "pystr \<Rightarrow> pystr" where
  "bind_options cat = (if cat = u ''bindings.ro'' then u ''ro'' else u ''Z,U'')"

abbreviation comma :: nat where "comma \<equiv> 44"

text \<open>\<open>options or ""\<close>, split on commas.\<close>

definition raw_tokens :: "pystr option \<Rightarrow> pystr list" where
  "raw_tokens opts = split_char comma (case opts of None \<Rightarrow> [] | Some s \<Rightarrow> s)"

definition is_read_only :: "pystr option \<Rightarrow> bool" where
  "is_read_only opts \<longleftrightarrow> u ''ro'' \<in> set (map strip (raw_tokens opts))"

section \<open>The credential gate\<close>

definition gate_credential_delivery :: "category_entry list \<Rightarrow> bool \<Rightarrow> category_entry list" where
  "gate_credential_delivery entries deliver_creds =
     (if deliver_creds then entries
      else filter (\<lambda>e. category e \<noteq> u ''synced'' \<and> \<not> (category e = u ''seeded'' \<and> is_credential e))
        entries)"

section \<open>Refusals\<close>

datatype category_error =
    BindingVsBinding pystr "category_entry list"
  | ExtensionOntoOccupied pystr category_entry category_entry
  | EnvSecretTwin pystr "pystr list" "pystr list"

text \<open>
  \<open>max(enumerate(entries), key=...)\<close>: the highest scope rank, and of those the last. The list
  is a group, hence not empty.
\<close>

fun most_specific_loop :: "category_entry \<Rightarrow> category_entry list \<Rightarrow> category_entry" where
  "most_specific_loop best [] = best"
| "most_specific_loop best (e # es) =
     most_specific_loop (if scope_rank (scope best) \<le> scope_rank (scope e) then e else best) es"

definition most_specific :: "category_entry list \<Rightarrow> category_entry" where
  "most_specific es = most_specific_loop (hd es) (tl es)"

text \<open>The sort by \<open>(path_depth(box_dest), box_dest)\<close>, strings compared by code point.\<close>

fun str_le :: "pystr \<Rightarrow> pystr \<Rightarrow> bool" where
  "str_le [] _ = True"
| "str_le (_ # _) [] = False"
| "str_le (x # xs) (y # ys) = (x < y \<or> x = y \<and> str_le xs ys)"

definition depth_le :: "category_entry \<Rightarrow> category_entry \<Rightarrow> bool" where
  "depth_le a b \<longleftrightarrow> path_depth (box_dest a) < path_depth (box_dest b)
     \<or> path_depth (box_dest a) = path_depth (box_dest b) \<and> str_le (box_dest a) (box_dest b)"

fun insert_depth :: "category_entry \<Rightarrow> category_entry list \<Rightarrow> category_entry list" where
  "insert_depth e [] = [e]"
| "insert_depth e (x # xs) = (if depth_le e x then e # x # xs else x # insert_depth e xs)"

definition depth_sorted :: "category_entry list \<Rightarrow> category_entry list" where
  "depth_sorted es = foldr insert_depth es []"

definition secret_path_winners :: "category_entry list \<Rightarrow> category_entry list" where
  "secret_path_winners entries =
     depth_sorted (map (\<lambda>(_, grp). most_specific grp)
       (group_by box_dest (filter (\<lambda>e. category e = u ''secret_path'') entries)))"

text \<open>The body of the loop over the winners, for one of them.\<close>

definition secret_verdict ::
    "category_entry list \<Rightarrow> category_entry \<Rightarrow> category_error + category_entry list" where
  "secret_verdict entries winner =
     (if host_src winner = None then Inr []
      else (let grp = filter (\<lambda>e. delivery e = MOUNT \<and> box_dest e = box_dest winner) entries;
                concrete = filter (\<lambda>e. category e \<in> set CONCRETE_CATEGORIES) grp;
                abstract = filter (\<lambda>e. category e \<in> set ABSTRACT_CATEGORIES) grp
            in if length concrete > 1 \<and> \<not> list_all (\<lambda>e. category e = u ''secret_path'') concrete
               then Inl (BindingVsBinding (box_dest winner) concrete)
               else if concrete \<noteq> [] \<and> abstract \<noteq> []
               then Inl (ExtensionOntoOccupied (box_dest winner) (last abstract) (last concrete))
               else if list_ex (\<lambda>e. category e = u ''masks'') grp then Inr []
               else Inr [winner]))"

definition secret_path_deliveries ::
    "category_entry list \<Rightarrow> category_error + category_entry list" where
  "secret_path_deliveries entries =
     bindE (mapE (secret_verdict entries) (secret_path_winners entries)) (\<lambda>vs. Inr (concat vs))"

section \<open>Both scalar families\<close>

definition secret_path_names :: "category_entry list \<Rightarrow> (pystr \<times> pystr list) list" where
  "secret_path_names entries =
     map (\<lambda>(var, es). (var, map entry_key es))
       (group_by ename (filter (\<lambda>e. category e = u ''secret_path'' \<and> host_src e \<noteq> None) entries))"

definition env_names :: "category_entry list \<Rightarrow> (pystr \<times> pystr list) list" where
  "env_names entries =
     map (\<lambda>(var, es). (var, map entry_key es))
       (group_by ename (filter (\<lambda>e. category e = u ''env'') entries))"

definition refuse_env_secret_twins :: "category_entry list \<Rightarrow> category_error + unit" where
  "refuse_env_secret_twins entries =
     foldE (\<lambda>(var, env_group) _.
         (case map_of (secret_path_names entries) var of
            None \<Rightarrow> Inr ()
          | Some secret_group \<Rightarrow> Inl (EnvSecretTwin var env_group secret_group)))
       (env_names entries) ()"

text \<open>
  The part of \<open>launch_deliveries\<close> that is decided here; the carrier's other fields are handed in
  and copied.
\<close>

record launch_deliveries =
  secrets :: "category_entry list"
  agent_dests :: "pystr list"
  secret_names :: "(pystr \<times> pystr list) list"

definition launch_deliveries_of ::
    "category_entry list \<Rightarrow> pystr list \<Rightarrow> category_error + launch_deliveries" where
  "launch_deliveries_of entries dests =
     bindE (refuse_env_secret_twins entries) (\<lambda>_.
     bindE (secret_path_deliveries entries) (\<lambda>ss.
     Inr \<lparr>secrets = ss, agent_dests = dests, secret_names = secret_path_names entries\<rparr>))"

section \<open>A narrow resolve\<close>

definition narrow_verdict ::
    "pystr \<times> category_entry list \<Rightarrow> category_error + category_entry" where
  "narrow_verdict dg = (case dg of (dest, grp) \<Rightarrow>
     (let masks = filter (\<lambda>e. category e = u ''masks'') grp in
      if masks \<noteq> [] then Inr (last masks)
      else if length grp > 1 then
        (let concrete = filter (\<lambda>e. category e \<in> set CONCRETE_CATEGORIES) grp;
             abstract = filter (\<lambda>e. category e \<in> set ABSTRACT_CATEGORIES) grp
         in if concrete \<noteq> [] \<and> abstract \<noteq> []
            then Inl (ExtensionOntoOccupied dest (last abstract) (last concrete))
            else Inl (BindingVsBinding dest grp))
      else Inr (hd grp)))"

definition narrow_groups ::
    "category_entry list \<Rightarrow> pystr list \<Rightarrow> (pystr \<times> category_entry list) list" where
  "narrow_groups entries dests =
     group_by (\<lambda>e. normalize_bind_dest (box_dest e))
       (filter (\<lambda>e. delivery e = MOUNT \<and> normalize_bind_dest (box_dest e) \<in> set dests) entries)"

definition narrow_table_winners ::
    "category_entry list \<Rightarrow> pystr list \<Rightarrow> category_error + category_entry list" where
  "narrow_table_winners entries dests = mapE narrow_verdict (narrow_groups entries dests)"

section \<open>Declarations\<close>

text \<open>
  The category of a declaration key by position: the segment after the scope, the agent scope
  being two segments.
\<close>

definition declaration_delivery :: "pystr \<Rightarrow> delivery" where
  "declaration_delivery decl_key =
     (let parts = split_char dot decl_key;
          idx = (if hd parts = u ''agent'' then 2 else 1)
      in case map_of DELIVERY (if length parts > idx then parts ! idx else []) of
           None \<Rightarrow> MOUNT | Some d \<Rightarrow> d)"

record bind_leaf =
  bhost :: pystr
  bbox :: pystr
  bopts :: "pystr option"

definition BINDING_DERIVATIONS_NODE :: pystr where
  "BINDING_DERIVATIONS_NODE = u ''binding_derivations''"

definition derive_binding_keys :: "category_entry list \<Rightarrow> (pystr list \<times> bind_leaf) list" where
  "derive_binding_keys entries =
     fold (\<lambda>e out.
         dict_set (BINDING_DERIVATIONS_NODE # key_segments e)
           \<lparr>bhost = (case host_src e of None \<Rightarrow> [] | Some s \<Rightarrow> s), bbox = box_dest e,
            bopts = (if options e = [] then None else Some (options e))\<rparr> out)
       (filter (\<lambda>e. category e \<in> set ABSTRACT_CATEGORIES) entries) []"

section \<open>Lemmas\<close>

text \<open>
  Every entry is built with the delivery its category has in the table
  (\<open>settings_launch.py\<close>, the only constructor site) and one of the four scopes.
\<close>

definition entry_ok :: "category_entry \<Rightarrow> bool" where
  "entry_ok e \<longleftrightarrow> map_of DELIVERY (category e) = Some (delivery e) \<and> scope e \<in> set SCOPE_CONTAINMENT"

lemma entry_ok_delivery:
  assumes "entry_ok e"
  shows "category e = u ''secret_path'' \<Longrightarrow> delivery e = MOUNT"
    "category e = u ''masks'' \<Longrightarrow> delivery e = MOUNT"
    "category e = u ''synced'' \<Longrightarrow> delivery e = COPY"
    "category e = u ''env'' \<longleftrightarrow> delivery e = ENV"
  using assms by (auto simp: entry_ok_def DELIVERY_def u_def split: if_splits)

lemma most_specific_loop:
  "most_specific_loop b es \<in> set (b # es) \<and>
   (\<forall>e \<in> set (b # es). scope_rank (scope e) \<le> scope_rank (scope (most_specific_loop b es)))"
proof (induction es arbitrary: b)
  case (Cons e es)
  show ?case
    using Cons [of "if scope_rank (scope b) \<le> scope_rank (scope e) then e else b"]
    by (auto split: if_splits)
qed simp

lemma most_specific:
  assumes "es \<noteq> []"
  shows "most_specific es \<in> set es"
    and "e \<in> set es \<Longrightarrow> scope_rank (scope e) \<le> scope_rank (scope (most_specific es))"
  using most_specific_loop [of "hd es" "tl es"] assms by (auto simp: most_specific_def)

lemma insert_depth_set [simp]: "set (insert_depth e es) = insert e (set es)"
  by (induction es) auto

lemma insert_depth_distinct:
  "distinct (map f (insert_depth e es)) \<longleftrightarrow> distinct (map f (e # es))"
  by (induction es) auto

lemma depth_sorted_set [simp]: "set (depth_sorted es) = set es"
  by (induction es) (auto simp: depth_sorted_def)

lemma depth_sorted_distinct: "distinct (map f (depth_sorted es)) \<longleftrightarrow> distinct (map f es)"
proof (induction es)
  case (Cons e es)
  have "distinct (map f (depth_sorted (e # es))) \<longleftrightarrow> distinct (map f (e # depth_sorted es))"
    by (simp add: depth_sorted_def insert_depth_distinct del: distinct.simps list.map)
  moreover have "set (map f (depth_sorted es)) = set (map f es)" by simp
  ultimately show ?case using Cons by simp
qed (simp add: depth_sorted_def)

lemma winner_of_group:
  assumes "w \<in> set (secret_path_winners entries)"
  shows "\<exists>g. (box_dest w, g) \<in> set (group_by box_dest (filter (\<lambda>e. category e = u ''secret_path'') entries))
    \<and> w = most_specific g"
proof -
  from assms obtain d g where g: "w = most_specific g"
    "(d, g) \<in> set (group_by box_dest (filter (\<lambda>e. category e = u ''secret_path'') entries))"
    by (auto simp: secret_path_winners_def)
  from group_by_nonempty [OF this(2)] have "g \<noteq> []" "\<And>e. e \<in> set g \<Longrightarrow> box_dest e = d"
    by auto
  then have "box_dest w = d" using most_specific(1) g(1) by blast
  with g show ?thesis by blast
qed

lemma secret_winner:
  assumes "w \<in> set (secret_path_winners entries)"
  shows "w \<in> set entries" "category w = u ''secret_path''"
    "\<And>e. e \<in> set entries \<Longrightarrow> category e = u ''secret_path'' \<Longrightarrow> box_dest e = box_dest w \<Longrightarrow>
      scope_rank (scope e) \<le> scope_rank (scope w)"
proof -
  obtain g where g: "(box_dest w, g) \<in> set (group_by box_dest
      (filter (\<lambda>e. category e = u ''secret_path'') entries))" "w = most_specific g"
    using winner_of_group [OF assms] by blast
  have "g \<noteq> []" using group_by_nonempty [OF g(1)] by simp
  moreover have "g = filter (\<lambda>e. category e = u ''secret_path'' \<and> box_dest e = box_dest w) entries"
    using g(1) by (simp add: group_by_entry conj_commute)
  ultimately have e: "g = filter (\<lambda>e. category e = u ''secret_path'' \<and> box_dest e = box_dest w) entries" "g \<noteq> []"
    by auto
  then show "w \<in> set entries" "category w = u ''secret_path''"
  proof -
    have "w \<in> set g" using most_specific(1) [OF e(2)] g(2) by simp
    then have "w \<in> set (filter (\<lambda>e. category e = u ''secret_path'' \<and> box_dest e = box_dest w) entries)"
      using e(1) by metis
    then show "w \<in> set entries" "category w = u ''secret_path''" by simp_all
  qed
  show "scope_rank (scope e) \<le> scope_rank (scope w)"
    if "e \<in> set entries" "category e = u ''secret_path''" "box_dest e = box_dest w" for e
  proof -
    have "e \<in> set (filter (\<lambda>e. category e = u ''secret_path'' \<and> box_dest e = box_dest w) entries)"
      using that by simp
    then have "e \<in> set g" using e(1) by metis
    then show ?thesis using most_specific(2) [OF e(2), of e] g(2) by simp
  qed
qed

lemma distinct_secret_winners: "distinct (map box_dest (secret_path_winners entries))"
proof -
  let ?gs = "group_by box_dest (filter (\<lambda>e. category e = u ''secret_path'') entries)"
  have "map (box_dest \<circ> (\<lambda>(_, g). most_specific g)) ?gs = dict_keys ?gs"
  proof (rule map_cong [OF refl])
    fix x assume "x \<in> set ?gs"
    moreover obtain d g where x: "x = (d, g)" by (cases x)
    ultimately have "(d, g) \<in> set ?gs" by simp
    from group_by_nonempty [OF this] have "g \<noteq> []" "\<And>e. e \<in> set g \<Longrightarrow> box_dest e = d" by auto
    then show "(box_dest \<circ> (\<lambda>(_, g). most_specific g)) x = fst x"
      using most_specific(1) x(1) by simp
  qed
  then have "distinct (map (box_dest \<circ> (\<lambda>(_, g). most_specific g)) ?gs)"
    using distinct_group_by by metis
  then show ?thesis by (simp add: secret_path_winners_def depth_sorted_distinct)
qed

lemma secret_verdict_Inr:
  assumes v: "secret_verdict entries w = Inr ds" and w: "w \<in> set entries" "category w = u ''secret_path''"
    and ok: "\<forall>e \<in> set entries. entry_ok e"
  shows "ds = [] \<or> ds = [w] \<and> host_src w \<noteq> None \<and> (\<forall>e \<in> set entries. delivery e = MOUNT \<longrightarrow>
    box_dest e = box_dest w \<longrightarrow> category e = u ''secret_path'')"
proof (cases "ds = []")
  case False
  define g where "g = filter (\<lambda>e. delivery e = MOUNT \<and> box_dest e = box_dest w) entries"
  let ?c = "filter (\<lambda>e. category e \<in> set CONCRETE_CATEGORIES) g"
  let ?a = "filter (\<lambda>e. category e \<in> set ABSTRACT_CATEGORIES) g"
  have wc: "w \<in> set ?c"
    using w ok entry_ok_delivery(1) by (auto simp: g_def CONCRETE_CATEGORIES_def)
  then have "?c \<noteq> []" by (metis empty_iff empty_set)
  with v False have r: "ds = [w]" "host_src w \<noteq> None" "?a = []"
    "\<not> (length ?c > 1 \<and> \<not> list_all (\<lambda>e. category e = u ''secret_path'') ?c)"
    "\<not> list_ex (\<lambda>e. category e = u ''masks'') g"
    unfolding secret_verdict_def Let_def g_def [symmetric] by (auto split: if_splits)
  have c: "\<forall>e \<in> set ?c. category e = u ''secret_path''"
    using r(4) wc w(2) by (cases ?c; cases "tl ?c") (auto simp: list_all_iff)
  have "category e = u ''secret_path''" if "e \<in> set entries" "delivery e = MOUNT" "box_dest e = box_dest w" for e
  proof -
    from that have "e \<in> set g" by (simp add: g_def)
    with r(3,5) have "category e \<noteq> u ''masks''" "category e \<notin> set ABSTRACT_CATEGORIES"
      by (auto simp: list_ex_iff filter_empty_conv)
    with that(1,2) ok have "category e \<in> set CONCRETE_CATEGORIES"
      by (fastforce simp: entry_ok_def DELIVERY_def ABSTRACT_CATEGORIES_def CONCRETE_CATEGORIES_def
            split: if_splits)
    with c \<open>e \<in> set g\<close> show ?thesis by auto
  qed
  with r show ?thesis by auto
qed simp

lemma foldE_unit:
  "foldE (\<lambda>x _. r x) xs () = Inr () \<longleftrightarrow> (\<forall>x \<in> set xs. r x = Inr ())"
  by (induction xs) (auto simp: result_simps)

lemma keys_names:
  "var \<in> set (dict_keys (env_names es)) \<longleftrightarrow> (\<exists>e \<in> set es. category e = u ''env'' \<and> ename e = var)"
  "var \<in> set (dict_keys (secret_path_names es)) \<longleftrightarrow>
     (\<exists>e \<in> set es. category e = u ''secret_path'' \<and> host_src e \<noteq> None \<and> ename e = var)"
  unfolding env_names_def secret_path_names_def keys_map_values set_keys_group_by by auto

text \<open>A mount or copy entry as the emitter builds it, for the concrete instances below.\<close>

definition sample_entry :: "pystr \<Rightarrow> pystr \<Rightarrow> pystr \<Rightarrow> pystr option \<Rightarrow> category_entry" where
  "sample_entry cat sc dest src = \<lparr>category = cat, scope = sc, box_dest = dest, host_src = src,
     delivery = (case map_of DELIVERY cat of Some d \<Rightarrow> d | None \<Rightarrow> MOUNT), options = bind_options cat,
     ename = dest, key_segments = sc # split_char dot cat @ [dest], is_credential = False\<rparr>"

section \<open>The launch seam\<close>

text \<open>
  C38. What a launch delivers at a secret's destination: at most one entry per destination, each
  the most specific \<open>secret_path\<close> declaration of its variable with a host file behind it, and no
  binding, abstraction or mask is mounted at the same destination.
\<close>

theorem secret_path_deliveries_sound:
  assumes ok: "\<forall>e \<in> set entries. entry_ok e"
    and r: "secret_path_deliveries entries = Inr ds"
  shows "distinct (map box_dest ds) \<and> (\<forall>w \<in> set ds. w \<in> set entries \<and> host_src w \<noteq> None \<and>
    (\<forall>e \<in> set entries. delivery e = MOUNT \<longrightarrow> box_dest e = box_dest w \<longrightarrow>
       category e = u ''secret_path'' \<and> scope_rank (scope e) \<le> scope_rank (scope w)))"
proof -
  let ?ws = "secret_path_winners entries"
  from r obtain vs where vs: "list_all2 (\<lambda>w v. secret_verdict entries w = Inr v) ?ws vs" "ds = concat vs"
    by (auto simp: secret_path_deliveries_def result_simps mapE_Inr_iff)
  have one: "v = [] \<or> v = [w] \<and> host_src w \<noteq> None \<and> (\<forall>e \<in> set entries. delivery e = MOUNT \<longrightarrow>
      box_dest e = box_dest w \<longrightarrow> category e = u ''secret_path'')"
    if "w \<in> set ?ws" "secret_verdict entries w = Inr v" for w v
    using secret_verdict_Inr [OF that(2) secret_winner(1,2) [OF that(1)] ok] by auto
  have sub: "subseq (concat vs) ws" if "list_all2 (\<lambda>w v. v = [] \<or> v = [w]) ws vs"
    for ws :: "category_entry list" and vs
    using that by (induction rule: list_all2_induct) auto
  have "list_all2 (\<lambda>w v. v = [] \<or> v = [w]) ?ws vs"
    using vs(1) by (rule list.rel_mono_strong) (use one in blast)
  from sub [OF this] have "subseq (map box_dest ds) (map box_dest ?ws)"
    by (simp add: vs(2) subseq_map)
  then have "distinct (map box_dest ds)"
    using distinct_secret_winners subseq_distinct by metis
  moreover have "\<exists>w' \<in> set ?ws. secret_verdict entries w' = Inr [w] \<and> w' = w" if "w \<in> set ds" for w
  proof -
    from that vs(2) obtain v where "v \<in> set vs" "w \<in> set v" by auto
    with list_all2_source [OF vs(1)] obtain w'
      where "w' \<in> set ?ws" "secret_verdict entries w' = Inr v" by blast
    with one [OF this] \<open>w \<in> set v\<close> show ?thesis by auto
  qed
  ultimately show ?thesis
    using one secret_winner by (metis list.distinct(1))
qed

definition sample_secret :: "pystr \<Rightarrow> category_entry" where
  "sample_secret sc = \<lparr>category = u ''secret_path'', scope = sc,
     box_dest = u ''/run/kanibako/secrets/TOKEN'', host_src = Some (u ''/k/token''),
     delivery = MOUNT, options = u ''ro'', ename = u ''TOKEN'',
     key_segments = [sc, u ''secret_path'', u ''TOKEN''], is_credential = False\<rparr>"

lemma secret_path_deliveries_sound_witness:
  "scope_rank (scope (sample_secret (u ''system''))) \<le> scope_rank (scope (sample_secret (u ''box'')))"
proof -
  let ?es = "[sample_secret (u ''box''), sample_secret (u ''system'')]"
  have ok: "\<forall>e \<in> set ?es. entry_ok e" by code_simp
  have r: "secret_path_deliveries ?es = Inr [sample_secret (u ''box'')]" by code_simp
  have "delivery (sample_secret s) = MOUNT" "box_dest (sample_secret s) = box_dest (sample_secret t)" for s t
    by (simp_all add: sample_secret_def)
  with secret_path_deliveries_sound [OF ok r] show ?thesis by simp
qed

text \<open>
  A launch is refused for the two scalar families exactly when an \<open>env\<close> entry and a sourced
  \<open>secret_path\<close> entry, at any scopes, name one variable.
\<close>

theorem refuse_env_secret_twins_iff:
  "refuse_env_secret_twins entries = Inr () \<longleftrightarrow>
   \<not> (\<exists>e \<in> set entries. \<exists>s \<in> set entries. category e = u ''env'' \<and> category s = u ''secret_path''
        \<and> host_src s \<noteq> None \<and> ename e = ename s)"
proof -
  have "refuse_env_secret_twins entries = Inr () \<longleftrightarrow>
      (\<forall>x \<in> set (env_names entries). (case x of (var, env_group) \<Rightarrow>
         (case map_of (secret_path_names entries) var of None \<Rightarrow> Inr ()
          | Some secret_group \<Rightarrow> Inl (EnvSecretTwin var env_group secret_group))) = Inr ())"
    unfolding refuse_env_secret_twins_def
    using foldE_unit [of "\<lambda>(var, env_group). (case map_of (secret_path_names entries) var of None \<Rightarrow> Inr ()
          | Some secret_group \<Rightarrow> Inl (EnvSecretTwin var env_group secret_group))" "env_names entries"]
    by (simp add: case_prod_unfold)
  also have "\<dots> \<longleftrightarrow> (\<forall>x \<in> set (env_names entries). fst x \<notin> set (dict_keys (secret_path_names entries)))"
  proof (intro ball_cong refl)
    fix x assume "x \<in> set (env_names entries)"
    show "(case x of (var, env_group) \<Rightarrow>
         (case map_of (secret_path_names entries) var of None \<Rightarrow> Inr ()
          | Some secret_group \<Rightarrow> Inl (EnvSecretTwin var env_group secret_group))) = Inr ()
       \<longleftrightarrow> fst x \<notin> set (dict_keys (secret_path_names entries))"
      using map_of_eq_None_iff [of "secret_path_names entries" "fst x"]
      by (cases x; cases "map_of (secret_path_names entries) (fst x)") simp_all
  qed
  also have "\<dots> \<longleftrightarrow> (\<forall>var \<in> set (dict_keys (env_names entries)).
      var \<notin> set (dict_keys (secret_path_names entries)))" by simp
  finally show ?thesis unfolding keys_names Ball_def by blast
qed

text \<open>
  A narrow resolve mounts one row at each of its table's destinations that an entry names,
  and resolves no contest silently: either the row is the only mount declared at that
  destination, or it is a mask.
\<close>

theorem narrow_table_winners_sound:
  assumes "narrow_table_winners entries dests = Inr ws"
  shows "map (\<lambda>w. normalize_bind_dest (box_dest w)) ws = dict_keys (narrow_groups entries dests) \<and>
    distinct (map (\<lambda>w. normalize_bind_dest (box_dest w)) ws) \<and>
    (\<forall>w \<in> set ws. w \<in> set entries \<and> normalize_bind_dest (box_dest w) \<in> set dests \<and>
      (category w = u ''masks'' \<or>
       filter (\<lambda>e. delivery e = MOUNT \<and> normalize_bind_dest (box_dest e) = normalize_bind_dest (box_dest w))
         entries = [w]))"
proof -
  let ?d = "\<lambda>e. normalize_bind_dest (box_dest e)"
  let ?gs = "narrow_groups entries dests"
  from assms have rel: "list_all2 (\<lambda>dg w. narrow_verdict dg = Inr w) ?gs ws"
    by (simp add: narrow_table_winners_def mapE_Inr_iff)
  have one: "?d w = d \<and> w \<in> set entries \<and> ?d w \<in> set dests \<and>
      (category w = u ''masks'' \<or> filter (\<lambda>e. delivery e = MOUNT \<and> ?d e = d) entries = [w])"
    if dg: "(d, g) \<in> set ?gs" and v: "narrow_verdict (d, g) = Inr w" for d g w
  proof -
    from group_by_nonempty [OF dg [unfolded narrow_groups_def]]
    have g: "g \<noteq> []" "\<And>e. e \<in> set g \<Longrightarrow> ?d e = d" by auto
    from dg have "d \<in> set dests"
      and ge: "g = filter (\<lambda>e. delivery e = MOUNT \<and> ?d e = d) entries"
      by (auto simp: narrow_groups_def group_by_entry intro!: filter_cong)
    from v have "w \<in> set g \<and> (category w = u ''masks'' \<or> g = [w])"
    proof (cases "filter (\<lambda>e. category e = u ''masks'') g = []")
      case True
      with v g(1) show ?thesis
        by (cases g; cases "tl g") (auto simp: narrow_verdict_def Let_def split: if_splits)
    next
      case False
      then have "w = last (filter (\<lambda>e. category e = u ''masks'') g)"
        using v by (simp add: narrow_verdict_def Let_def)
      with last_in_set [OF False] show ?thesis by simp
    qed
    with g(2) ge \<open>d \<in> set dests\<close> show ?thesis by auto
  qed
  have keys: "map ?d ws = dict_keys ?gs"
  proof -
    have "list_all2 (\<lambda>dg w. ?d w = fst dg) ?gs ws"
      using rel by (rule list.rel_mono_strong) (use one in force)
    then show ?thesis by (induction rule: list_all2_induct) auto
  qed
  moreover have "distinct (dict_keys ?gs)"
    by (simp add: narrow_groups_def distinct_group_by)
  moreover have "w \<in> set entries \<and> ?d w \<in> set dests \<and> (category w = u ''masks'' \<or>
      filter (\<lambda>e. delivery e = MOUNT \<and> ?d e = ?d w) entries = [w])" if "w \<in> set ws" for w
  proof -
    from list_all2_source [OF rel that] obtain d g
      where dg: "(d, g) \<in> set ?gs" "narrow_verdict (d, g) = Inr w" by (metis prod.collapse)
    from one [OF this] have "?d w = d" by blast
    with one [OF dg] show ?thesis by simp
  qed
  ultimately show ?thesis by simp
qed

lemma narrow_table_winners_sound_witness:
  "filter (\<lambda>e. delivery e = MOUNT \<and> normalize_bind_dest (box_dest e) = u ''/run/kanibako/secrets/TOKEN'')
     [sample_secret (u ''box'')] = [sample_secret (u ''box'')]"
proof -
  have r: "narrow_table_winners [sample_secret (u ''box'')] [u ''/run/kanibako/secrets/TOKEN'']
      = Inr [sample_secret (u ''box'')]" by code_simp
  have "category (sample_secret (u ''box'')) \<noteq> u ''masks''"
    "normalize_bind_dest (box_dest (sample_secret (u ''box''))) = u ''/run/kanibako/secrets/TOKEN''"
    by code_simp+
  with narrow_table_winners_sound [OF r] show ?thesis by simp
qed

end
