(* ===== verification/Shape.thy ===== *)
theory Shape imports Categories begin

text \<open>
  The producer (\<open>src/kanibako/settings/store_shape.py\<close>): one scope's category entries folded into
  its five arms, with the refusals that are decided within one scope. Python tells two entries
  apart by identity (\<open>is\<close>); here an entry travels with its index in the scope's list.
\<close>

record bind_entry =
  bsrc :: pystr
  bopt :: "pystr option"

datatype arm = ArmRo | ArmRw | ArmMask | ArmSeed | ArmSync

definition ARM :: "(pystr \<times> arm) list" where
  "ARM =
     [(u ''bindings.ro'', ArmRo), (u ''bindings.rw'', ArmRw), (u ''caches'', ArmRw),
      (u ''common'', ArmRw), (u ''masks'', ArmMask), (u ''seeded'', ArmSeed), (u ''synced'', ArmSync)]"

definition NO_ARM :: "pystr list" where
  "NO_ARM = [u ''env'', u ''secret_path'']"

definition FOLDED_CONCRETE :: "pystr list" where
  "FOLDED_CONCRETE = [u ''bindings.ro'', u ''bindings.rw'']"

definition FOLDED_ABSTRACT_MOUNT :: "pystr list" where
  "FOLDED_ABSTRACT_MOUNT = [u ''caches'', u ''common'']"

record store_shape =
  ro :: "(pystr \<times> bind_entry) list"
  rw :: "(pystr \<times> bind_entry) list"
  mask :: "(pystr \<times> bool) list"
  seed :: "(pystr \<times> bind_entry) list"
  sync :: "(pystr \<times> bind_entry) list"

definition empty_shape :: store_shape where
  "empty_shape = \<lparr>ro = [], rw = [], mask = [], seed = [], sync = []\<rparr>"

record category_collision =
  cdest :: pystr
  cscope :: pystr
  winner_key :: pystr
  loser_keys :: "pystr list"

datatype shape_error =
    UnknownScope pystr pystr
  | NoStoreShapeArm pystr pystr
  | NoHostSource pystr arm
  | Contested category_error

definition arm_of :: "category_entry \<Rightarrow> shape_error + arm option" where
  "arm_of e =
     (if category e \<in> set NO_ARM then Inr None
      else (case map_of ARM (category e) of
              None \<Rightarrow> Inl (NoStoreShapeArm (elabel e) (category e))
            | Some a \<Rightarrow> Inr (Some a)))"

section \<open>Within one scope\<close>

type_synonym indexed = "nat \<times> category_entry"

definition in_categories :: "pystr list \<Rightarrow> indexed \<Rightarrow> bool" where
  "in_categories cats x \<longleftrightarrow> category (snd x) \<in> set cats"

text \<open>\<open>any(e is k for k in kept)\<close>.\<close>

definition is_among :: "indexed list \<Rightarrow> indexed \<Rightarrow> bool" where
  "is_among ks x \<longleftrightarrow> fst x \<in> fst ` set ks"

definition within_scope_survivors ::
    "pystr \<Rightarrow> indexed list \<Rightarrow> shape_error + indexed list \<times> category_collision list" where
  "within_scope_survivors dest grp =
     (let concrete = filter (in_categories FOLDED_CONCRETE) grp;
          abstract = filter (in_categories FOLDED_ABSTRACT_MOUNT) grp
      in if length concrete > 1 then Inl (Contested (BindingVsBinding dest (map snd concrete)))
         else if concrete \<noteq> [] \<and> abstract \<noteq> []
         then Inl (Contested (ExtensionOntoOccupied dest (snd (last abstract)) (snd (last concrete))))
         else if length abstract < 2 then Inr (grp, [])
         else (let winner = last abstract; losers = butlast abstract in
           Inr (filter (\<lambda>x. \<not> is_among losers x) grp,
             [\<lparr>cdest = dest, cscope = scope (snd winner), winner_key = elabel (snd winner),
               loser_keys = map (\<lambda>x. elabel (snd x)) losers\<rparr>])))"

definition survivors_step ::
    "pystr \<times> indexed list \<Rightarrow> indexed list \<times> category_collision list
       \<Rightarrow> shape_error + indexed list \<times> category_collision list" where
  "survivors_step dg st =
     bindE (within_scope_survivors (fst dg) (snd dg)) (\<lambda>(kept, ws).
       Inr (fst st @ filter (\<lambda>x. \<not> is_among kept x) (snd dg), snd st @ ws))"

definition scope_survivors ::
    "category_entry list \<Rightarrow> shape_error + category_entry list \<times> category_collision list" where
  "scope_survivors entries =
     (let xs = List.enumerate 0 entries in
      bindE (foldE survivors_step (group_by (\<lambda>x. box_dest (snd x)) xs) ([], [])) (\<lambda>(losers, ws).
        Inr (map snd (filter (\<lambda>x. \<not> is_among losers x) xs), ws)))"

text \<open>
  One survivor into its arm. Every entry handed over has an arm; the last branch is the
  \<open>KeyError\<close> of \<open>_ARM[entry.category]\<close>.
\<close>

definition fold_entry :: "category_entry \<Rightarrow> store_shape \<Rightarrow> shape_error + store_shape" where
  "fold_entry e sh =
     (case map_of ARM (category e) of
        None \<Rightarrow> Inl (NoStoreShapeArm (elabel e) (category e))
      | Some ArmMask \<Rightarrow> Inr (sh\<lparr>mask := dict_set (box_dest e) True (mask sh)\<rparr>)
      | Some a \<Rightarrow>
          (case host_src e of
             None \<Rightarrow> Inl (NoHostSource (elabel e) a)
           | Some h \<Rightarrow>
               (let bind = \<lparr>bsrc = h, bopt = Some (options e)\<rparr> in
                Inr (case a of
                       ArmSeed \<Rightarrow> sh\<lparr>seed := seed sh @ [(box_dest e, bind)]\<rparr>
                     | ArmSync \<Rightarrow> sh\<lparr>sync := sync sh @ [(box_dest e, bind)]\<rparr>
                     | ArmRo \<Rightarrow> sh\<lparr>ro := dict_set (box_dest e) bind (ro sh)\<rparr>
                     | _ \<Rightarrow> sh\<lparr>rw := dict_set (box_dest e) bind (rw sh)\<rparr>))))"

definition build_store_shape ::
    "category_entry list \<Rightarrow> shape_error + store_shape \<times> category_collision list" where
  "build_store_shape entries =
     bindE (scope_survivors entries) (\<lambda>(survivors, warnings).
     bindE (foldE fold_entry survivors empty_shape) (\<lambda>shape. Inr (shape, warnings)))"

section \<open>Every scope\<close>

record store_shape_set =
  shapes :: "(pystr \<times> store_shape) list"
  warnings :: "category_collision list"

definition check_scope_entry :: "category_entry \<Rightarrow> unit \<Rightarrow> shape_error + unit" where
  "check_scope_entry e _ =
     (if scope e \<notin> set SCOPE_CONTAINMENT then Inl (UnknownScope (elabel e) (scope e))
      else bindE (arm_of e) (\<lambda>_. Inr ()))"

definition has_arm :: "category_entry \<Rightarrow> bool" where
  "has_arm e \<longleftrightarrow> (case arm_of e of Inr (Some _) \<Rightarrow> True | _ \<Rightarrow> False)"

definition scope_entries :: "category_entry list \<Rightarrow> pystr \<Rightarrow> category_entry list" where
  "scope_entries entries sc = filter (\<lambda>e. scope e = sc \<and> has_arm e) entries"

definition add_scope_shape ::
    "category_entry list \<Rightarrow> pystr \<Rightarrow> store_shape_set \<Rightarrow> shape_error + store_shape_set" where
  "add_scope_shape entries sc acc =
     bindE (build_store_shape (scope_entries entries sc)) (\<lambda>(shape, ws).
       Inr \<lparr>shapes = dict_set sc shape (shapes acc), warnings = warnings acc @ ws\<rparr>)"

definition build_store_shape_set :: "category_entry list \<Rightarrow> shape_error + store_shape_set" where
  "build_store_shape_set entries =
     bindE (foldE check_scope_entry entries ()) (\<lambda>_.
       foldE (add_scope_shape entries) SCOPE_CONTAINMENT \<lparr>shapes = [], warnings = []\<rparr>)"

text \<open>\<open>store_shape_set[scope]\<close>; a scope it does not hold is not asked for.\<close>

definition shape_at :: "store_shape_set \<Rightarrow> pystr \<Rightarrow> store_shape" where
  "shape_at sss sc = (case map_of (shapes sss) sc of Some sh \<Rightarrow> sh | None \<Rightarrow> empty_shape)"

section \<open>The within-scope rules\<close>

text \<open>The entries the rules drop: an abstraction with a later one at its destination.\<close>

definition superseded :: "indexed list \<Rightarrow> indexed \<Rightarrow> bool" where
  "superseded xs x \<longleftrightarrow> in_categories FOLDED_ABSTRACT_MOUNT x \<and>
     (\<exists>y \<in> set xs. in_categories FOLDED_ABSTRACT_MOUNT y \<and> box_dest (snd y) = box_dest (snd x) \<and> fst x < fst y)"

definition contested :: "category_entry list \<Rightarrow> pystr \<Rightarrow> bool" where
  "contested entries d \<longleftrightarrow>
     (let concrete = filter (\<lambda>e. box_dest e = d \<and> category e \<in> set FOLDED_CONCRETE) entries
      in length concrete > 1 \<or>
         concrete \<noteq> [] \<and> list_ex (\<lambda>e. box_dest e = d \<and> category e \<in> set FOLDED_ABSTRACT_MOUNT) entries)"

abbreviation ascending :: "indexed list \<Rightarrow> bool" where
  "ascending xs \<equiv> sorted_wrt (\<lambda>x y. fst x < fst y) xs"

lemma ascending_enumerate: "ascending (List.enumerate n es)"
  by (induction es arbitrary: n) (auto simp: in_set_enumerate_eq)

lemma ascending_filter: "ascending xs \<Longrightarrow> ascending (filter P xs)"
  by (rule sorted_wrt_filter)

lemma ascending_inj: "ascending xs \<Longrightarrow> x \<in> set xs \<Longrightarrow> y \<in> set xs \<Longrightarrow> fst x = fst y \<Longrightarrow> x = y"
  by (induction xs) auto

lemma butlast_ascending:
  "ascending zs \<Longrightarrow> x \<in> set (butlast zs) \<longleftrightarrow> x \<in> set zs \<and> (\<exists>y \<in> set zs. fst x < fst y)"
  by (cases zs rule: rev_cases) (auto simp: sorted_wrt_append)

lemma is_among_self:
  "ascending xs \<Longrightarrow> set ks \<subseteq> set xs \<Longrightarrow> x \<in> set xs \<Longrightarrow> is_among ks x \<longleftrightarrow> x \<in> set ks"
proof
  assume *: "ascending xs" "set ks \<subseteq> set xs" "x \<in> set xs" "is_among ks x"
  then obtain k where "k \<in> set ks" "fst x = fst k" by (auto simp only: is_among_def image_iff)
  with * ascending_inj [of xs x k] show "x \<in> set ks" by blast
qed (simp add: is_among_def)

lemma within_scope_Inr:
  assumes w: "within_scope_survivors d g = Inr (kept, ws)" and asc: "ascending g"
  shows "length (filter (in_categories FOLDED_CONCRETE) g) \<le> 1"
    and "filter (in_categories FOLDED_CONCRETE) g = [] \<or> filter (in_categories FOLDED_ABSTRACT_MOUNT) g = []"
    and "set kept = {x \<in> set g. \<not> (in_categories FOLDED_ABSTRACT_MOUNT x \<and>
      (\<exists>y \<in> set g. in_categories FOLDED_ABSTRACT_MOUNT y \<and> fst x < fst y))}"
proof -
  let ?c = "filter (in_categories FOLDED_CONCRETE) g" and ?a = "filter (in_categories FOLDED_ABSTRACT_MOUNT) g"
  show "length ?c \<le> 1" "?c = [] \<or> ?a = []"
    using w by (auto simp: within_scope_survivors_def Let_def split: if_splits)
  have b: "x \<in> set (butlast ?a) \<longleftrightarrow> x \<in> set ?a \<and> (\<exists>y \<in> set ?a. fst x < fst y)" for x
    by (rule butlast_ascending [OF ascending_filter [OF asc]])
  have among: "x \<in> set g \<Longrightarrow> is_among (butlast ?a) x \<longleftrightarrow> x \<in> set (butlast ?a)" for x
    by (rule is_among_self [OF asc]) (auto dest: in_set_butlastD)
  show "set kept = {x \<in> set g. \<not> (in_categories FOLDED_ABSTRACT_MOUNT x \<and>
      (\<exists>y \<in> set g. in_categories FOLDED_ABSTRACT_MOUNT y \<and> fst x < fst y))}"
  proof (cases "length ?a < 2")
    case True
    then have "butlast ?a = []" by (cases ?a; cases "tl ?a") auto
    with b have "\<not> (x \<in> set ?a \<and> (\<exists>y \<in> set ?a. fst x < fst y))" for x by simp
    moreover have "kept = g"
      using w True by (auto simp: within_scope_survivors_def Let_def split: if_splits)
    ultimately show ?thesis by auto
  next
    case False
    then have "kept = filter (\<lambda>x. \<not> is_among (butlast ?a) x) g"
      using w by (auto simp: within_scope_survivors_def Let_def split: if_splits)
    then have "set kept = {x \<in> set g. x \<notin> set (butlast ?a)}" using among by auto
    then show ?thesis unfolding b by auto
  qed
qed

lemma survivors_loop:
  "foldE survivors_step gs st = Inr (losers, ws) \<Longrightarrow>
   (\<forall>dg \<in> set gs. \<exists>kept w. within_scope_survivors (fst dg) (snd dg) = Inr (kept, w)) \<and>
   set losers = set (fst st) \<union> {x. \<exists>dg \<in> set gs. \<exists>kept w.
     within_scope_survivors (fst dg) (snd dg) = Inr (kept, w) \<and> x \<in> set (snd dg) \<and> \<not> is_among kept x}"
proof (induction gs arbitrary: st)
  case (Cons dg gs)
  from Cons.prems obtain st' where st': "survivors_step dg st = Inr st'"
    and fold: "foldE survivors_step gs st' = Inr (losers, ws)"
    by (auto simp: result_simps)
  from st' obtain kept w where k: "within_scope_survivors (fst dg) (snd dg) = Inr (kept, w)"
    and "st' = (fst st @ filter (\<lambda>x. \<not> is_among kept x) (snd dg), snd st @ w)"
    by (auto simp: survivors_step_def result_simps)
  with fold have rest: "foldE survivors_step gs
      (fst st @ filter (\<lambda>x. \<not> is_among kept x) (snd dg), snd st @ w) = Inr (losers, ws)" by simp
  from Cons.IH [OF rest] k show ?case by auto
qed simp

lemma survivors_loop_succeeds:
  "(\<forall>dg \<in> set gs. \<exists>kw. within_scope_survivors (fst dg) (snd dg) = Inr kw) \<Longrightarrow>
   \<exists>r. foldE survivors_step gs st = Inr r"
proof (induction gs arbitrary: st)
  case (Cons dg gs)
  then obtain kept w where "within_scope_survivors (fst dg) (snd dg) = Inr (kept, w)" by fastforce
  with Cons show ?case by (simp add: survivors_step_def)
qed simp

lemma in_categories_enumerate:
  "map snd (filter (\<lambda>x. P (snd x)) (List.enumerate n es)) = filter P es"
  by (induction es arbitrary: n) auto

lemma group_concrete:
  "length (filter (in_categories cats) (filter (\<lambda>x. box_dest (snd x) = d) (List.enumerate 0 es)))
   = length (filter (\<lambda>e. box_dest e = d \<and> category e \<in> set cats) es)"
proof -
  have "map snd (filter (in_categories cats) (filter (\<lambda>x. box_dest (snd x) = d) (List.enumerate 0 es)))
      = filter (\<lambda>e. box_dest e = d \<and> category e \<in> set cats) es"
    using in_categories_enumerate [of "\<lambda>e. box_dest e = d \<and> category e \<in> set cats" 0 es]
    by (simp add: in_categories_def)
  from arg_cong [OF this, of length] show ?thesis by simp
qed

definition group_ok :: "indexed list \<Rightarrow> bool" where
  "group_ok g \<longleftrightarrow> length (filter (in_categories FOLDED_CONCRETE) g) \<le> 1 \<and>
     (length (filter (in_categories FOLDED_CONCRETE) g) = 0 \<or>
      length (filter (in_categories FOLDED_ABSTRACT_MOUNT) g) = 0)"

lemma contested_group:
  "contested es d \<longleftrightarrow> \<not> group_ok (filter (\<lambda>x. box_dest (snd x) = d) (List.enumerate 0 es))"
proof -
  let ?n = "\<lambda>cats. length (filter (\<lambda>e. box_dest e = d \<and> category e \<in> set cats) es)"
  have "list_ex (\<lambda>e. box_dest e = d \<and> category e \<in> set FOLDED_ABSTRACT_MOUNT) es \<longleftrightarrow>
      ?n FOLDED_ABSTRACT_MOUNT \<noteq> 0"
    by (auto simp: list_ex_iff filter_empty_conv)
  then have "contested es d \<longleftrightarrow> 1 < ?n FOLDED_CONCRETE \<or> ?n FOLDED_CONCRETE \<noteq> 0 \<and> ?n FOLDED_ABSTRACT_MOUNT \<noteq> 0"
    unfolding contested_def Let_def by (simp only: length_0_conv)
  then show ?thesis unfolding group_ok_def group_concrete by linarith
qed

lemma group_ok_iff: "group_ok g \<longleftrightarrow> (\<exists>kw. within_scope_survivors d g = Inr kw)"
  by (auto simp: group_ok_def within_scope_survivors_def Let_def)

lemma scope_survivors_Inr:
  assumes "scope_survivors es = Inr (survivors, ws)"
  shows "\<not> contested es d"
    and "survivors = map snd (filter (\<lambda>x. \<not> superseded (List.enumerate 0 es) x) (List.enumerate 0 es))"
proof -
  let ?xs = "List.enumerate 0 es" and ?gs = "group_by (\<lambda>x. box_dest (snd x)) (List.enumerate 0 es)"
  from assms obtain losers where l: "foldE survivors_step ?gs ([], []) = Inr (losers, ws)"
    and s: "survivors = map snd (filter (\<lambda>x. \<not> is_among losers x) ?xs)"
    by (auto simp: scope_survivors_def Let_def result_simps)
  note loop = survivors_loop [OF l, THEN conjunct1, rule_format] survivors_loop [OF l, THEN conjunct2]
  have grp: "g = filter (\<lambda>x. box_dest (snd x) = k) ?xs" "ascending g" if "(k, g) \<in> set ?gs" for k g
    using that by (auto simp: group_by_entry ascending_filter ascending_enumerate)
  show "\<not> contested es d"
  proof
    assume c: "contested es d"
    let ?g = "filter (\<lambda>x. box_dest (snd x) = d) ?xs"
    have "?g \<noteq> []" using c unfolding contested_group by (intro notI) (simp add: group_ok_def)
    then have "d \<in> (\<lambda>x. box_dest (snd x)) ` set ?xs" unfolding filter_empty_conv by blast
    then have "(d, ?g) \<in> set ?gs" by (simp add: group_by_entry)
    from loop(1) [OF this] have "group_ok ?g" unfolding group_ok_iff [of ?g d] by auto
    with c show False unfolding contested_group by (rule notE)
  qed
  have "is_among losers x \<longleftrightarrow> superseded ?xs x" if x: "x \<in> set ?xs" for x
  proof -
    have "set g \<subseteq> set ?xs" if "(k, g) \<in> set ?gs" for k g using grp(1) [OF that] by auto
    then have sub: "set losers \<subseteq> set ?xs" unfolding loop(2) by fastforce
    let ?d = "box_dest (snd x)"
    let ?g = "filter (\<lambda>y. box_dest (snd y) = ?d) ?xs"
    have gin: "(?d, ?g) \<in> set ?gs" using x by (auto simp: group_by_entry)
    have asc: "ascending ?g" by (intro ascending_filter ascending_enumerate)
    obtain kept w where k: "within_scope_survivors ?d ?g = Inr (kept, w)"
      using loop(1) [OF gin] by auto
    have "set kept \<subseteq> set ?g" using within_scope_Inr(3) [OF k asc] by auto
    then have am: "is_among kept x \<longleftrightarrow> x \<in> set kept" using is_among_self [OF asc] x by simp
    have "is_among losers x \<longleftrightarrow> x \<in> set losers"
      by (rule is_among_self [OF ascending_enumerate sub x])
    also have "\<dots> \<longleftrightarrow> \<not> is_among kept x"
    proof
      assume "x \<in> set losers"
      then obtain k' g' kept' w' where *: "(k', g') \<in> set ?gs"
        "within_scope_survivors k' g' = Inr (kept', w')" "x \<in> set g'" "\<not> is_among kept' x"
        using loop(2) by auto
      then have "k' = ?d" "g' = ?g" using grp(1) [OF *(1)] by auto
      with * k show "\<not> is_among kept x" by simp
    next
      assume "\<not> is_among kept x"
      moreover have "x \<in> set ?g" using x by simp
      ultimately show "x \<in> set losers" unfolding loop(2) using gin k by (auto intro!: bexI [OF _ gin])
    qed
    finally show ?thesis
      using am within_scope_Inr(3) [OF k asc] x by (auto simp: superseded_def)
  qed
  then show "survivors = map snd (filter (\<lambda>x. \<not> superseded ?xs x) ?xs)"
    unfolding s by (intro arg_cong [where f = "map snd"] filter_cong) auto
qed

lemma scope_survivors_succeeds:
  assumes "\<And>d. \<not> contested es d" shows "\<exists>r. scope_survivors es = Inr r"
proof -
  let ?gs = "group_by (\<lambda>x. box_dest (snd x)) (List.enumerate 0 es)"
  have "\<exists>kw. within_scope_survivors (fst dg) (snd dg) = Inr kw" if dg: "dg \<in> set ?gs" for dg
  proof -
    from dg have "snd dg = filter (\<lambda>x. box_dest (snd x) = fst dg) (List.enumerate 0 es)"
      using group_by_entry [of "fst dg" "snd dg"] by simp
    with assms [of "fst dg"] have "group_ok (snd dg)" by (simp add: contested_group)
    then show ?thesis unfolding group_ok_iff [of "snd dg" "fst dg"] .
  qed
  with survivors_loop_succeeds [of ?gs "([], [])"]
  obtain r where "foldE survivors_step ?gs ([], []) = Inr r" by blast
  then show ?thesis by (cases r) (simp add: scope_survivors_def Let_def)
qed

text \<open>
  Two mounts at one destination in one scope are refused, but for one pair: the within-scope
  rules pass a scope exactly when no destination has two concrete bindings, or a concrete binding
  and an abstraction deriving one. \<open>caches\<close> and \<open>common\<close> may meet.
\<close>

theorem scope_survivors_iff:
  "(\<exists>r. scope_survivors entries = Inr r) \<longleftrightarrow> (\<nexists>d. contested entries d)"
  using scope_survivors_Inr(1) scope_survivors_succeeds by (metis surj_pair)

section \<open>The arms\<close>

definition bind_of :: "category_entry \<Rightarrow> bind_entry" where
  "bind_of e = \<lparr>bsrc = the (host_src e), bopt = Some (options e)\<rparr>"

definition rows :: "pystr list \<Rightarrow> category_entry list \<Rightarrow> (pystr \<times> bind_entry) list" where
  "rows cats es = map (\<lambda>e. (box_dest e, bind_of e)) (filter (\<lambda>e. category e \<in> set cats) es)"

abbreviation rw_categories :: "pystr list" where
  "rw_categories \<equiv> [u ''bindings.rw'', u ''caches'', u ''common'']"

lemma rows_simps [simp]:
  "rows cats [] = []"
  "rows cats (e # es) = (if category e \<in> set cats then [(box_dest e, bind_of e)] else []) @ rows cats es"
  by (simp_all add: rows_def)

lemma arm_category:
  "map_of ARM c = Some ArmSeed \<longleftrightarrow> c = u ''seeded''"
  "map_of ARM c = Some ArmSync \<longleftrightarrow> c = u ''synced''"
  "map_of ARM c = Some ArmMask \<longleftrightarrow> c = u ''masks''"
  "map_of ARM c = Some ArmRo \<longleftrightarrow> c = u ''bindings.ro''"
  "map_of ARM c = Some ArmRw \<longleftrightarrow> c \<in> set rw_categories"
  by (auto simp: ARM_def u_def split: if_splits)

lemma fold_entry_rows:
  assumes "fold_entry e sh = Inr sh'"
  shows "seed sh' = seed sh @ rows [u ''seeded''] [e]"
    and "sync sh' = sync sh @ rows [u ''synced''] [e]"
    and "map_of (ro sh') = map_of (ro sh) ++ map_of (rows [u ''bindings.ro''] [e])"
    and "map_of (rw sh') = map_of (rw sh) ++ map_of (rows rw_categories [e])"
    and "set (dict_keys (mask sh')) = set (dict_keys (mask sh)) \<union> (if category e = u ''masks'' then {box_dest e} else {})"
proof -
  from assms obtain a where a: "map_of ARM (category e) = Some a"
    by (auto simp: fold_entry_def split: option.splits)
  have c: "category e \<in> set [u ''seeded''] \<longleftrightarrow> a = ArmSeed" "category e \<in> set [u ''synced''] \<longleftrightarrow> a = ArmSync"
    "category e = u ''masks'' \<longleftrightarrow> a = ArmMask" "category e \<in> set [u ''bindings.ro''] \<longleftrightarrow> a = ArmRo"
    "category e \<in> set rw_categories \<longleftrightarrow> a = ArmRw"
    unfolding set_simps singleton_iff using a arm_category [of "category e"] by auto
  show "seed sh' = seed sh @ rows [u ''seeded''] [e]"
    and "sync sh' = sync sh @ rows [u ''synced''] [e]"
    and "map_of (ro sh') = map_of (ro sh) ++ map_of (rows [u ''bindings.ro''] [e])"
    and "map_of (rw sh') = map_of (rw sh) ++ map_of (rows rw_categories [e])"
    and "set (dict_keys (mask sh')) = set (dict_keys (mask sh)) \<union> (if category e = u ''masks'' then {box_dest e} else {})"
    unfolding rows_simps c
    using assms a by (cases a; cases "host_src e"; clarsimp simp: fold_entry_def bind_of_def)+
qed

lemma fold_rows:
  "foldE fold_entry es sh = Inr sh' \<Longrightarrow>
   seed sh' = seed sh @ rows [u ''seeded''] es \<and> sync sh' = sync sh @ rows [u ''synced''] es \<and>
   map_of (ro sh') = map_of (ro sh) ++ map_of (rev (rows [u ''bindings.ro''] es)) \<and>
   map_of (rw sh') = map_of (rw sh) ++ map_of (rev (rows rw_categories es)) \<and>
   set (dict_keys (mask sh')) = set (dict_keys (mask sh)) \<union> box_dest ` {e \<in> set es. category e = u ''masks''}"
proof (induction es arbitrary: sh)
  case (Cons e es)
  then obtain sh1 where s: "fold_entry e sh = Inr sh1" "foldE fold_entry es sh1 = Inr sh'"
    by (auto simp: result_simps)
  note one = fold_entry_rows [OF s(1)] and rest = Cons.IH [OF s(2)]
  have rev: "map_of (rev (rows cats (e # es))) = map_of (rows cats [e]) ++ map_of (rev (rows cats es))"
    and app: "rows cats (e # es) = rows cats [e] @ rows cats es" for cats
    by simp_all
  have mask: "box_dest ` {x \<in> set (e # es). category x = u ''masks''} =
      (if category e = u ''masks'' then {box_dest e} else {}) \<union> box_dest ` {x \<in> set es. category x = u ''masks''}"
    by auto
  show ?case
    using rest unfolding one rev mask app [of "[u ''seeded'']"] app [of "[u ''synced'']"]
    by (simp only: append_assoc map_add_assoc Un_assoc simp_thms)
qed simp

lemma filter_survivors:
  assumes "\<And>e. P e \<Longrightarrow> category e \<notin> set FOLDED_ABSTRACT_MOUNT"
  shows "filter P (map snd (filter (\<lambda>x. \<not> superseded xs x) ys)) = filter P (map snd ys)"
proof -
  have "filter (\<lambda>x. P (snd x)) (filter (\<lambda>x. \<not> superseded xs x) ys) = filter (\<lambda>x. P (snd x)) ys"
    unfolding filter_filter
    by (intro filter_cong refl) (auto simp: superseded_def in_categories_def dest: assms)
  then show ?thesis by (simp add: filter_map comp_def)
qed

lemma category_survivors:
  assumes "set cats \<inter> set FOLDED_ABSTRACT_MOUNT = {}" "scope_survivors es = Inr (survivors, ws)"
  shows "filter (\<lambda>e. category e \<in> set cats) survivors = filter (\<lambda>e. category e \<in> set cats) es"
  unfolding scope_survivors_Inr(2) [OF assms(2)]
  by (subst filter_survivors) (use assms(1) in auto)

lemma rows_survivors:
  assumes "set cats \<inter> set FOLDED_ABSTRACT_MOUNT = {}" "scope_survivors es = Inr (survivors, ws)"
  shows "rows cats survivors = rows cats es"
  unfolding rows_def category_survivors [OF assms] by (rule refl)

text \<open>Removing the superseded ones does not change which row is last at a destination.\<close>

lemma map_of_rev_rows:
  "map_of (rev (rows cats es)) d =
     (let hs = filter (\<lambda>e. category e \<in> set cats \<and> box_dest e = d) es in
      if hs = [] then None else Some (bind_of (last hs)))"
proof (induction es rule: rev_induct)
  case (snoc e es)
  then show ?case by (auto simp: rows_def Let_def)
qed simp

lemma map_of_rows_once:
  assumes "\<And>d. length (filter (\<lambda>e. category e \<in> set cats \<and> box_dest e = d) es) \<le> 1"
  shows "map_of (rows cats es) = map_of (rev (rows cats es))"
proof -
  have "distinct (map fst (rows cats es))"
    using assms
  proof (induction es)
    case (Cons e es)
    have "length (filter (\<lambda>e. category e \<in> set cats \<and> box_dest e = d) es) \<le> 1" for d
      using Cons.prems [of d] by (simp split: if_splits)
    with Cons.IH have "distinct (map fst (rows cats es))" by blast
    moreover have "category e \<in> set cats \<Longrightarrow> box_dest e \<notin> fst ` set (rows cats es)"
      using Cons.prems [of "box_dest e"] by (auto simp: rows_def filter_empty_conv)
    ultimately show ?case by simp
  qed simp
  then show ?thesis by (rule map_of_rev_distinct)
qed

lemma last_survivor:
  assumes asc: "ascending ys"
    and all: "\<And>y. y \<in> set xs \<Longrightarrow> in_categories FOLDED_ABSTRACT_MOUNT y \<Longrightarrow> box_dest (snd y) = d \<Longrightarrow> y \<in> set ys"
    and d: "\<And>y. y \<in> set ys \<Longrightarrow> box_dest (snd y) = d"
    and ne: "ys \<noteq> []"
  shows "filter (\<lambda>x. \<not> superseded xs x) ys \<noteq> []"
    and "last (filter (\<lambda>x. \<not> superseded xs x) ys) = last ys"
proof -
  have "\<not> superseded xs (last ys)"
  proof
    assume s: "superseded xs (last ys)"
    then obtain y where y: "y \<in> set xs" "in_categories FOLDED_ABSTRACT_MOUNT y"
      "box_dest (snd y) = box_dest (snd (last ys))" "fst (last ys) < fst y"
      by (auto simp: superseded_def)
    have "y \<in> set ys" using all [OF y(1,2)] y(3) d [of "last ys"] ne by simp
    have "fst y \<le> fst (last ys)"
      using \<open>y \<in> set ys\<close> asc by (cases ys rule: rev_cases) (auto simp: sorted_wrt_append)
    with y(4) show False by simp
  qed
  with ne show "filter (\<lambda>x. \<not> superseded xs x) ys \<noteq> []"
    "last (filter (\<lambda>x. \<not> superseded xs x) ys) = last ys"
    by (cases ys rule: rev_cases; auto)+
qed

lemma rw_survivors:
  assumes "scope_survivors es = Inr (survivors, ws)"
  shows "map_of (rev (rows rw_categories survivors)) d = map_of (rev (rows rw_categories es)) d"
proof -
  let ?P = "\<lambda>e. category e \<in> set rw_categories \<and> box_dest e = d"
  let ?xs = "List.enumerate 0 es"
  define ys where "ys = filter (\<lambda>x. ?P (snd x)) ?xs"
  let ?zs = "filter (\<lambda>x. \<not> superseded ?xs x) ys"
  have e: "filter ?P es = map snd ys"
    using in_categories_enumerate [of ?P 0 es] by (simp add: ys_def)
  have s: "filter ?P survivors = map snd ?zs"
    unfolding scope_survivors_Inr(2) [OF assms] ys_def filter_map comp_def
    by (rule arg_cong [where f = "map snd"], rule filter_swap)
  have "(?zs = [] \<longleftrightarrow> ys = []) \<and> (ys \<noteq> [] \<longrightarrow> last ?zs = last ys)"
  proof (cases "ys = []")
    case False
    have "ascending ys" unfolding ys_def by (intro ascending_filter ascending_enumerate)
    moreover have "y \<in> set ys" if "y \<in> set ?xs" "in_categories FOLDED_ABSTRACT_MOUNT y" "box_dest (snd y) = d" for y
      using that by (auto simp: ys_def in_categories_def FOLDED_ABSTRACT_MOUNT_def)
    moreover have "box_dest (snd y) = d" if "y \<in> set ys" for y using that by (simp add: ys_def)
    ultimately have "?zs \<noteq> []" "last ?zs = last ys"
      using last_survivor [OF _ _ _ False, of ?xs d] by blast+
    with False show ?thesis by simp
  qed simp
  then show ?thesis
    unfolding map_of_rev_rows Let_def e s by (auto simp: last_map)
qed

lemma masks_survive:
  assumes "scope_survivors es = Inr (survivors, ws)"
  shows "{e \<in> set survivors. category e = u ''masks''} = {e \<in> set es. category e = u ''masks''}"
proof -
  have "set [u ''masks''] \<inter> set FOLDED_ABSTRACT_MOUNT = {}" by (simp add: FOLDED_ABSTRACT_MOUNT_def u_def)
  from arg_cong [OF category_survivors [OF this assms], of set] show ?thesis by simp
qed

lemma uncontested_concrete:
  assumes "\<not> contested es d" "a \<in> set es" "b \<in> set es" "box_dest a = d" "box_dest b = d"
    and "category a \<in> set FOLDED_CONCRETE"
  shows "category b \<in> set FOLDED_CONCRETE \<Longrightarrow>
      filter (\<lambda>e. box_dest e = d \<and> category e \<in> set FOLDED_CONCRETE) es = [a] \<and> a = b"
    and "category b \<notin> set FOLDED_ABSTRACT_MOUNT"
proof -
  let ?c = "filter (\<lambda>e. box_dest e = d \<and> category e \<in> set FOLDED_CONCRETE) es"
  have "a \<in> set ?c" using assms by simp
  moreover from assms(1) have "length ?c \<le> 1" by (simp add: contested_def Let_def)
  ultimately have "?c = [a]" by (cases ?c; cases "tl ?c") auto
  moreover have "category b \<in> set FOLDED_CONCRETE \<Longrightarrow> b \<in> set ?c" using assms by simp
  ultimately show "category b \<in> set FOLDED_CONCRETE \<Longrightarrow> ?c = [a] \<and> a = b" by simp
  have "?c \<noteq> []" using \<open>?c = [a]\<close> by simp
  then show "category b \<notin> set FOLDED_ABSTRACT_MOUNT"
    using assms(1,3,5) by (auto simp: contested_def Let_def list_ex_iff)
qed

lemma build_shape_copies:
  assumes "build_store_shape entries = Inr (sh, ws)"
  shows "seed sh = rows [u ''seeded''] entries" "sync sh = rows [u ''synced''] entries"
proof -
  from assms obtain survivors where s: "scope_survivors entries = Inr (survivors, ws)"
    and f: "foldE fold_entry survivors empty_shape = Inr sh"
    by (auto simp: build_store_shape_def result_simps)
  have "rows cats survivors = rows cats entries" if "set cats \<inter> set FOLDED_ABSTRACT_MOUNT = {}" for cats
    by (rule rows_survivors [OF that s])
  from this [of "[u ''seeded'']"] this [of "[u ''synced'']"]
  show "seed sh = rows [u ''seeded''] entries" "sync sh = rows [u ''synced''] entries"
    using fold_rows [OF f, unfolded empty_shape_def, simplified]
    by (auto simp: FOLDED_ABSTRACT_MOUNT_def u_def)
qed

text \<open>
  C35. What each arm of a successful shape holds: the two copy arms hold every declared row in
  declaration order, duplicates kept; the mask arm the mask destinations; the read-only arm the
  one concrete binding of each destination; the read-write arm, at each destination, the last
  row that folds into it; and no destination is in both bind arms.
\<close>

theorem build_store_shape_arms:
  assumes "build_store_shape entries = Inr (sh, ws)"
  shows "seed sh = rows [u ''seeded''] entries \<and> sync sh = rows [u ''synced''] entries \<and>
    set (dict_keys (mask sh)) = box_dest ` {e \<in> set entries. category e = u ''masks''} \<and>
    map_of (ro sh) = map_of (rows [u ''bindings.ro''] entries) \<and>
    map_of (rw sh) = map_of (rev (rows rw_categories entries)) \<and>
    set (dict_keys (ro sh)) \<inter> set (dict_keys (rw sh)) = {}"
proof -
  from assms obtain survivors where s: "scope_survivors entries = Inr (survivors, ws)"
    and f: "foldE fold_entry survivors empty_shape = Inr sh"
    by (auto simp: build_store_shape_def result_simps)
  note arms = fold_rows [OF f, unfolded empty_shape_def, simplified]
  have rows: "rows cats survivors = rows cats entries" if "set cats \<inter> set FOLDED_ABSTRACT_MOUNT = {}" for cats
    by (rule rows_survivors [OF that s])
  have ro: "map_of (ro sh) = map_of (rev (rows [u ''bindings.ro''] entries))"
    using arms rows [of "[u ''bindings.ro'']"] by (auto simp: FOLDED_ABSTRACT_MOUNT_def u_def)
  have rw: "map_of (rw sh) = map_of (rev (rows rw_categories entries))"
    using arms rw_survivors [OF s] by (auto intro!: ext)
  have free: "\<not> contested entries d" for d by (rule scope_survivors_Inr(1) [OF s])
  have once: "length (filter (\<lambda>e. category e \<in> set [u ''bindings.ro''] \<and> box_dest e = d) entries) \<le> 1" for d
  proof -
    have "length (filter (\<lambda>e. box_dest e = d \<and> category e \<in> set FOLDED_CONCRETE) entries) \<le> 1"
      using free [of d] by (simp add: contested_def Let_def)
    moreover have "length (filter (\<lambda>e. category e \<in> set [u ''bindings.ro''] \<and> box_dest e = d) entries) \<le>
        length (filter (\<lambda>e. box_dest e = d \<and> category e \<in> set FOLDED_CONCRETE) entries)"
      by (induction entries) (auto simp: FOLDED_CONCRETE_def)
    ultimately show ?thesis by simp
  qed
  have "map_of (rows [u ''bindings.ro''] entries) = map_of (rev (rows [u ''bindings.ro''] entries))"
    using once by (rule map_of_rows_once)
  moreover have "set (dict_keys (ro sh)) \<inter> set (dict_keys (rw sh)) = {}"
  proof (rule ccontr)
    assume "set (dict_keys (ro sh)) \<inter> set (dict_keys (rw sh)) \<noteq> {}"
    then obtain d where d: "map_of (ro sh) d \<noteq> None" "map_of (rw sh) d \<noteq> None"
      by (auto simp: map_of_eq_None_iff)
    then obtain a b where ab: "a \<in> set entries" "category a = u ''bindings.ro''" "box_dest a = d"
      "b \<in> set entries" "category b \<in> set rw_categories" "box_dest b = d"
      by (auto simp: ro rw map_of_eq_None_iff rows_def)
    have "category a \<in> set FOLDED_CONCRETE" using ab(2) by (simp add: FOLDED_CONCRETE_def)
    from uncontested_concrete [OF free [of d] ab(1,4,3,6) this] ab(2,5) show False
      by (auto simp: FOLDED_CONCRETE_def FOLDED_ABSTRACT_MOUNT_def u_def)
  qed
  moreover note build_shape_copies [OF assms]
  moreover have "set (dict_keys (mask sh)) = box_dest ` {e \<in> set entries. category e = u ''masks''}"
    using arms masks_survive [OF s] by simp
  ultimately show ?thesis using ro rw by simp
qed

definition sample_scope :: "category_entry list" where
  "sample_scope =
     [sample_entry (u ''caches'') (u ''box'') (u ''/a'') (Some (u ''/h/1'')),
      sample_entry (u ''seeded'') (u ''box'') (u ''/b'') (Some (u ''/h/2'')),
      sample_entry (u ''common'') (u ''box'') (u ''/a'') (Some (u ''/h/3''))]"

lemma build_store_shape_arms_witness:
  "\<exists>sh ws. build_store_shape sample_scope = Inr (sh, ws) \<and> seed sh = rows [u ''seeded''] sample_scope"
proof -
  have "\<not> isl (build_store_shape sample_scope)" by code_simp
  then obtain sh ws where r: "build_store_shape sample_scope = Inr (sh, ws)"
    by (cases "build_store_shape sample_scope") auto
  from build_store_shape_arms [OF r] r show ?thesis by blast
qed

end
