(* ===== verification/Collapse.thy ===== *)
theory Collapse imports Shape begin

text \<open>
  The collapse (\<open>src/kanibako/settings/store_collapse.py\<close>): four scopes' shapes folded into the
  bind map, the seed list and the sync list, the environment slots arbitrated beside them, and
  the reader that pairs a declaration with what the box receives. A refusal is a value that
  names its participants; the sentences of the messages are not modelled.
\<close>

record collapsed_bind =
  csrc :: "pystr option"
  copts :: "pystr option"

record collapsed_copy =
  cp_src :: pystr
  cp_dest :: pystr
  cp_opts :: "pystr option"

record collapsed_env =
  env_value :: pystr
  env_scope :: pystr
  env_key :: pystr

definition MASK :: collapsed_bind where
  "MASK = \<lparr>csrc = None, copts = None\<rparr>"

definition CLI_PROVENANCE_SCOPE :: pystr where
  "CLI_PROVENANCE_SCOPE = u ''cli''"

definition HOME_DEST :: pystr where
  "HOME_DEST = normalize_bind_dest (u ''~'')"

type_synonym bindings = "(pystr \<times> collapsed_bind) list"
type_synonym declaring_keys = "(pystr \<times> pystr) list"

datatype mount_kind = KindBind | KindMask

type_synonym mount_keys = "((pystr \<times> mount_kind \<times> pystr) \<times> pystr) list"

record collapsed_store =
  bindings :: bindings
  seeded :: "collapsed_copy list"
  synced :: "collapsed_copy list"
  declared_by :: declaring_keys

datatype collapse_error =
    FromShape shape_error
  | ModeContradiction pystr "pystr option" pystr
  | BindUnderMask "pystr option" pystr pystr pystr "pystr option"
  | BindOverBind "pystr option" pystr pystr "(pystr \<times> pystr option \<times> pystr option) list"
  | MaskOnMask "pystr option" pystr "(pystr \<times> pystr option) list"
  | MaskOverHome "pystr option" pystr
  | SeedOutsideHome pystr pystr
  | EnvTwin pystr pystr pystr pystr pystr
  | SyncUncovered pystr pystr

section \<open>Options\<close>

definition opt_tokens :: "pystr option \<Rightarrow> pystr list" where
  "opt_tokens opts = filter (\<lambda>t. t \<noteq> []) (map strip (raw_tokens opts))"

definition fold_opt :: "pystr option \<Rightarrow> pystr \<Rightarrow> pystr" where
  "fold_opt opts token =
     (let tokens = opt_tokens opts
      in join_char comma (if token \<in> set tokens then tokens else tokens @ [token]))"

definition is_mask :: "collapsed_bind \<Rightarrow> bool" where
  "is_mask b \<longleftrightarrow> csrc b = None"

section \<open>The declaration keys\<close>

definition bind_rows :: "store_shape \<Rightarrow> (pystr \<times> bind_entry) list" where
  "bind_rows sh = fold (\<lambda>(d, b) m. dict_set (normalize_bind_dest d) b m) (ro sh @ rw sh) []"

definition mask_dests :: "store_shape \<Rightarrow> pystr list" where
  "mask_dests sh = map (\<lambda>(d, _). normalize_bind_dest d) (mask sh)"

definition mount_key_step ::
    "pystr \<Rightarrow> store_shape \<Rightarrow> category_entry \<Rightarrow> mount_keys \<Rightarrow> collapse_error + mount_keys" where
  "mount_key_step sc sh e keys =
     (if scope e \<noteq> sc \<or> delivery e \<noteq> MOUNT then Inr keys
      else (case arm_of e of
              Inl er \<Rightarrow> Inl (FromShape er)
            | Inr None \<Rightarrow> Inr keys
            | Inr (Some _) \<Rightarrow>
                (let dest = normalize_bind_dest (box_dest e) in
                 case host_src e of
                   None \<Rightarrow> if dest \<in> set (mask_dests sh)
                     then Inr (dict_set (sc, KindMask, dest) (elabel e) keys) else Inr keys
                 | Some h \<Rightarrow>
                     if map_of (bind_rows sh) dest = Some \<lparr>bsrc = h, bopt = Some (options e)\<rparr>
                     then Inr (dict_set (sc, KindBind, dest) (elabel e) keys) else Inr keys)))"

definition mount_declaration_keys ::
    "category_entry list \<Rightarrow> store_shape_set \<Rightarrow> collapse_error + mount_keys" where
  "mount_declaration_keys entries sss =
     foldE (\<lambda>sc. foldE (mount_key_step sc (shape_at sss sc)) entries) SCOPE_CONTAINMENT []"

section \<open>The mounts\<close>

record fold_state =
  combined :: bindings
  claims :: declaring_keys

definition scope_binds :: "store_shape \<Rightarrow> (pystr \<times> bind_entry \<times> pystr) list" where
  "scope_binds sh = sort_key (\<lambda>b. path_segments (fst b))
     (map (\<lambda>(d, e). (normalize_bind_dest d, e, u ''ro'')) (ro sh)
      @ map (\<lambda>(d, e). (normalize_bind_dest d, e, u ''rw'')) (rw sh))"

text \<open>Python's descending sort is stable too: equal keys keep their order.\<close>

definition scope_masks :: "store_shape \<Rightarrow> pystr list" where
  "scope_masks sh = rev (sort_key path_segments (rev (mask_dests sh)))"

definition binds_under :: "bindings \<Rightarrow> pystr \<Rightarrow> pystr list" where
  "binds_under cm dest = map fst (filter (\<lambda>(d, b). csrc b \<noteq> None \<and> is_within d dest) cm)"

definition masks_over :: "bindings \<Rightarrow> pystr \<Rightarrow> pystr list" where
  "masks_over cm dest = map fst (filter (\<lambda>(d, b). csrc b = None \<and> is_within dest d) cm)"

definition parent_mask :: "bindings \<Rightarrow> pystr \<Rightarrow> pystr option" where
  "parent_mask cm dest = find (\<lambda>d. d \<noteq> dest) (masks_over cm dest)"

definition sweep :: "pystr \<Rightarrow> fold_state \<Rightarrow> fold_state" where
  "sweep dest st = (let occupied = filter (\<lambda>d. is_within d dest) (dict_keys (combined st)) in
     fold (\<lambda>d s. \<lparr>combined = dict_pop d (combined s), claims = dict_pop d (claims s)\<rparr>) occupied st)"

definition claim :: "pystr \<Rightarrow> pystr option \<Rightarrow> fold_state \<Rightarrow> fold_state" where
  "claim dest key st = (case key of None \<Rightarrow> st | Some k \<Rightarrow> st\<lparr>claims := dict_set dest k (claims st)\<rparr>)"

definition refuse_mode_contradiction :: "pystr \<Rightarrow> bind_entry \<Rightarrow> pystr \<Rightarrow> collapse_error + unit" where
  "refuse_mode_contradiction dest e mode =
     refuse_if ((if mode = u ''ro'' then u ''rw'' else u ''ro'') \<in> set (opt_tokens (bopt e)))
       (ModeContradiction dest (bopt e) mode)"

definition refuse_bind_under_mask ::
    "fold_state \<Rightarrow> pystr \<Rightarrow> bind_entry \<Rightarrow> pystr option \<Rightarrow> collapse_error + unit" where
  "refuse_bind_under_mask st dest e key =
     (case parent_mask (combined st) dest of
        None \<Rightarrow> Inr ()
      | Some m \<Rightarrow> Inl (BindUnderMask key (bsrc e) dest m (map_of (claims st) m)))"

definition refuse_bind_over_bind ::
    "fold_state \<Rightarrow> pystr \<Rightarrow> bind_entry \<Rightarrow> pystr option \<Rightarrow> collapse_error + unit" where
  "refuse_bind_over_bind st dest e key =
     (let subsumed = binds_under (combined st) dest in
      refuse_if (subsumed \<noteq> [])
        (BindOverBind key (bsrc e) dest
          (map (\<lambda>d. (d, Option.bind (map_of (combined st) d) csrc, map_of (claims st) d)) subsumed)))"

definition refuse_mask_on_mask ::
    "fold_state \<Rightarrow> pystr \<Rightarrow> pystr option \<Rightarrow> collapse_error + unit" where
  "refuse_mask_on_mask st dest key =
     (let covering = masks_over (combined st) dest in
      refuse_if (covering \<noteq> []) (MaskOnMask key dest (map (\<lambda>d. (d, map_of (claims st) d)) covering)))"

definition refuse_mask_over_home :: "pystr \<Rightarrow> pystr option \<Rightarrow> collapse_error + unit" where
  "refuse_mask_over_home dest key = refuse_if (is_within HOME_DEST dest) (MaskOverHome key dest)"

definition put_mount :: "pystr \<Rightarrow> collapsed_bind \<Rightarrow> pystr option \<Rightarrow> fold_state \<Rightarrow> fold_state" where
  "put_mount dest b key st =
     (let st' = sweep dest st
      in claim dest key (st'\<lparr>combined := dict_set dest b (combined st')\<rparr>))"

definition merge_bind ::
    "pystr \<Rightarrow> mount_keys \<Rightarrow> pystr \<times> bind_entry \<times> pystr \<Rightarrow> fold_state \<Rightarrow> collapse_error + fold_state" where
  "merge_bind sc keys r st = (case r of (dest, e, mode) \<Rightarrow>
     (let key = map_of keys (sc, KindBind, dest) in
      bindE (refuse_mode_contradiction dest e mode) (\<lambda>_.
      bindE (refuse_bind_under_mask st dest e key) (\<lambda>_.
      bindE (refuse_bind_over_bind st dest e key) (\<lambda>_.
      Inr (put_mount dest \<lparr>csrc = Some (bsrc e), copts = Some (fold_opt (bopt e) mode)\<rparr> key st))))))"

definition merge_mask ::
    "pystr \<Rightarrow> mount_keys \<Rightarrow> pystr \<Rightarrow> fold_state \<Rightarrow> collapse_error + fold_state" where
  "merge_mask sc keys dest st =
     (let key = map_of keys (sc, KindMask, dest) in
      bindE (refuse_mask_on_mask st dest key) (\<lambda>_.
      bindE (refuse_mask_over_home dest key) (\<lambda>_.
      Inr (put_mount dest MASK key st))))"

definition merge_bindings ::
    "mount_keys \<Rightarrow> store_shape_set \<Rightarrow> pystr \<Rightarrow> fold_state \<Rightarrow> collapse_error + fold_state" where
  "merge_bindings keys sss sc st =
     bindE (foldE (merge_bind sc keys) (scope_binds (shape_at sss sc)) st)
       (foldE (merge_mask sc keys) (scope_masks (shape_at sss sc)))"

definition collapse_mounts ::
    "store_shape_set \<Rightarrow> bind_entry \<Rightarrow> mount_keys \<Rightarrow> collapse_error + fold_state" where
  "collapse_mounts sss home keys =
     foldE (merge_bindings keys sss) SCOPE_CONTAINMENT
       \<lparr>combined = [(HOME_DEST, \<lparr>csrc = Some (bsrc home), copts = bopt home\<rparr>)], claims = []\<rparr>"

section \<open>The copies\<close>

definition seed_row :: "pystr \<times> bind_entry \<Rightarrow> collapse_error + collapsed_copy" where
  "seed_row r = (case r of (d, e) \<Rightarrow>
     (let dest = normalize_bind_dest d in
      bindE (refuse_if (\<not> is_within dest HOME_DEST) (SeedOutsideHome (bsrc e) dest)) (\<lambda>_.
      Inr \<lparr>cp_src = bsrc e, cp_dest = dest, cp_opts = bopt e\<rparr>)))"

definition collapse_seeded :: "store_shape_set \<Rightarrow> collapse_error + collapsed_copy list" where
  "collapse_seeded sss = mapE seed_row (concat (map (\<lambda>sc. seed (shape_at sss sc)) SCOPE_CONTAINMENT))"

definition collapse_synced :: "store_shape_set \<Rightarrow> collapsed_copy list" where
  "collapse_synced sss =
     map (\<lambda>(d, e). \<lparr>cp_src = bsrc e, cp_dest = normalize_bind_dest d, cp_opts = bopt e\<rparr>)
       (concat (map (\<lambda>sc. sync (shape_at sss sc)) SCOPE_CONTAINMENT))"

definition collapse_store_shapes ::
    "store_shape_set \<Rightarrow> bind_entry \<Rightarrow> category_entry list \<Rightarrow> collapse_error + collapsed_store" where
  "collapse_store_shapes sss home entries =
     bindE (mount_declaration_keys entries sss) (\<lambda>keys.
     bindE (collapse_mounts sss home keys) (\<lambda>st.
     bindE (collapse_seeded sss) (\<lambda>seeds.
     Inr \<lparr>bindings = combined st, seeded = seeds, synced = collapse_synced sss,
          declared_by = claims st\<rparr>)))"

section \<open>The environment\<close>

definition env_step ::
    "pystr \<Rightarrow> category_entry \<Rightarrow> (pystr \<times> collapsed_env) list \<Rightarrow> collapse_error + (pystr \<times> collapsed_env) list" where
  "env_step sc e slots =
     (if delivery e \<noteq> ENV \<or> scope e \<noteq> sc then Inr slots
      else (case map_of slots (box_dest e) of
              Some held \<Rightarrow> Inl (EnvTwin (box_dest e) (env_key held) (env_scope held) (entry_key e) (scope e))
            | None \<Rightarrow> Inr (dict_set (box_dest e)
                \<lparr>env_value = options e, env_scope = scope e, env_key = entry_key e\<rparr> slots)))"

definition apply_cli_env ::
    "(pystr \<times> collapsed_env) list \<Rightarrow> (pystr \<times> pystr) list \<Rightarrow> (pystr \<times> collapsed_env) list" where
  "apply_cli_env slots cli_env =
     fold (\<lambda>(var, val) s. dict_set var
         (case map_of s var of
            Some held \<Rightarrow> \<lparr>env_value = val, env_scope = env_scope held, env_key = env_key held\<rparr>
          | None \<Rightarrow> \<lparr>env_value = val, env_scope = CLI_PROVENANCE_SCOPE, env_key = u ''-e '' @ var\<rparr>) s)
       cli_env slots"

definition collapse_env ::
    "category_entry list \<Rightarrow> (pystr \<times> pystr) list \<Rightarrow> collapse_error + (pystr \<times> collapsed_env) list" where
  "collapse_env entries cli_env =
     bindE (foldE (\<lambda>sc. foldE (env_step sc) entries) SCOPE_CONTAINMENT [])
       (\<lambda>slots. Inr (apply_cli_env slots cli_env))"

section \<open>Reading the collapsed map\<close>

text \<open>\<open>max(covers, key=len)\<close>: the first of the longest.\<close>

fun longest :: "pystr \<Rightarrow> pystr list \<Rightarrow> pystr" where
  "longest best [] = best"
| "longest best (p # ps) = longest (if length best < length p then p else best) ps"

definition covering_bind :: "bindings \<Rightarrow> pystr \<Rightarrow> pystr option" where
  "covering_bind bs dest =
     (case filter (\<lambda>root. is_within dest root) (dict_keys bs) of
        [] \<Rightarrow> None
      | c # cs \<Rightarrow> Some (longest c cs))"

definition refuse_uncovered_synced :: "bindings \<Rightarrow> collapsed_copy list \<Rightarrow> collapse_error + unit" where
  "refuse_uncovered_synced bs copies =
     foldE (\<lambda>c _. refuse_if (covering_bind bs (cp_dest c) = None) (SyncUncovered (cp_src c) (cp_dest c)))
       copies ()"

datatype pair_outcome =
  DerivedMount | DerivedCopy | DerivedMasked | DerivedSuperseded | DerivedAmbiguous | DerivedUncovered

record declared_row =
  decl_key :: pystr
  decl_dest :: pystr
  decl_src :: "pystr option"
  decl_delivery :: delivery

record derivation =
  der_decl :: declared_row
  der_outcome :: pair_outcome
  der_at :: "pystr option"
  der_bind :: "collapsed_bind option"
  der_copy :: "collapsed_copy option"

text \<open>How many mount declarations ask for one source at one destination.\<close>

definition claim_count :: "declared_row list \<Rightarrow> pystr \<times> pystr option \<Rightarrow> nat" where
  "claim_count ds k =
     length (filter (\<lambda>d. decl_delivery d \<noteq> COPY \<and> (decl_dest d, decl_src d) = k) ds)"

definition pair_one ::
    "declared_row \<Rightarrow> bindings \<Rightarrow> collapsed_copy list \<Rightarrow> (pystr \<times> pystr option \<Rightarrow> nat) \<Rightarrow> derivation" where
  "pair_one d bs copies counts =
     (if decl_delivery d = COPY
      then (case find (\<lambda>c. cp_dest c = decl_dest d \<and> Some (cp_src c) = decl_src d) copies of
              Some row \<Rightarrow> \<lparr>der_decl = d, der_outcome = DerivedCopy, der_at = Some (decl_dest d),
                der_bind = None, der_copy = Some row\<rparr>
            | None \<Rightarrow> \<lparr>der_decl = d, der_outcome = DerivedSuperseded, der_at = Some (decl_dest d),
                der_bind = None, der_copy = None\<rparr>)
      else (case covering_bind bs (decl_dest d) of
              None \<Rightarrow> \<lparr>der_decl = d, der_outcome = DerivedUncovered, der_at = None, der_bind = None, der_copy = None\<rparr>
            | Some cover \<Rightarrow>
                (let b = the (map_of bs cover);
                     row = (\<lambda>out. \<lparr>der_decl = d, der_outcome = out, der_at = Some cover,
                       der_bind = Some b, der_copy = None\<rparr>)
                 in if is_mask b then row DerivedMasked
                    else if cover \<noteq> decl_dest d \<or> csrc b \<noteq> decl_src d then row DerivedSuperseded
                    else row (if counts (decl_dest d, decl_src d) > 1 then DerivedAmbiguous else DerivedMount))))"

definition pair_declarations ::
    "declared_row list \<Rightarrow> bindings \<Rightarrow> collapsed_copy list \<Rightarrow> derivation list" where
  "pair_declarations ds bs copies = map (\<lambda>d. pair_one d bs copies (claim_count ds)) ds"

section \<open>The fold keeps a layout\<close>

definition occupied :: "bindings \<Rightarrow> pystr set" where
  "occupied cm = fst ` set cm"

definition masked :: "bindings \<Rightarrow> pystr set" where
  "masked cm = {d. \<exists>b. (d, b) \<in> set cm \<and> csrc b = None}"

lemma sweep_filter:
  "sweep dest st = st\<lparr>combined := filter (\<lambda>(d, _). \<not> is_within d dest) (combined st),
     claims := filter (\<lambda>(d, _). \<not> (d \<in> occupied (combined st) \<and> is_within d dest)) (claims st)\<rparr>"
proof -
  have pops: "fold (\<lambda>d s. \<lparr>combined = dict_pop d (combined s), claims = dict_pop d (claims s)\<rparr>) ds st =
      st\<lparr>combined := filter (\<lambda>(d, _). d \<notin> set ds) (combined st),
         claims := filter (\<lambda>(d, _). d \<notin> set ds) (claims st)\<rparr>" for ds and st :: fold_state
    by (induction ds arbitrary: st) (auto simp: dict_pop_def case_prod_unfold intro!: filter_cong)
  have "filter (\<lambda>(d, _). d \<in> fst ` set (combined st) \<longrightarrow> \<not> is_within d dest) (combined st)
      = filter (\<lambda>(d, _). \<not> is_within d dest) (combined st)"
    by (rule filter_cong) force+
  then show ?thesis unfolding sweep_def Let_def pops by (simp add: occupied_def)
qed

lemma put_mount_combined:
  "combined (put_mount dest b key st) = filter (\<lambda>(d, _). \<not> is_within d dest) (combined st) @ [(dest, b)]"
proof -
  have "dest \<notin> fst ` set (filter (\<lambda>(d, _). \<not> is_within d dest) (combined st))" by auto
  from dict_set_new [OF this] show ?thesis
    by (cases key) (simp_all add: put_mount_def Let_def claim_def sweep_filter)
qed

lemma put_mount_sets:
  "occupied (combined (put_mount dest b key st)) = insert dest {d \<in> occupied (combined st). \<not> is_within d dest}"
  "masked (combined (put_mount dest b key st)) =
     (if csrc b = None then {dest} else {}) \<union> {d \<in> masked (combined st). \<not> is_within d dest}"
  unfolding put_mount_combined by (auto simp: occupied_def masked_def image_iff)

lemma put_mount_claims:
  "fst ` set (claims (put_mount dest b key st)) \<subseteq>
     insert dest {d \<in> fst ` set (claims st). \<not> (d \<in> occupied (combined st) \<and> is_within d dest)}"
  by (cases key) (auto simp: put_mount_def Let_def claim_def sweep_filter)

text \<open>The invariant of the fold, for a given home binding.\<close>

definition fold_ok :: "collapsed_bind \<Rightarrow> fold_state \<Rightarrow> bool" where
  "fold_ok hb st \<longleftrightarrow> distinct (dict_keys (combined st)) \<and> map_of (combined st) HOME_DEST = Some hb \<and>
     (\<forall>d \<in> occupied (combined st). tidy d) \<and>
     layout is_within HOME_DEST (occupied (combined st)) (masked (combined st)) \<and>
     fst ` set (claims st) \<subseteq> occupied (combined st)"

lemma fold_ok_put:
  assumes ok: "fold_ok hb st" and t: "tidy dest" and h: "\<not> is_within HOME_DEST dest"
    and l: "layout is_within HOME_DEST (occupied (combined (put_mount dest b key st)))
      (masked (combined (put_mount dest b key st)))"
  shows "fold_ok hb (put_mount dest b key st)"
proof -
  have "dest \<noteq> HOME_DEST" using h by auto
  then have "map_of (combined (put_mount dest b key st)) HOME_DEST = Some hb"
    using ok h map_of_filter_keys [of "\<lambda>d. \<not> is_within d dest" "combined st" HOME_DEST]
    by (auto simp: put_mount_combined fold_ok_def map_add_def split: option.splits)
  moreover have "distinct (dict_keys (combined (put_mount dest b key st)))"
    using ok by (auto simp: put_mount_combined fold_ok_def)
  moreover have "fst ` set (claims (put_mount dest b key st)) \<subseteq> occupied (combined (put_mount dest b key st))"
    using put_mount_claims [of dest b key st] ok unfolding put_mount_sets fold_ok_def by auto
  ultimately show ?thesis using ok t l by (auto simp: fold_ok_def put_mount_sets)
qed

text \<open>What a step that is not refused has checked.\<close>

lemma parent_mask_None: "parent_mask cm dest = None \<longleftrightarrow> (\<forall>m \<in> masked cm. is_within dest m \<longrightarrow> m = dest)"
proof -
  have "set (masks_over cm dest) = {m \<in> masked cm. is_within dest m}"
    by (auto simp: masks_over_def masked_def image_iff)
  then show ?thesis by (auto simp: parent_mask_def find_None_iff)
qed

lemma binds_under_Nil: "binds_under cm dest = [] \<Longrightarrow> d \<in> occupied cm - masked cm \<Longrightarrow> \<not> is_within d dest"
  by (auto simp: binds_under_def filter_empty_conv occupied_def masked_def)

lemma masks_over_Nil: "masks_over cm dest = [] \<longleftrightarrow> (\<forall>m \<in> masked cm. \<not> is_within dest m)"
  by (auto simp: masks_over_def filter_empty_conv masked_def)

lemma merge_bind_Inr:
  assumes "merge_bind sc keys (dest, e, mode) st = Inr st'"
  shows "st' = put_mount dest \<lparr>csrc = Some (bsrc e), copts = Some (fold_opt (bopt e) mode)\<rparr>
      (map_of keys (sc, KindBind, dest)) st"
    and "\<And>m. m \<in> masked (combined st) \<Longrightarrow> is_within dest m \<Longrightarrow> m = dest"
    and "\<And>d. d \<in> occupied (combined st) - masked (combined st) \<Longrightarrow> \<not> is_within d dest"
proof -
  from assms have "parent_mask (combined st) dest = None" "binds_under (combined st) dest = []"
    and "st' = put_mount dest \<lparr>csrc = Some (bsrc e), copts = Some (fold_opt (bopt e) mode)\<rparr>
      (map_of keys (sc, KindBind, dest)) st"
    by (auto simp: merge_bind_def Let_def result_simps refuse_mode_contradiction_def
        refuse_bind_under_mask_def refuse_bind_over_bind_def split: option.splits)
  with parent_mask_None binds_under_Nil show
    "st' = put_mount dest \<lparr>csrc = Some (bsrc e), copts = Some (fold_opt (bopt e) mode)\<rparr>
      (map_of keys (sc, KindBind, dest)) st"
    "\<And>m. m \<in> masked (combined st) \<Longrightarrow> is_within dest m \<Longrightarrow> m = dest"
    "\<And>d. d \<in> occupied (combined st) - masked (combined st) \<Longrightarrow> \<not> is_within d dest"
    by blast+
qed

lemma merge_mask_Inr:
  assumes "merge_mask sc keys dest st = Inr st'"
  shows "st' = put_mount dest MASK (map_of keys (sc, KindMask, dest)) st"
    and "\<And>m. m \<in> masked (combined st) \<Longrightarrow> \<not> is_within dest m" and "\<not> is_within HOME_DEST dest"
  using assms masks_over_Nil
  by (auto simp: merge_mask_def Let_def result_simps refuse_mask_on_mask_def refuse_mask_over_home_def)

lemma fold_ok_bind:
  assumes "merge_bind sc keys (dest, e, mode) st = Inr st'" "fold_ok hb st" "tidy dest"
  shows "fold_ok hb st'"
proof -
  note m = merge_bind_Inr [OF assms(1)]
  have l: "layout is_within HOME_DEST (occupied (combined st)) (masked (combined st))"
    using assms(2) by (simp add: fold_ok_def)
  then have "\<not> is_within HOME_DEST dest" using m(3) [of HOME_DEST] by (auto simp: layout_def)
  from fold_ok_put [OF assms(2,3) this] guest.layout_bind [OF l m(2,3)] show ?thesis
    unfolding m(1) put_mount_sets by simp
qed

lemma fold_ok_mask:
  assumes "merge_mask sc keys dest st = Inr st'" "fold_ok hb st" "tidy dest"
  shows "fold_ok hb st'"
proof -
  note m = merge_mask_Inr [OF assms(1)]
  have l: "layout is_within HOME_DEST (occupied (combined st)) (masked (combined st))"
    using assms(2) by (simp add: fold_ok_def)
  from fold_ok_put [OF assms(2,3) m(3)] guest.layout_mask [OF l m(2,3)] show ?thesis
    unfolding m(1) put_mount_sets by (simp add: MASK_def)
qed

lemma scope_binds_tidy: "(dest, e, mode) \<in> set (scope_binds sh) \<Longrightarrow> tidy dest"
  by (auto simp: scope_binds_def tidy_normalize)

lemma scope_masks_tidy: "dest \<in> set (scope_masks sh) \<Longrightarrow> tidy dest"
  by (auto simp: scope_masks_def mask_dests_def tidy_normalize)

text \<open>A property every step keeps holds of the whole fold.\<close>

lemma collapse_mounts_invariant:
  assumes r: "collapse_mounts sss home keys = Inr st"
    and init: "P \<lparr>combined = [(HOME_DEST, \<lparr>csrc = Some (bsrc home), copts = bopt home\<rparr>)], claims = []\<rparr>"
    and bind: "\<And>sc dest e mode s s'. sc \<in> set SCOPE_CONTAINMENT \<Longrightarrow>
      (dest, e, mode) \<in> set (scope_binds (shape_at sss sc)) \<Longrightarrow> P s \<Longrightarrow>
      merge_bind sc keys (dest, e, mode) s = Inr s' \<Longrightarrow> P s'"
    and mask: "\<And>sc dest s s'. sc \<in> set SCOPE_CONTAINMENT \<Longrightarrow> dest \<in> set (scope_masks (shape_at sss sc)) \<Longrightarrow>
      P s \<Longrightarrow> merge_mask sc keys dest s = Inr s' \<Longrightarrow> P s'"
  shows "P st"
proof (rule foldE_invariant [where P = P, OF r [unfolded collapse_mounts_def] init])
  fix sc s s'
  assume sc: "sc \<in> set SCOPE_CONTAINMENT" and p: "P s" and m: "merge_bindings keys sss sc s = Inr s'"
  from m obtain s1 where b: "foldE (merge_bind sc keys) (scope_binds (shape_at sss sc)) s = Inr s1"
    and k: "foldE (merge_mask sc keys) (scope_masks (shape_at sss sc)) s1 = Inr s'"
    by (auto simp: merge_bindings_def result_simps)
  have "P s1"
    by (rule foldE_invariant [where P = P, OF b p]) (use bind [OF sc] in \<open>metis prod_cases3\<close>)
  then show "P s'"
    by (rule foldE_invariant [where P = P, OF k]) (use mask [OF sc] in blast)
qed

lemma HOME_DEST_simp: "HOME_DEST = GUEST_HOME"
  by (simp add: HOME_DEST_def normalize_bind_dest_def)

lemma tidy_home: "tidy HOME_DEST"
  by (simp add: HOME_DEST_def tidy_normalize)

lemma collapse_mounts_ok:
  assumes "collapse_mounts sss home keys = Inr st"
  shows "fold_ok \<lparr>csrc = Some (bsrc home), copts = bopt home\<rparr> st"
proof (rule collapse_mounts_invariant [OF assms])
  show "fold_ok \<lparr>csrc = Some (bsrc home), copts = bopt home\<rparr>
      \<lparr>combined = [(HOME_DEST, \<lparr>csrc = Some (bsrc home), copts = bopt home\<rparr>)], claims = []\<rparr>"
    using tidy_home by (auto simp: fold_ok_def occupied_def masked_def layout_def)
qed (blast dest: fold_ok_bind fold_ok_mask scope_binds_tidy scope_masks_tidy)+

section \<open>The mounts of a box\<close>

text \<open>
  C28. The shape of a collapsed bind map: one mount per destination; home keeps the binding the
  foundation gave it and no mask lands at or above it; nothing sits strictly inside a mask; and
  the side map of declarations names no destination the box does not have.
\<close>

theorem collapse_mounts_layout:
  assumes "collapse_mounts sss home keys = Inr st"
  shows "distinct (dict_keys (combined st)) \<and>
    map_of (combined st) HOME_DEST = Some \<lparr>csrc = Some (bsrc home), copts = bopt home\<rparr> \<and>
    (\<forall>(m, b) \<in> set (combined st). is_mask b \<longrightarrow> \<not> is_within HOME_DEST m \<and>
       (\<forall>d \<in> set (dict_keys (combined st)). is_within d m \<longrightarrow> d = m)) \<and>
    set (dict_keys (claims st)) \<subseteq> set (dict_keys (combined st))"
proof -
  have ok: "fold_ok \<lparr>csrc = Some (bsrc home), copts = bopt home\<rparr> st" by (rule collapse_mounts_ok [OF assms])
  then have l: "layout is_within HOME_DEST (occupied (combined st)) (masked (combined st))"
    by (simp add: fold_ok_def)
  have "\<not> is_within HOME_DEST m \<and> (\<forall>d \<in> set (dict_keys (combined st)). is_within d m \<longrightarrow> d = m)"
    if "(m, b) \<in> set (combined st)" "is_mask b" for m b
  proof -
    have m: "m \<in> masked (combined st)" using that by (auto simp: masked_def is_mask_def)
    with guest.layout_home [OF l m] l show ?thesis by (auto simp: layout_def occupied_def)
  qed
  then have "\<forall>(m, b) \<in> set (combined st). is_mask b \<longrightarrow> \<not> is_within HOME_DEST m \<and>
      (\<forall>d \<in> set (dict_keys (combined st)). is_within d m \<longrightarrow> d = m)" by blast
  with ok show ?thesis unfolding fold_ok_def occupied_def set_map by blast
qed

definition sample_set :: store_shape_set where
  "sample_set = \<lparr>shapes = [(u ''system'', empty_shape\<lparr>mask := [(u ''/opt/x'', True)]\<rparr>),
     (u ''box'', empty_shape\<lparr>rw := [(u ''/w'', \<lparr>bsrc = u ''/h/w'', bopt = Some (u ''Z,U'')\<rparr>)]\<rparr>)],
     warnings = []\<rparr>"

definition sample_home :: bind_entry where
  "sample_home = \<lparr>bsrc = u ''/h/home'', bopt = Some (u ''Z,U'')\<rparr>"

definition sample_home_row :: "pystr \<times> collapsed_bind" where
  "sample_home_row = (u ''/home/agent'', \<lparr>csrc = Some (u ''/h/home''), copts = Some (u ''Z,U'')\<rparr>)"

definition sample_state :: fold_state where
  "sample_state = \<lparr>combined = [sample_home_row, (u ''/opt/x'', MASK),
     (u ''/w'', \<lparr>csrc = Some (u ''/h/w''), copts = Some (u ''Z,U,rw'')\<rparr>)], claims = []\<rparr>"

lemma sample_rows:
  "scope_masks (shape_at sample_set (u ''system'')) = [u ''/opt/x'']"
  "scope_binds (shape_at sample_set (u ''system'')) = []"
  "scope_masks (shape_at sample_set (u ''agent'')) = []"
  "scope_binds (shape_at sample_set (u ''agent'')) = []"
  "scope_masks (shape_at sample_set (u ''workset'')) = []"
  "scope_binds (shape_at sample_set (u ''workset'')) = []"
  "scope_masks (shape_at sample_set (u ''box'')) = []"
  "scope_binds (shape_at sample_set (u ''box'')) =
     [(u ''/w'', \<lparr>bsrc = u ''/h/w'', bopt = Some (u ''Z,U'')\<rparr>, u ''rw'')]"
proof -
  have n: "normalize_bind_dest (u ''/w'') = u ''/w''" "normalize_bind_dest (u ''/opt/x'') = u ''/opt/x''"
    by code_simp+
  have ne: "u ''agent'' \<noteq> u ''system''" "u ''workset'' \<noteq> u ''system''" "u ''box'' \<noteq> u ''system''"
    "u ''agent'' \<noteq> u ''box''" "u ''workset'' \<noteq> u ''box''"
    by (simp_all add: u_def)
  show
    "scope_masks (shape_at sample_set (u ''system'')) = [u ''/opt/x'']"
    "scope_binds (shape_at sample_set (u ''system'')) = []"
    "scope_masks (shape_at sample_set (u ''agent'')) = []"
    "scope_binds (shape_at sample_set (u ''agent'')) = []"
    "scope_masks (shape_at sample_set (u ''workset'')) = []"
    "scope_binds (shape_at sample_set (u ''workset'')) = []"
    "scope_masks (shape_at sample_set (u ''box'')) = []"
    "scope_binds (shape_at sample_set (u ''box'')) =
       [(u ''/w'', \<lparr>bsrc = u ''/h/w'', bopt = Some (u ''Z,U'')\<rparr>, u ''rw'')]"
    using n ne by (simp_all add: scope_masks_def scope_binds_def mask_dests_def shape_at_def
        sample_set_def empty_shape_def)
qed

lemma sample_tokens:
  "opt_tokens (Some (u ''Z,U'')) = [u ''Z'', u ''U'']" "fold_opt (Some (u ''Z,U'')) (u ''rw'') = u ''Z,U,rw''"
  by (simp_all add: fold_opt_def opt_tokens_def raw_tokens_def strip_def rstrip_by_def is_space_def u_def)

lemma sample_within:
  "is_within (u ''/home/agent'') (u ''/w'') = False" "is_within (u ''/opt/x'') (u ''/w'') = False"
  "is_within (u ''/w'') (u ''/opt/x'') = False" "is_within (u ''/home/agent'') (u ''/opt/x'') = False"
  by code_simp+

lemma sample_steps:
  "merge_mask (u ''system'') [] (u ''/opt/x'') \<lparr>combined = [sample_home_row], claims = []\<rparr> =
     Inr \<lparr>combined = [sample_home_row, (u ''/opt/x'', MASK)], claims = []\<rparr>"
  "merge_bind (u ''box'') [] (u ''/w'', \<lparr>bsrc = u ''/h/w'', bopt = Some (u ''Z,U'')\<rparr>, u ''rw'')
     \<lparr>combined = [sample_home_row, (u ''/opt/x'', MASK)], claims = []\<rparr> = Inr sample_state"
proof -
  have ne: "u ''/home/agent'' \<noteq> u ''/w''" "u ''/opt/x'' \<noteq> u ''/w''" "u ''/home/agent'' \<noteq> u ''/opt/x''"
    "u ''rw'' \<noteq> u ''ro''" "u ''ro'' \<notin> {u ''Z'', u ''U''}"
    by (simp_all add: u_def)
  show "merge_mask (u ''system'') [] (u ''/opt/x'') \<lparr>combined = [sample_home_row], claims = []\<rparr> =
     Inr \<lparr>combined = [sample_home_row, (u ''/opt/x'', MASK)], claims = []\<rparr>"
    using ne by (simp add: merge_mask_def refuse_mask_on_mask_def refuse_mask_over_home_def masks_over_def
        sample_home_row_def HOME_DEST_simp GUEST_HOME_def sample_within refuse_if_def put_mount_def
        sweep_filter claim_def MASK_def)
  show "merge_bind (u ''box'') [] (u ''/w'', \<lparr>bsrc = u ''/h/w'', bopt = Some (u ''Z,U'')\<rparr>, u ''rw'')
     \<lparr>combined = [sample_home_row, (u ''/opt/x'', MASK)], claims = []\<rparr> = Inr sample_state"
    using ne by (simp add: merge_bind_def refuse_mode_contradiction_def refuse_bind_under_mask_def
        refuse_bind_over_bind_def parent_mask_def masks_over_def binds_under_def sample_home_row_def
        sample_within refuse_if_def put_mount_def sweep_filter claim_def MASK_def sample_tokens
        sample_state_def)
qed

lemma sample_collapse: "collapse_mounts sample_set sample_home [] = Inr sample_state"
proof -
  have "(HOME_DEST, \<lparr>csrc = Some (bsrc sample_home), copts = bopt sample_home\<rparr>) = sample_home_row"
    by (simp add: HOME_DEST_simp GUEST_HOME_def sample_home_row_def sample_home_def)
  then show ?thesis
    by (simp add: collapse_mounts_def SCOPE_CONTAINMENT_def merge_bindings_def sample_rows sample_steps)
qed

lemma collapse_mounts_layout_witness:
  "map_of (combined sample_state) HOME_DEST = Some \<lparr>csrc = Some (bsrc sample_home), copts = bopt sample_home\<rparr>"
  using collapse_mounts_layout [OF sample_collapse] by blast

lemma put_mount_covers:
  "\<exists>k \<in> occupied (combined (put_mount dest b key st)). is_within dest k"
  by (auto simp: put_mount_sets)

lemma put_mount_keeps_cover:
  "\<exists>k \<in> occupied (combined st). is_within d k \<Longrightarrow>
   \<exists>k \<in> occupied (combined (put_mount dest b key st)). is_within d k"
  using guest.covered_step unfolding put_mount_sets by blast

lemma merge_bind_covers:
  assumes "merge_bind sc keys r st = Inr st'"
  shows "\<exists>k \<in> occupied (combined st'). is_within (fst r) k"
    and "\<exists>k \<in> occupied (combined st). is_within d k \<Longrightarrow> \<exists>k \<in> occupied (combined st'). is_within d k"
proof -
  obtain dest e mode where r: "r = (dest, e, mode)" by (cases r)
  note p = merge_bind_Inr(1) [OF assms [unfolded r]]
  show "\<exists>k \<in> occupied (combined st'). is_within (fst r) k" unfolding p r fst_conv by (rule put_mount_covers)
  show "\<exists>k \<in> occupied (combined st). is_within d k \<Longrightarrow> \<exists>k \<in> occupied (combined st'). is_within d k"
    unfolding p by (rule put_mount_keeps_cover)
qed

lemma merge_mask_covers:
  assumes "merge_mask sc keys m st = Inr st'"
  shows "\<exists>k \<in> occupied (combined st'). is_within m k"
    and "\<exists>k \<in> occupied (combined st). is_within d k \<Longrightarrow> \<exists>k \<in> occupied (combined st'). is_within d k"
  unfolding merge_mask_Inr(1) [OF assms] by (rule put_mount_covers, rule put_mount_keeps_cover)

text \<open>
  C30. No declared mount is lost to the fold without a cover: whatever the scopes declare, the
  destination of every bind and mask row ends at or inside some mount of the collapsed map.
\<close>

theorem collapse_mounts_covers:
  assumes r: "collapse_mounts sss home keys = Inr st" and sc: "sc \<in> set SCOPE_CONTAINMENT"
    and d: "d \<in> fst ` set (scope_binds (shape_at sss sc)) \<or> d \<in> set (scope_masks (shape_at sss sc))"
  shows "\<exists>k \<in> set (dict_keys (combined st)). is_within d k"
proof -
  let ?Q = "\<lambda>s. \<exists>k \<in> occupied (combined s). is_within d k"
  have keep: "?Q s'" if "?Q s" "merge_bindings keys sss c s = Inr s'" for c s s'
  proof -
    from that(2) obtain s1 where b: "foldE (merge_bind c keys) (scope_binds (shape_at sss c)) s = Inr s1"
      and k: "foldE (merge_mask c keys) (scope_masks (shape_at sss c)) s1 = Inr s'"
      by (auto simp: merge_bindings_def result_simps)
    have "?Q s1" by (rule foldE_invariant [where P = ?Q, OF b that(1)]) (rule merge_bind_covers(2))
    then show ?thesis by (rule foldE_invariant [where P = ?Q, OF k]) (rule merge_mask_covers(2))
  qed
  have own: "?Q s'" if "merge_bindings keys sss sc s = Inr s'" for s s'
  proof -
    from that obtain s1 where b: "foldE (merge_bind sc keys) (scope_binds (shape_at sss sc)) s = Inr s1"
      and k: "foldE (merge_mask sc keys) (scope_masks (shape_at sss sc)) s1 = Inr s'"
      by (auto simp: merge_bindings_def result_simps)
    from d show ?thesis
    proof
      assume "d \<in> fst ` set (scope_binds (shape_at sss sc))"
      then obtain x where x: "x \<in> set (scope_binds (shape_at sss sc))" "d = fst x" by auto
      have "?Q s1"
        by (rule foldE_establishes [where Q = ?Q, OF b x(1)])
           (use merge_bind_covers x(2) in blast)+
      then show ?thesis by (rule foldE_invariant [where P = ?Q, OF k]) (rule merge_mask_covers(2))
    next
      assume "d \<in> set (scope_masks (shape_at sss sc))"
      then show ?thesis
        by (rule foldE_establishes [where Q = ?Q, OF k]) (use merge_mask_covers in blast)+
    qed
  qed
  have "?Q st"
    by (rule foldE_establishes [where Q = ?Q, OF r [unfolded collapse_mounts_def] sc]) (use own keep in blast)+
  then show ?thesis by (simp add: occupied_def)
qed

lemma collapse_mounts_covers_witness:
  "\<exists>k \<in> set (dict_keys (combined sample_state)). is_within (u ''/w'') k"
proof (rule collapse_mounts_covers [OF sample_collapse])
  show "u ''box'' \<in> set SCOPE_CONTAINMENT" by (simp add: SCOPE_CONTAINMENT_def)
qed (simp add: sample_rows)

section \<open>Without masks\<close>

text \<open>
  The reference reading of the bind fold: each row's mode agrees with its arm, and no place
  already taken lies at or inside it.
\<close>

fun nest_ok :: "pystr set \<Rightarrow> (pystr \<times> bind_entry \<times> pystr) list \<Rightarrow> bool" where
  "nest_ok occ [] = True"
| "nest_ok occ ((dest, e, mode) # rs) =
     ((if mode = u ''ro'' then u ''rw'' else u ''ro'') \<notin> set (opt_tokens (bopt e)) \<and>
      (\<forall>d \<in> occ. \<not> is_within d dest) \<and> nest_ok (insert dest occ) rs)"

definition mount_of :: "pystr \<times> bind_entry \<times> pystr \<Rightarrow> pystr \<times> collapsed_bind" where
  "mount_of r = (case r of (dest, e, mode) \<Rightarrow>
     (dest, \<lparr>csrc = Some (bsrc e), copts = Some (fold_opt (bopt e) mode)\<rparr>))"

lemma nest_ok_append: "nest_ok occ (xs @ ys) \<longleftrightarrow> nest_ok occ xs \<and> nest_ok (occ \<union> fst ` set xs) ys"
  by (induction occ xs rule: nest_ok.induct) (simp_all add: insert_commute Un_insert_left)

lemma unmasked: "masked cm = {} \<Longrightarrow> masks_over cm d = [] \<and> parent_mask cm d = None"
  by (simp add: masks_over_Nil parent_mask_None)

lemma merge_bind_unmasked:
  assumes "masked (combined st) = {}"
  shows "(\<exists>st'. merge_bind sc keys r st = Inr st') \<longleftrightarrow> nest_ok (occupied (combined st)) [r]"
    and "merge_bind sc keys r st = Inr st' \<Longrightarrow> combined st' = combined st @ [mount_of r]"
proof -
  obtain dest e mode where r: "r = (dest, e, mode)" by (cases r)
  have "binds_under (combined st) dest = [] \<longleftrightarrow> (\<forall>d \<in> occupied (combined st). \<not> is_within d dest)"
    using assms by (auto simp: binds_under_def filter_empty_conv occupied_def masked_def)
  then show "(\<exists>st'. merge_bind sc keys r st = Inr st') \<longleftrightarrow> nest_ok (occupied (combined st)) [r]"
    using unmasked [OF assms, of dest]
    by (auto simp: r merge_bind_def Let_def result_simps refuse_mode_contradiction_def
        refuse_bind_under_mask_def refuse_bind_over_bind_def)
  assume m: "merge_bind sc keys r st = Inr st'"
  have "filter (\<lambda>(d, _). \<not> is_within d dest) (combined st) = combined st"
    using merge_bind_Inr(3) [OF m [unfolded r]] assms by (fastforce simp: filter_id_conv occupied_def)
  then show "combined st' = combined st @ [mount_of r]"
    unfolding merge_bind_Inr(1) [OF m [unfolded r]] put_mount_combined by (simp add: r mount_of_def)
qed

lemma masked_append_mount: "masked (cm @ [mount_of r]) = masked cm"
  by (cases r) (auto simp: masked_def mount_of_def)

lemma nest_ok_Cons: "nest_ok occ (r # rs) \<longleftrightarrow> nest_ok occ [r] \<and> nest_ok (insert (fst r) occ) rs"
  by (cases r) simp

lemma occupied_mounts: "occupied (cm @ map mount_of xs) = occupied cm \<union> fst ` set xs"
  by (auto simp: occupied_def mount_of_def image_iff split: prod.splits) force+

lemma merge_binds_unmasked:
  assumes "foldE (merge_bind sc keys) rs st = Inr st'" "masked (combined st) = {}"
  shows "nest_ok (occupied (combined st)) rs" "combined st' = combined st @ map mount_of rs"
    "masked (combined st') = {}"
proof -
  from assms have "nest_ok (occupied (combined st)) rs \<and> combined st' = combined st @ map mount_of rs
      \<and> masked (combined st') = {}"
  proof (induction rs arbitrary: st)
    case (Cons r rs)
    then obtain st1 where m: "merge_bind sc keys r st = Inr st1" "foldE (merge_bind sc keys) rs st1 = Inr st'"
      by (auto simp: result_simps)
    note c = merge_bind_unmasked(2) [OF Cons.prems(2) m(1)]
    have n: "nest_ok (occupied (combined st)) [r]"
      using merge_bind_unmasked(1) [OF Cons.prems(2), of sc keys r] m(1) by blast
    have "masked (combined st1) = {}" unfolding c masked_append_mount by (rule Cons.prems(2))
    from Cons.IH [OF m(2) this] have ih: "nest_ok (occupied (combined st @ [mount_of r])) rs"
      "combined st' = (combined st @ [mount_of r]) @ map mount_of rs" "masked (combined st') = {}"
      unfolding c by blast+
    from ih(2) have "combined st' = combined st @ map mount_of (r # rs)" by simp
    moreover have "nest_ok (occupied (combined st)) (r # rs)"
      using n ih(1) occupied_mounts [of "combined st" "[r]"] by (simp add: nest_ok_Cons [of _ r rs])
    ultimately show ?case using ih(3) by blast
  qed simp
  then show "nest_ok (occupied (combined st)) rs" "combined st' = combined st @ map mount_of rs"
    "masked (combined st') = {}" by blast+
qed

lemma merge_binds_succeed:
  "nest_ok (occupied (combined st)) rs \<Longrightarrow> masked (combined st) = {} \<Longrightarrow>
   \<exists>st'. foldE (merge_bind sc keys) rs st = Inr st'"
proof (induction rs arbitrary: st)
  case (Cons r rs)
  then have "nest_ok (occupied (combined st)) [r]" unfolding nest_ok_Cons [of _ r rs] by blast
  then obtain st1 where m: "merge_bind sc keys r st = Inr st1"
    using merge_bind_unmasked(1) [OF Cons.prems(2)] by blast
  note c = merge_bind_unmasked(2) [OF Cons.prems(2) m]
  have "nest_ok (occupied (combined st1)) rs"
    using Cons.prems(1) occupied_mounts [of "combined st" "[r]"] unfolding c nest_ok_Cons [of _ r rs] by simp
  moreover have "masked (combined st1) = {}" unfolding c masked_append_mount by (rule Cons.prems(2))
  ultimately show ?case using Cons.IH m by simp
qed simp

text \<open>All the bind rows in fold order: scope by scope, parents first.\<close>

definition all_binds :: "store_shape_set \<Rightarrow> (pystr \<times> bind_entry \<times> pystr) list" where
  "all_binds sss = concat (map (\<lambda>sc. scope_binds (shape_at sss sc)) SCOPE_CONTAINMENT)"

lemma merge_bindings_unmasked:
  assumes "mask (shape_at sss sc) = []"
  shows "merge_bindings keys sss sc st = foldE (merge_bind sc keys) (scope_binds (shape_at sss sc)) st"
proof -
  have "scope_masks (shape_at sss sc) = []" using assms by (simp add: scope_masks_def mask_dests_def)
  then show ?thesis
    by (cases "foldE (merge_bind sc keys) (scope_binds (shape_at sss sc)) st") (simp_all add: merge_bindings_def)
qed

lemma scopes_unmasked:
  assumes "foldE (merge_bindings keys sss) scs st = Inr st'" "masked (combined st) = {}"
    and "\<forall>sc \<in> set scs. mask (shape_at sss sc) = []"
  shows "nest_ok (occupied (combined st)) (concat (map (\<lambda>sc. scope_binds (shape_at sss sc)) scs)) \<and>
    combined st' = combined st @ map mount_of (concat (map (\<lambda>sc. scope_binds (shape_at sss sc)) scs))"
  using assms
proof (induction scs arbitrary: st)
  case (Cons sc scs)
  have eq: "merge_bindings keys sss sc st = foldE (merge_bind sc keys) (scope_binds (shape_at sss sc)) st"
    by (rule merge_bindings_unmasked) (use Cons.prems(3) in simp)
  from Cons.prems(1) obtain st1 where b: "foldE (merge_bind sc keys) (scope_binds (shape_at sss sc)) st = Inr st1"
    and r: "foldE (merge_bindings keys sss) scs st1 = Inr st'"
    by (auto simp: result_simps eq)
  note one = merge_binds_unmasked [OF b Cons.prems(2)]
  from Cons.IH [OF r one(3)] Cons.prems(3) one(1) show ?case
    unfolding one(2) occupied_mounts by (simp add: nest_ok_append)
qed simp

lemma scopes_succeed:
  "nest_ok (occupied (combined st)) (concat (map (\<lambda>sc. scope_binds (shape_at sss sc)) scs)) \<Longrightarrow>
   masked (combined st) = {} \<Longrightarrow> \<forall>sc \<in> set scs. mask (shape_at sss sc) = [] \<Longrightarrow>
   \<exists>st'. foldE (merge_bindings keys sss) scs st = Inr st'"
proof (induction scs arbitrary: st)
  case (Cons sc scs)
  then have n: "nest_ok (occupied (combined st)) (scope_binds (shape_at sss sc))"
    "nest_ok (occupied (combined st) \<union> fst ` set (scope_binds (shape_at sss sc)))
      (concat (map (\<lambda>sc. scope_binds (shape_at sss sc)) scs))"
    by (auto simp: nest_ok_append)
  obtain st1 where b: "foldE (merge_bind sc keys) (scope_binds (shape_at sss sc)) st = Inr st1"
    using merge_binds_succeed [OF n(1) Cons.prems(2)] by blast
  note one = merge_binds_unmasked [OF b Cons.prems(2)]
  have "\<exists>st'. foldE (merge_bindings keys sss) scs st1 = Inr st'"
    using Cons.IH [of st1] n(2) one(2,3) Cons.prems(3) by (simp add: occupied_mounts)
  then show ?case using b Cons.prems(3) by (simp add: merge_bindings_unmasked)
qed simp

text \<open>
  C29. Where no scope declares a mask the fold is lossless, and refuses exactly when it must: it
  succeeds if and only if every row's options agree with its arm and no row lands at or above a
  place already taken, home included; and then the map is the home binding followed by every
  declared row with its mode folded in.
\<close>

theorem collapse_mounts_without_masks:
  assumes "\<forall>sc \<in> set SCOPE_CONTAINMENT. mask (shape_at sss sc) = []"
  shows "((\<exists>st. collapse_mounts sss home keys = Inr st) \<longleftrightarrow> nest_ok {HOME_DEST} (all_binds sss)) \<and>
    (\<forall>st. collapse_mounts sss home keys = Inr st \<longrightarrow>
       combined st = (HOME_DEST, \<lparr>csrc = Some (bsrc home), copts = bopt home\<rparr>) # map mount_of (all_binds sss))"
proof -
  let ?s0 = "\<lparr>combined = [(HOME_DEST, \<lparr>csrc = Some (bsrc home), copts = bopt home\<rparr>)], claims = []\<rparr>"
  have s0: "masked (combined ?s0) = {}" "occupied (combined ?s0) = {HOME_DEST}"
    by (auto simp: masked_def occupied_def)
  show ?thesis
    using scopes_unmasked [OF _ s0(1) assms, of keys] scopes_succeed [OF _ s0(1) assms, of keys]
    unfolding collapse_mounts_def all_binds_def s0(2) by auto
qed

lemma collapse_mounts_without_masks_witness:
  "\<exists>st. collapse_mounts \<lparr>shapes = [], warnings = []\<rparr> sample_home [] = Inr st"
proof -
  let ?s = "\<lparr>shapes = [], warnings = []\<rparr>"
  have e: "shape_at ?s sc = empty_shape" for sc by (simp add: shape_at_def)
  then have m: "\<forall>sc \<in> set SCOPE_CONTAINMENT. mask (shape_at ?s sc) = []" by (simp add: empty_shape_def)
  have "all_binds ?s = []" by (simp add: all_binds_def e scope_binds_def empty_shape_def)
  with collapse_mounts_without_masks [OF m] show ?thesis by simp
qed

section \<open>Reading the map\<close>

lemma longest: "longest b ps \<in> set (b # ps) \<and> (\<forall>p \<in> set (b # ps). length p \<le> length (longest b ps))"
proof (induction b ps rule: longest.induct)
  case (2 b p ps)
  then show ?case by (auto split: if_splits)
qed simp

lemma covering_bind_None: "covering_bind bs d = None \<longleftrightarrow> (\<forall>k \<in> occupied bs. \<not> is_within d k)"
proof -
  have "covering_bind bs d = None \<longleftrightarrow> filter (\<lambda>root. is_within d root) (dict_keys bs) = []"
    by (simp add: covering_bind_def split: list.splits)
  then show ?thesis by (simp add: filter_empty_conv occupied_def)
qed

lemma covering_bind_Some:
  assumes "covering_bind bs d = Some k"
  shows "k \<in> occupied bs" "is_within d k"
    and "\<And>r. r \<in> occupied bs \<Longrightarrow> is_within d r \<Longrightarrow> length r \<le> length k"
proof -
  from assms obtain c cs where f: "filter (\<lambda>root. is_within d root) (dict_keys bs) = c # cs"
    and k: "k = longest c cs"
    by (auto simp: covering_bind_def split: list.splits)
  have s: "set (c # cs) = {r \<in> occupied bs. is_within d r}"
    unfolding f [symmetric] by (simp add: occupied_def)
  show "k \<in> occupied bs" "is_within d k" using longest [of c cs] s k by auto
  show "length r \<le> length k" if "r \<in> occupied bs" "is_within d r" for r
    using longest [of c cs] s k that by auto
qed

lemma covering_bind_innermost:
  assumes c: "covering_bind bs d = Some k" and t: "\<forall>r \<in> occupied bs. tidy r"
    and r: "r \<in> occupied bs" "is_within d r"
  shows "is_within k r"
proof (rule guest.innermost_below [where roots = "{r \<in> occupied bs. is_within d r}" and d = d])
  note k = covering_bind_Some [OF c]
  show "r = k" if "r \<in> {r \<in> occupied bs. is_within d r}" "is_within r k" for r
  proof (rule ccontr)
    assume "r \<noteq> k"
    with is_within_longer [of k r] that t k(1) have "length k < length r" by auto
    moreover have "length r \<le> length k" by (rule k(3)) (use that in auto)
    ultimately show False by simp
  qed
qed (use covering_bind_Some [OF c] t r in auto)

text \<open>
  \<open>covering_bind\<close> names the mount the box sees at a destination: it finds one exactly when
  some mount of a collapsed map lies at or above the destination, and the one it finds lies
  inside every other that does.
\<close>

theorem covering_bind_is_innermost:
  assumes "collapse_mounts sss home keys = Inr st"
  shows "(covering_bind (combined st) d = None \<longleftrightarrow> (\<forall>r \<in> set (dict_keys (combined st)). \<not> is_within d r)) \<and>
    (\<forall>k. covering_bind (combined st) d = Some k \<longrightarrow> k \<in> set (dict_keys (combined st)) \<and> is_within d k \<and>
       (\<forall>r \<in> set (dict_keys (combined st)). is_within d r \<longrightarrow> is_within k r))"
proof -
  have t: "\<forall>r \<in> occupied (combined st). tidy r"
    using collapse_mounts_ok [OF assms] by (simp add: fold_ok_def)
  have o: "set (dict_keys (combined st)) = occupied (combined st)" by (simp add: occupied_def)
  show ?thesis
    unfolding o using covering_bind_None covering_bind_Some(1,2) covering_bind_innermost [OF _ t] by blast
qed

lemma covering_bind_is_innermost_witness:
  "\<exists>k. covering_bind (combined sample_state) HOME_DEST = Some k"
proof -
  have "HOME_DEST \<in> set (dict_keys (combined sample_state))"
    using collapse_mounts_ok [OF sample_collapse] by (simp add: fold_ok_def layout_def occupied_def)
  with covering_bind_is_innermost [OF sample_collapse, of HOME_DEST] is_within_refl show ?thesis by blast
qed

text \<open>
  C33. The display and the box agree about masks: a mount declaration read against a collapsed
  map is reported as masked exactly when some mask of the map lies at or above its destination,
  and the report names that mask.
\<close>

theorem pair_one_masked_iff:
  assumes r: "collapse_mounts sss home keys = Inr st" and d: "decl_delivery d \<noteq> COPY"
  shows "der_outcome (pair_one d (combined st) copies counts) = DerivedMasked \<and>
      der_at (pair_one d (combined st) copies counts) = Some m \<longleftrightarrow>
    (\<exists>b. (m, b) \<in> set (combined st) \<and> is_mask b \<and> is_within (decl_dest d) m)"
proof -
  let ?p = "pair_one d (combined st) copies counts"
  have ok: "fold_ok \<lparr>csrc = Some (bsrc home), copts = bopt home\<rparr> st" by (rule collapse_mounts_ok [OF r])
  then have dist: "distinct (dict_keys (combined st))" and t: "\<forall>r \<in> occupied (combined st). tidy r"
    and l: "layout is_within HOME_DEST (occupied (combined st)) (masked (combined st))"
    by (simp_all add: fold_ok_def)
  have got: "map_of (combined st) k = Some b" if "(k, b) \<in> set (combined st)" for k b
    using dist that by simp
  show ?thesis
  proof (cases "covering_bind (combined st) (decl_dest d)")
    case None
    then have "\<not> (\<exists>b. (m, b) \<in> set (combined st) \<and> is_mask b \<and> is_within (decl_dest d) m)"
      by (auto simp: covering_bind_None occupied_def)
    moreover have "der_outcome ?p = DerivedUncovered" using None d by (simp add: pair_one_def)
    ultimately show ?thesis by simp
  next
    case (Some k)
    note k = covering_bind_Some [OF Some]
    obtain b where b: "(k, b) \<in> set (combined st)" using k(1) by (auto simp: occupied_def)
    have p: "der_outcome ?p = DerivedMasked \<longleftrightarrow> is_mask b" "der_at ?p = Some k"
      using Some d got [OF b] by (auto simp: pair_one_def Let_def)
    show ?thesis
    proof
      assume "der_outcome ?p = DerivedMasked \<and> der_at ?p = Some m"
      with p b k(2) show "\<exists>b. (m, b) \<in> set (combined st) \<and> is_mask b \<and> is_within (decl_dest d) m" by auto
    next
      assume "\<exists>b. (m, b) \<in> set (combined st) \<and> is_mask b \<and> is_within (decl_dest d) m"
      then obtain b' where m: "(m, b') \<in> set (combined st)" "is_mask b'" "is_within (decl_dest d) m" by blast
      then have mo: "m \<in> occupied (combined st)" and mm: "m \<in> masked (combined st)"
        by (auto simp: occupied_def masked_def is_mask_def) force
      have "is_within k m" by (rule covering_bind_innermost [OF Some t mo m(3)])
      with l k(1) mm have "k = m" by (auto simp: layout_def)
      with got [OF b] got [OF m(1)] m(2) p show "der_outcome ?p = DerivedMasked \<and> der_at ?p = Some m" by simp
    qed
  qed
qed

lemma pair_one_masked_iff_witness:
  "der_outcome (pair_one \<lparr>decl_key = [], decl_dest = u ''/opt/x/y'', decl_src = Some (u ''/h/y''),
     decl_delivery = MOUNT\<rparr> (combined sample_state) [] (\<lambda>_. 1)) = DerivedMasked"
proof -
  let ?d = "\<lparr>decl_key = [], decl_dest = u ''/opt/x/y'', decl_src = Some (u ''/h/y''), decl_delivery = MOUNT\<rparr>"
  have d: "decl_delivery ?d \<noteq> COPY" by simp
  have "(u ''/opt/x'', MASK) \<in> set (combined sample_state)" by (simp add: sample_state_def)
  moreover have "is_mask MASK" "is_within (decl_dest ?d) (u ''/opt/x'')" by code_simp+
  ultimately show ?thesis using pair_one_masked_iff [OF sample_collapse d] by blast
qed

section \<open>Copies and variables\<close>

lemma refuse_uncovered_iff:
  "refuse_uncovered_synced bs copies = Inr () \<longleftrightarrow>
   (\<forall>c \<in> set copies. covering_bind bs (cp_dest c) \<noteq> None)"
  by (induction copies) (auto simp: refuse_uncovered_synced_def result_simps refuse_if_def)

text \<open>
  C34. A launch refuses a synced copy exactly when no mount of its map lies at or above the
  copy's destination; in particular a copy into home always has one.
\<close>

theorem refuse_uncovered_synced_iff:
  assumes "collapse_mounts sss home keys = Inr st"
  shows "(refuse_uncovered_synced (combined st) copies = Inr () \<longleftrightarrow>
      (\<forall>c \<in> set copies. \<exists>k \<in> set (dict_keys (combined st)). is_within (cp_dest c) k)) \<and>
    ((\<forall>c \<in> set copies. is_within (cp_dest c) HOME_DEST) \<longrightarrow>
      refuse_uncovered_synced (combined st) copies = Inr ())"
proof -
  have o: "set (dict_keys (combined st)) = occupied (combined st)" by (simp add: occupied_def)
  have "layout is_within HOME_DEST (occupied (combined st)) (masked (combined st))"
    using collapse_mounts_ok [OF assms] by (simp add: fold_ok_def)
  then have "HOME_DEST \<in> occupied (combined st)" by (simp add: layout_def)
  then show ?thesis unfolding o refuse_uncovered_iff covering_bind_None by blast
qed

lemma refuse_uncovered_synced_iff_witness:
  "refuse_uncovered_synced (combined sample_state)
     [\<lparr>cp_src = u ''/h/c'', cp_dest = HOME_DEST, cp_opts = None\<rparr>] = Inr ()"
  by (rule refuse_uncovered_synced_iff [OF sample_collapse, THEN conjunct2, THEN mp]) simp

lemma collapse_seeded_Inr:
  "collapse_seeded sss = Inr cs \<longleftrightarrow>
   (\<forall>r \<in> set (concat (map (\<lambda>sc. seed (shape_at sss sc)) SCOPE_CONTAINMENT)).
      is_within (normalize_bind_dest (fst r)) HOME_DEST) \<and>
   cs = map (\<lambda>(d, e). \<lparr>cp_src = bsrc e, cp_dest = normalize_bind_dest d, cp_opts = bopt e\<rparr>)
     (concat (map (\<lambda>sc. seed (shape_at sss sc)) SCOPE_CONTAINMENT))"
proof -
  have "mapE seed_row rs = Inr cs \<longleftrightarrow> (\<forall>r \<in> set rs. is_within (normalize_bind_dest (fst r)) HOME_DEST) \<and>
      cs = map (\<lambda>(d, e). \<lparr>cp_src = bsrc e, cp_dest = normalize_bind_dest d, cp_opts = bopt e\<rparr>) rs" for rs
  proof (induction rs arbitrary: cs)
    case (Cons r rs)
    then show ?case
      by (cases r) (auto simp: seed_row_def Let_def refuse_if_def result_simps)
  qed auto
  then show ?thesis by (simp add: collapse_seeded_def)
qed

text \<open>The entries of the environment walk, in the order it visits them.\<close>

definition env_walk :: "category_entry list \<Rightarrow> category_entry list" where
  "env_walk entries =
     concat (map (\<lambda>sc. filter (\<lambda>e. delivery e = ENV \<and> scope e = sc) entries) SCOPE_CONTAINMENT)"

definition slot_of :: "category_entry \<Rightarrow> pystr \<times> collapsed_env" where
  "slot_of e = (box_dest e, \<lparr>env_value = options e, env_scope = scope e, env_key = entry_key e\<rparr>)"

lemma env_scope_loop:
  "foldE (env_step sc) es slots = Inr slots' \<longleftrightarrow>
   (let ws = filter (\<lambda>e. delivery e = ENV \<and> scope e = sc) es in
    distinct (map box_dest ws) \<and> set (map box_dest ws) \<inter> fst ` set slots = {} \<and> slots' = slots @ map slot_of ws)"
proof (induction es arbitrary: slots)
  case (Cons e es)
  show ?case
  proof (cases "delivery e = ENV \<and> scope e = sc")
    case True
    have s: "env_step sc e slots = (if box_dest e \<in> fst ` set slots
        then Inl (EnvTwin (box_dest e) (env_key (the (map_of slots (box_dest e))))
          (env_scope (the (map_of slots (box_dest e)))) (entry_key e) (scope e))
        else Inr (slots @ [slot_of e]))"
      using True by (auto simp: env_step_def slot_of_def dict_set_new map_of_eq_None_iff [symmetric]
          split: option.splits)
    show ?thesis
      using True Cons.IH [of "slots @ [slot_of e]"]
      by (auto simp: s Let_def slot_of_def)
  next
    case False
    then have "env_step sc e slots = Inr slots" by (auto simp: env_step_def)
    with Cons.IH [of slots] False show ?thesis by (auto simp: Let_def)
  qed
qed auto

lemma slots_append:
  "distinct (map box_dest ws) \<and> set (map box_dest ws) \<inter> fst ` set slots = {} \<and>
   distinct (map box_dest vs) \<and> set (map box_dest vs) \<inter> fst ` set (slots @ map slot_of ws) = {} \<and>
     slots' = (slots @ map slot_of ws) @ map slot_of vs \<longleftrightarrow>
   distinct (map box_dest (ws @ vs)) \<and> set (map box_dest (ws @ vs)) \<inter> fst ` set slots = {} \<and>
     slots' = slots @ map slot_of (ws @ vs)"
proof -
  have f: "fst ` set (slots @ map slot_of ws) = fst ` set slots \<union> set (map box_dest ws)"
    by (simp add: slot_of_def image_Un image_image)
  show ?thesis
    unfolding f
    unfolding map_append distinct_append set_append append_assoc
      Int_Un_distrib Int_Un_distrib2 Un_empty Int_commute [of "set (map box_dest vs)" "set (map box_dest ws)"]
    by (simp only: conj_ac)
qed

lemma env_scopes_loop:
  "foldE (\<lambda>sc. foldE (env_step sc) es) scs slots = Inr slots' \<longleftrightarrow>
   (let ws = concat (map (\<lambda>sc. filter (\<lambda>e. delivery e = ENV \<and> scope e = sc) es) scs) in
    distinct (map box_dest ws) \<and> set (map box_dest ws) \<inter> fst ` set slots = {} \<and> slots' = slots @ map slot_of ws)"
proof (induction scs arbitrary: slots)
  case (Cons sc scs)
  let ?ws = "filter (\<lambda>e. delivery e = ENV \<and> scope e = sc) es"
  have "foldE (\<lambda>sc. foldE (env_step sc) es) (sc # scs) slots = Inr slots' \<longleftrightarrow>
      (\<exists>s1. foldE (env_step sc) es slots = Inr s1 \<and> foldE (\<lambda>sc. foldE (env_step sc) es) scs s1 = Inr slots')"
    by (simp add: result_simps)
  also have "\<dots> \<longleftrightarrow> distinct (map box_dest ?ws) \<and> set (map box_dest ?ws) \<inter> fst ` set slots = {} \<and>
      foldE (\<lambda>sc. foldE (env_step sc) es) scs (slots @ map slot_of ?ws) = Inr slots'"
    unfolding env_scope_loop Let_def by blast
  finally show ?case
    unfolding Cons.IH Let_def list.map concat.simps by (rule trans [OF _ slots_append])
qed auto

lemma cli_env_lookup:
  assumes "distinct (dict_keys cli)"
  shows "map_of (apply_cli_env slots cli) var =
    (case map_of cli var of
       None \<Rightarrow> map_of slots var
     | Some val \<Rightarrow> Some (case map_of slots var of
         Some held \<Rightarrow> held\<lparr>env_value := val\<rparr>
       | None \<Rightarrow> \<lparr>env_value = val, env_scope = CLI_PROVENANCE_SCOPE, env_key = u ''-e '' @ var\<rparr>))"
  using assms
proof (induction cli arbitrary: slots)
  case (Cons c cli)
  obtain v val where c: "c = (v, val)" by (cases c)
  have fresh: "map_of cli v = None" using Cons.prems by (simp add: c map_of_eq_None_iff)
  have step: "apply_cli_env slots (c # cli) = apply_cli_env (dict_set v
      (case map_of slots v of
         Some held \<Rightarrow> \<lparr>env_value = val, env_scope = env_scope held, env_key = env_key held\<rparr>
       | None \<Rightarrow> \<lparr>env_value = val, env_scope = CLI_PROVENANCE_SCOPE, env_key = u ''-e '' @ v\<rparr>) slots) cli"
    by (simp add: apply_cli_env_def c)
  show ?case
    unfolding step using Cons fresh by (auto simp: c split: option.splits)
qed (simp add: apply_cli_env_def)

text \<open>
  C32. The variables of a box: the collapse succeeds exactly when no two entries of the walk name
  one variable; then every named variable holds its entry's value and provenance, a per-run value
  replaces the value and keeps the owner, and one that no key names gets a slot of its own.
\<close>

theorem collapse_env_slots:
  assumes "distinct (dict_keys cli)"
  shows "((\<exists>r. collapse_env entries cli = Inr r) \<longleftrightarrow> distinct (map box_dest (env_walk entries))) \<and>
    (\<forall>r var. collapse_env entries cli = Inr r \<longrightarrow> map_of r var =
      (let slot = map_of (map slot_of (env_walk entries)) var in
       case map_of cli var of
         None \<Rightarrow> slot
       | Some val \<Rightarrow> Some (case slot of
           Some held \<Rightarrow> held\<lparr>env_value := val\<rparr>
         | None \<Rightarrow> \<lparr>env_value = val, env_scope = CLI_PROVENANCE_SCOPE, env_key = u ''-e '' @ var\<rparr>)))"
proof -
  have "collapse_env entries cli = Inr r \<longleftrightarrow> distinct (map box_dest (env_walk entries)) \<and>
      r = apply_cli_env (map slot_of (env_walk entries)) cli" for r
    by (auto simp: collapse_env_def result_simps env_scopes_loop Let_def env_walk_def)
  then show ?thesis by (auto simp: cli_env_lookup [OF assms] Let_def)
qed

lemma collapse_env_slots_witness:
  "\<exists>r. collapse_env [] [(u ''A'', u ''1'')] = Inr r \<and> map_of r (u ''A'') =
     Some \<lparr>env_value = u ''1'', env_scope = CLI_PROVENANCE_SCOPE, env_key = u ''-e '' @ u ''A''\<rparr>"
proof -
  have d: "distinct (dict_keys [(u ''A'', u ''1'')])" by simp
  have w: "env_walk [] = []" by (simp add: env_walk_def SCOPE_CONTAINMENT_def)
  note c = collapse_env_slots [OF d, of "[]", unfolded w]
  then obtain r where r: "collapse_env [] [(u ''A'', u ''1'')] = Inr r" by auto
  with c [THEN conjunct2] have "map_of r (u ''A'') =
     Some \<lparr>env_value = u ''1'', env_scope = CLI_PROVENANCE_SCOPE, env_key = u ''-e '' @ u ''A''\<rparr>"
    by (simp add: Let_def)
  with r show ?thesis by blast
qed

section \<open>From the entries to the copies\<close>

lemma build_set_shape:
  assumes "build_store_shape_set entries = Inr sss" "sc \<in> set SCOPE_CONTAINMENT"
  shows "\<exists>ws. build_store_shape (scope_entries entries sc) = Inr (shape_at sss sc, ws)"
proof -
  have loop: "foldE (add_scope_shape entries) scs acc = Inr sss \<Longrightarrow> distinct scs \<Longrightarrow> sc \<in> set scs \<or>
      (\<exists>ws. build_store_shape (scope_entries entries sc) = Inr (shape_at acc sc, ws)) \<Longrightarrow>
      \<exists>ws. build_store_shape (scope_entries entries sc) = Inr (shape_at sss sc, ws)" for scs acc
  proof (induction scs arbitrary: acc)
    case (Cons c scs)
    from Cons.prems(1) obtain acc' where a: "add_scope_shape entries c acc = Inr acc'"
      and "foldE (add_scope_shape entries) scs acc' = Inr sss" by (rule foldE_ConsE)
    moreover from a obtain sh ws where b: "build_store_shape (scope_entries entries c) = Inr (sh, ws)"
      and "acc' = \<lparr>shapes = dict_set c sh (shapes acc), warnings = warnings acc @ ws\<rparr>"
      by (auto simp: result_simps add_scope_shape_def)
    ultimately have r: "foldE (add_scope_shape entries) scs
        \<lparr>shapes = dict_set c sh (shapes acc), warnings = warnings acc @ ws\<rparr> = Inr sss" by simp
    show ?case
    proof (rule Cons.IH [OF r])
      show "distinct scs" using Cons.prems(2) by simp
      show "sc \<in> set scs \<or> (\<exists>ws'. build_store_shape (scope_entries entries sc) =
          Inr (shape_at \<lparr>shapes = dict_set c sh (shapes acc), warnings = warnings acc @ ws\<rparr> sc, ws'))"
        using Cons.prems(3) b by (auto simp: shape_at_def)
    qed
  qed auto
  from assms obtain "foldE (add_scope_shape entries) SCOPE_CONTAINMENT \<lparr>shapes = [], warnings = []\<rparr> = Inr sss"
    by (auto simp: build_store_shape_set_def result_simps)
  from loop [OF this] assms(2) show ?thesis by (auto simp: SCOPE_CONTAINMENT_def u_def)
qed

text \<open>The entries of one category, scope by scope in containment order.\<close>

definition scoped :: "pystr \<Rightarrow> category_entry list \<Rightarrow> category_entry list" where
  "scoped cat entries =
     concat (map (\<lambda>sc. filter (\<lambda>e. scope e = sc \<and> category e = cat) entries) SCOPE_CONTAINMENT)"

definition copy_of :: "category_entry \<Rightarrow> collapsed_copy" where
  "copy_of e = \<lparr>cp_src = the (host_src e), cp_dest = normalize_bind_dest (box_dest e), cp_opts = Some (options e)\<rparr>"

lemma has_arm_copy: "category e = u ''seeded'' \<or> category e = u ''synced'' \<Longrightarrow> has_arm e"
  by (auto simp: has_arm_def arm_of_def NO_ARM_def ARM_def u_def)

lemma scope_rows:
  assumes "cat = u ''seeded'' \<or> cat = u ''synced''"
  shows "rows [cat] (scope_entries entries sc) =
    map (\<lambda>e. (box_dest e, bind_of e)) (filter (\<lambda>e. scope e = sc \<and> category e = cat) entries)"
proof -
  have "filter (\<lambda>e. category e \<in> set [cat]) (scope_entries entries sc) =
      filter (\<lambda>e. scope e = sc \<and> category e = cat) entries"
    unfolding scope_entries_def filter_filter by (rule filter_cong) (use assms has_arm_copy in auto)
  then show ?thesis by (simp add: rows_def)
qed

text \<open>
  C31. From declaration to delivery no copy is lost, reordered or arbitrated: once the shapes are
  built, the synced list is every synced entry, scope by scope in declaration order, and the
  seeded list every seeded one, which the fold refuses exactly when one of them lies outside home.
\<close>

theorem copies_are_lossless:
  assumes "build_store_shape_set entries = Inr sss"
  shows "collapse_synced sss = map copy_of (scoped (u ''synced'') entries) \<and>
    (\<forall>cs. collapse_seeded sss = Inr cs \<longleftrightarrow>
      (\<forall>e \<in> set (scoped (u ''seeded'') entries). is_within (normalize_bind_dest (box_dest e)) HOME_DEST) \<and>
      cs = map copy_of (scoped (u ''seeded'') entries))"
proof -
  have arms: "seed (shape_at sss sc) = map (\<lambda>e. (box_dest e, bind_of e))
        (filter (\<lambda>e. scope e = sc \<and> category e = u ''seeded'') entries)"
      "sync (shape_at sss sc) = map (\<lambda>e. (box_dest e, bind_of e))
        (filter (\<lambda>e. scope e = sc \<and> category e = u ''synced'') entries)"
    if sc: "sc \<in> set SCOPE_CONTAINMENT" for sc
  proof -
    obtain ws where b: "build_store_shape (scope_entries entries sc) = Inr (shape_at sss sc, ws)"
      using build_set_shape [OF assms sc] by blast
    show "seed (shape_at sss sc) = map (\<lambda>e. (box_dest e, bind_of e))
        (filter (\<lambda>e. scope e = sc \<and> category e = u ''seeded'') entries)"
      "sync (shape_at sss sc) = map (\<lambda>e. (box_dest e, bind_of e))
        (filter (\<lambda>e. scope e = sc \<and> category e = u ''synced'') entries)"
      using build_shape_copies [OF b] scope_rows by auto
  qed
  have "concat (map (\<lambda>sc. seed (shape_at sss sc)) SCOPE_CONTAINMENT) =
      map (\<lambda>e. (box_dest e, bind_of e)) (scoped (u ''seeded'') entries)"
    "concat (map (\<lambda>sc. sync (shape_at sss sc)) SCOPE_CONTAINMENT) =
      map (\<lambda>e. (box_dest e, bind_of e)) (scoped (u ''synced'') entries)"
    unfolding scoped_def map_concat map_map
    by (rule arg_cong [where f = concat], rule map_cong, simp_all add: arms)+
  moreover have m: "map (\<lambda>(d, e). \<lparr>cp_src = bsrc e, cp_dest = normalize_bind_dest d, cp_opts = bopt e\<rparr>)
      (map (\<lambda>e. (box_dest e, bind_of e)) es) = map copy_of es" for es
    by (simp add: copy_of_def bind_of_def)
  ultimately show ?thesis
    unfolding collapse_seeded_Inr collapse_synced_def by (simp only: m) simp
qed

lemma copies_are_lossless_witness:
  "\<exists>sss. build_store_shape_set sample_scope = Inr sss \<and> collapse_synced sss = []"
proof -
  have "\<not> isl (build_store_shape_set sample_scope)" by code_simp
  then obtain sss where r: "build_store_shape_set sample_scope = Inr sss"
    by (cases "build_store_shape_set sample_scope") auto
  have "scoped (u ''synced'') sample_scope = []" by code_simp
  with copies_are_lossless [OF r] r show ?thesis by simp
qed

end
