(* ===== verification/Effects.thy ===== *)
theory Effects imports Prelude begin

text \<open>
  Code with effects as a function of its state: it ends with a value or with a raised
  exception, and in both cases with a new state. \<open>try/except\<close>, \<open>try/finally\<close> and loops are
  combinators. Operations the code reaches through an injectable seam (a subprocess, the
  clock, a signal, the file system) are questions to an environment, which answers from a
  state of its own; every question is kept in a trace together with whether it was answered
  or raised, so that what a program does to the world is what its trace says.
\<close>

named_theorems run_simps "running the combinators"
named_theorems moves_intros "which calls a composed operation can make"

section \<open>Exceptions\<close>

text \<open>
  The exception classes the modelled handlers tell apart. The first five are \<open>OSError\<close> and
  three of its subclasses; the rest are not. \<open>KeyboardInterrupt\<close> and \<open>SystemExit\<close>, which
  \<open>except Exception\<close> lets through, are not modelled.
\<close>

datatype exn =
    ProcessLookupError | PermissionError | FileNotFoundError | ChildProcessError | OSError
  | ValueError | SubprocessError | OtherError

definition os_error :: "exn \<Rightarrow> bool" where
  "os_error e \<longleftrightarrow> e \<notin> {ValueError, SubprocessError, OtherError}"

section \<open>The combinators\<close>

type_synonym ('s, 'e, 'a) xact = "'s \<Rightarrow> ('e + 'a) \<times> 's"
type_synonym ('s, 'a) act = "('s, exn, 'a) xact"

definition ret :: "'a \<Rightarrow> ('s, 'e, 'a) xact" where
  "ret x = (\<lambda>s. (Inr x, s))"

definition raise :: "'e \<Rightarrow> ('s, 'e, 'a) xact" where
  "raise e = (\<lambda>s. (Inl e, s))"

definition bindA :: "('s, 'e, 'a) xact \<Rightarrow> ('a \<Rightarrow> ('s, 'e, 'b) xact) \<Rightarrow> ('s, 'e, 'b) xact" where
  "bindA m f = (\<lambda>s. case m s of (Inl e, s') \<Rightarrow> (Inl e, s') | (Inr x, s') \<Rightarrow> f x s')"

definition thenA :: "('s, 'e, 'a) xact \<Rightarrow> ('s, 'e, 'b) xact \<Rightarrow> ('s, 'e, 'b) xact" where
  "thenA m n = bindA m (\<lambda>_. n)"

text \<open>\<open>try: m / except <caught> as e: h e\<close>; the state keeps what \<open>m\<close> did before it raised.\<close>

definition catch :: "('e \<Rightarrow> bool) \<Rightarrow> ('s, 'e, 'a) xact \<Rightarrow> ('e \<Rightarrow> ('s, 'e, 'a) xact) \<Rightarrow> ('s, 'e, 'a) xact" where
  "catch caught m h = (\<lambda>s. case m s of
     (Inl e, s') \<Rightarrow> (if caught e then h e s' else (Inl e, s'))
   | (Inr x, s') \<Rightarrow> (Inr x, s'))"

text \<open>\<open>try: m / finally: c\<close>: what \<open>c\<close> raises replaces what \<open>m\<close> gave.\<close>

definition finallyA :: "('s, 'e, 'a) xact \<Rightarrow> ('s, 'e, unit) xact \<Rightarrow> ('s, 'e, 'a) xact" where
  "finallyA m c = (\<lambda>s. case m s of (r, s') \<Rightarrow>
     (case c s' of (Inl e, s'') \<Rightarrow> (Inl e, s'') | (Inr _, s'') \<Rightarrow> (r, s'')))"

definition gets :: "('s \<Rightarrow> 'a) \<Rightarrow> ('s, 'e, 'a) xact" where
  "gets f = (\<lambda>s. (Inr (f s), s))"

definition change :: "('s \<Rightarrow> 's) \<Rightarrow> ('s, 'e, unit) xact" where
  "change f = (\<lambda>s. (Inr (), f s))"

definition whenA :: "bool \<Rightarrow> ('s, 'e, unit) xact \<Rightarrow> ('s, 'e, unit) xact" where
  "whenA b m = (if b then m else ret ())"

definition lift :: "'e + 'a \<Rightarrow> ('s, 'e, 'a) xact" where
  "lift r = (\<lambda>s. (r, s))"

fun forA :: "('x \<Rightarrow> ('s, 'e, unit) xact) \<Rightarrow> 'x list \<Rightarrow> ('s, 'e, unit) xact" where
  "forA f [] = ret ()"
| "forA f (x # xs) = thenA (f x) (forA f xs)"

fun mapA :: "('x \<Rightarrow> ('s, 'e, 'a) xact) \<Rightarrow> 'x list \<Rightarrow> ('s, 'e, 'a list) xact" where
  "mapA f [] = ret []"
| "mapA f (x # xs) = bindA (f x) (\<lambda>y. bindA (mapA f xs) (\<lambda>ys. ret (y # ys)))"

text \<open>A loop with an accumulator: \<open>for x in xs: acc = f(x, acc)\<close>.\<close>

fun foldA :: "('x \<Rightarrow> 'a \<Rightarrow> ('s, 'e, 'a) xact) \<Rightarrow> 'x list \<Rightarrow> 'a \<Rightarrow> ('s, 'e, 'a) xact" where
  "foldA f [] a = ret a"
| "foldA f (x # xs) a = bindA (f x a) (foldA f xs)"

declare ret_def [run_simps] raise_def [run_simps] gets_def [run_simps] change_def [run_simps]
  lift_def [run_simps] whenA_def [run_simps] bindA_def [run_simps] thenA_def [run_simps]
  catch_def [run_simps] finallyA_def [run_simps]

lemma ret_bind [simp]: "bindA (ret x) f = f x"
  by (simp add: run_simps)

lemma bind_ret [simp]: "bindA m ret = m"
  by (rule ext) (simp add: run_simps split: prod.splits sum.splits)

lemma bindA_assoc: "bindA (bindA m f) g = bindA m (\<lambda>x. bindA (f x) g)"
  by (rule ext) (simp add: bindA_def split: prod.splits sum.splits)

lemma catch_ret [simp]: "catch p (ret x) h = ret x"
  by (simp add: run_simps)

text \<open>Running a composed operation, one part at a time.\<close>

named_theorems run_rules "the next state of a composed operation, from that of its parts"

lemma bindA_run [run_rules]:
  "m s = (Inr x, s') \<Longrightarrow> bindA m f s = f x s'"
  "m s = (Inl e, s') \<Longrightarrow> bindA m f s = (Inl e, s')"
  by (simp_all add: bindA_def)

lemma thenA_run [run_rules]:
  "m s = (Inr x, s') \<Longrightarrow> thenA m n s = n s'"
  "m s = (Inl e, s') \<Longrightarrow> thenA m n s = (Inl e, s')"
  by (simp_all add: thenA_def bindA_def)

lemma catch_run [run_rules]:
  "m s = (Inr x, s') \<Longrightarrow> catch p m h s = (Inr x, s')"
  "m s = (Inl e, s') \<Longrightarrow> p e \<Longrightarrow> catch p m h s = h e s'"
  by (simp_all add: catch_def)

lemma step_run [run_rules]:
  "ret x s = (Inr x, s)" "bindA (gets f) g s = g (f s) s" "thenA (change t) n s = n (t s)"
  by (simp_all add: run_simps)

section \<open>Relations every step respects\<close>

text \<open>
  A reflexive and transitive relation that each part of a program respects, the program
  respects. The laws are stated once for any such relation.
\<close>

definition steps_in :: "('s \<Rightarrow> 's \<Rightarrow> bool) \<Rightarrow> ('s, 'e, 'a) xact \<Rightarrow> bool" where
  "steps_in R m \<longleftrightarrow> (\<forall>s. R s (snd (m s)))"

lemma steps_inD: "steps_in R m \<Longrightarrow> R s (snd (m s))"
  by (simp add: steps_in_def)

lemma steps_in_run: "steps_in R m \<Longrightarrow> m s = (r, s') \<Longrightarrow> R s s'"
  by (metis snd_conv steps_in_def)

locale step_order =
  fixes R :: "'s \<Rightarrow> 's \<Rightarrow> bool"
  assumes refl: "R s s"
    and trans: "R s s' \<Longrightarrow> R s' s'' \<Longrightarrow> R s s''"
begin

lemma ret: "steps_in R (ret x)"
  by (simp add: steps_in_def run_simps refl)

lemma raise: "steps_in R (raise e)"
  by (simp add: steps_in_def run_simps refl)

lemma gets: "steps_in R (gets f)"
  by (simp add: steps_in_def run_simps refl)

lemma lift: "steps_in R (lift r)"
  by (simp add: steps_in_def run_simps refl)

lemma bind: "steps_in R m \<Longrightarrow> (\<And>x. steps_in R (f x)) \<Longrightarrow> steps_in R (bindA m f)"
  unfolding steps_in_def
  by (auto simp: bindA_def split: prod.splits sum.splits) (metis snd_conv trans)+

lemma seq: "steps_in R m \<Longrightarrow> steps_in R n \<Longrightarrow> steps_in R (thenA m n)"
  unfolding thenA_def by (rule bind)

lemma catch: "steps_in R m \<Longrightarrow> (\<And>e. steps_in R (h e)) \<Longrightarrow> steps_in R (catch p m h)"
  unfolding steps_in_def
  by (auto simp: catch_def split: prod.splits sum.splits) (metis snd_conv trans)+

lemma fin: "steps_in R m \<Longrightarrow> steps_in R c \<Longrightarrow> steps_in R (finallyA m c)"
  unfolding steps_in_def
  by (auto simp: finallyA_def split: prod.splits sum.splits) (metis snd_conv trans)+

lemma whenever: "(b \<Longrightarrow> steps_in R m) \<Longrightarrow> steps_in R (whenA b m)"
  by (simp add: whenA_def ret)

lemma loop: "(\<And>x. x \<in> set xs \<Longrightarrow> steps_in R (f x)) \<Longrightarrow> steps_in R (forA f xs)"
  by (induction xs) (auto intro: ret seq)

lemma fold: "(\<And>x a. x \<in> set xs \<Longrightarrow> steps_in R (f x a)) \<Longrightarrow> steps_in R (foldA f xs a)"
  by (induction xs arbitrary: a) (auto intro!: ret bind)

lemma map: "(\<And>x. x \<in> set xs \<Longrightarrow> steps_in R (f x)) \<Longrightarrow> steps_in R (mapA f xs)"
  by (induction xs) (auto intro!: ret bind)

lemma cond: "(b \<Longrightarrow> steps_in R m) \<Longrightarrow> (\<not> b \<Longrightarrow> steps_in R n) \<Longrightarrow> steps_in R (if b then m else n)"
  by simp

lemma opt: "(x = None \<Longrightarrow> steps_in R m) \<Longrightarrow> (\<And>y. x = Some y \<Longrightarrow> steps_in R (f y)) \<Longrightarrow>
    steps_in R (case x of None \<Rightarrow> m | Some y \<Rightarrow> f y)"
  by (cases x) auto

lemmas laws = ret raise gets lift bind seq catch fin whenever loop fold map cond opt

end

end
