(* ===== verification/Supervisor.thy ===== *)
theory Supervisor imports Complex_Main Effects begin

text \<open>
  The rules of the box supervisor (\<open>box_lifecycle.py\<close>, \<open>box_supervisor.py\<close>): which client
  surfaces are attached and what a change of them means, which process is the agent session,
  which liveness markers are stale, how a pane's death reads as an exit code, and whether the
  flattened instruction file still matches its receipt. Nothing here touches the system; the
  operations that do are in the next theory.
\<close>

section \<open>Text of the tools\<close>

text \<open>\<open>s.split()\<close>: the maximal runs of characters that are not white space.\<close>

function split_ws :: "pystr \<Rightarrow> pystr list" where
  "split_ws s = (case dropWhile is_space s of
     [] \<Rightarrow> []
   | c # t \<Rightarrow> (c # takeWhile (\<lambda>x. \<not> is_space x) t) # split_ws (dropWhile (\<lambda>x. \<not> is_space x) t))"
  by auto
termination
proof (relation "measure length", simp)
  fix s c t
  assume eq: "dropWhile is_space s = c # t"
  have "length (dropWhile (\<lambda>x. \<not> is_space x) t) \<le> length t"
    by (rule length_dropWhile_le)
  also have "\<dots> < length s"
    using length_dropWhile_le [of is_space s] eq by simp
  finally show "(dropWhile (\<lambda>x. \<not> is_space x) t, s) \<in> measure length" by simp
qed

declare split_ws.simps [simp del]

lemma split_ws_word: "s \<noteq> [] \<Longrightarrow> list_all (\<lambda>c. \<not> is_space c) s \<Longrightarrow> split_ws s = [s]"
proof (cases s)
  case (Cons c t)
  assume "list_all (\<lambda>c. \<not> is_space c) s"
  then have c: "\<not> is_space c" and t: "\<forall>x \<in> set t. \<not> is_space x"
    by (simp_all add: Cons list_all_iff)
  then have 1: "takeWhile (\<lambda>x. \<not> is_space x) t = t"
    and 2: "dropWhile (\<lambda>x. \<not> is_space x) t = []"
    by simp_all
  have "split_ws s = (c # takeWhile (\<lambda>x. \<not> is_space x) t) # split_ws (dropWhile (\<lambda>x. \<not> is_space x) t)"
    using c by (subst split_ws.simps) (simp add: Cons)
  also have "\<dots> = [s]" unfolding 1 2 by (simp add: Cons split_ws.simps)
  finally show ?thesis .
qed simp

text \<open>\<open>s.splitlines()\<close>: a carriage return and a line feed are one break.\<close>

definition line_break :: "nat \<Rightarrow> bool" where
  "line_break c \<longleftrightarrow> 10 \<le> c \<and> c \<le> 13 \<or> 28 \<le> c \<and> c \<le> 30 \<or> c = 133 \<or> c = 8232 \<or> c = 8233"

fun splitlines :: "pystr \<Rightarrow> pystr list" where
  "splitlines [] = []"
| "splitlines [c] = (if line_break c then [[]] else [[c]])"
| "splitlines (c # d # s) =
     (if c = 13 \<and> d = 10 then [] # splitlines s
      else if line_break c then [] # splitlines (d # s)
      else (case splitlines (d # s) of [] \<Rightarrow> [[c]] | l # ls \<Rightarrow> (c # l) # ls))"

definition starts_with :: "pystr \<Rightarrow> pystr \<Rightarrow> bool" where
  "starts_with p s \<longleftrightarrow> take (length p) s = p"

text \<open>\<open>s.partition(c)\<close> without its separator: what precedes and what follows the first \<open>c\<close>.\<close>

definition partition_char :: "nat \<Rightarrow> pystr \<Rightarrow> pystr \<times> pystr" where
  "partition_char c s = (takeWhile (\<lambda>x. x \<noteq> c) s, tl (dropWhile (\<lambda>x. x \<noteq> c) s))"

text \<open>\<open>os.path.basename\<close>.\<close>

definition basename :: "pystr \<Rightarrow> pystr" where
  "basename s = snd (snd (rpartition 47 s))"

text \<open>
  \<open>str.isdigit\<close> and \<open>int\<close> read the Unicode tables beyond ASCII: \<open>digit_char\<close> are the other
  code points with \<open>isdigit\<close> (superscripts among them), \<open>digit_value\<close> gives the value of those
  \<open>int\<close> accepts. The interpreter's limit on the length of a numeral is not modelled.
\<close>

record numerals =
  digit_char :: "nat \<Rightarrow> bool"
  digit_value :: "nat \<Rightarrow> nat option"

definition ascii_numerals :: numerals where
  "ascii_numerals = \<lparr>digit_char = (\<lambda>_. False), digit_value = (\<lambda>_. None)\<rparr>"

definition isdigit :: "numerals \<Rightarrow> pystr \<Rightarrow> bool" where
  "isdigit N s \<longleftrightarrow> s \<noteq> [] \<and> list_all (\<lambda>c. if c < 128 then ascii_digit c else digit_char N c) s"

definition value_of :: "numerals \<Rightarrow> nat \<Rightarrow> nat option" where
  "value_of N c = (if c < 128 then if ascii_digit c then Some (c - 48) else None
                   else digit_value N c)"

fun numeral_value :: "numerals \<Rightarrow> nat \<Rightarrow> bool \<Rightarrow> pystr \<Rightarrow> nat option" where
  "numeral_value N acc after_digit [] = (if after_digit then Some acc else None)"
| "numeral_value N acc after_digit (c # s) =
     (if c = 95 then if after_digit then numeral_value N acc False s else None
      else case value_of N c of None \<Rightarrow> None
           | Some d \<Rightarrow> numeral_value N (10 * acc + d) True s)"

definition int_of :: "numerals \<Rightarrow> pystr \<Rightarrow> exn + int" where
  "int_of N s =
     (let t = strip s;
          r = (case t of
                 [] \<Rightarrow> None
               | c # t' \<Rightarrow>
                   if c = 45 then map_option (\<lambda>n. - int n) (numeral_value N 0 False t')
                   else if c = 43 then map_option int (numeral_value N 0 False t')
                   else map_option int (numeral_value N 0 False t))
      in case r of None \<Rightarrow> Inl ValueError | Some n \<Rightarrow> Inr n)"

section \<open>Surfaces and their transitions\<close>

text \<open>\<open>is_vscode_server_path_part\<close> and \<open>vscode_server_present\<close>.\<close>

definition is_vscode_server_path_part :: "pystr \<Rightarrow> bool" where
  "is_vscode_server_path_part part \<longleftrightarrow>
     starts_with (u ''.vscode-server'') part \<or> part = u ''.cursor-server''"

definition vscode_server_present :: "pystr list \<Rightarrow> bool" where
  "vscode_server_present cmdlines \<longleftrightarrow>
     list_ex (\<lambda>cmdline. list_ex is_vscode_server_path_part (split_char 47 cmdline)) cmdlines"

definition tmux_terminal_attached :: "pystr \<Rightarrow> bool" where
  "tmux_terminal_attached out \<longleftrightarrow> strip out \<noteq> []"

record attach_state =
  vscode_server :: bool
  tmux_terminal :: bool

definition detached :: attach_state where
  "detached = \<lparr>vscode_server = False, tmux_terminal = False\<rparr>"

definition any_attached :: "attach_state \<Rightarrow> bool" where
  "any_attached s \<longleftrightarrow> vscode_server s \<or> tmux_terminal s"

definition surfaces :: "attach_state \<Rightarrow> bool list" where
  "surfaces s = [vscode_server s, tmux_terminal s]"

datatype lifecycle_event = ATTACH | DETACH | NO_EVENT

definition classify_transition :: "attach_state \<Rightarrow> attach_state \<Rightarrow> lifecycle_event" where
  "classify_transition prev cur =
     (if list_ex (\<lambda>(p, c). p \<and> \<not> c) (zip (surfaces prev) (surfaces cur)) then DETACH
      else if list_ex (\<lambda>(p, c). c \<and> \<not> p) (zip (surfaces prev) (surfaces cur)) then ATTACH
      else NO_EVENT)"

lemma classify_detach_iff:
  "classify_transition p c = DETACH \<longleftrightarrow>
     vscode_server p \<and> \<not> vscode_server c \<or> tmux_terminal p \<and> \<not> tmux_terminal c"
  by (auto simp: classify_transition_def surfaces_def)

section \<open>Which process is the agent session\<close>

type_synonym agent_head = "pystr \<times> pystr option"

definition parse_stat_state :: "pystr \<Rightarrow> pystr option" where
  "parse_stat_state stat_text =
     (case rpartition 41 stat_text of (_, sep, tail) \<Rightarrow>
        if \<not> sep then None
        else (case split_ws tail of [] \<Rightarrow> None | f # _ \<Rightarrow> Some f))"

text \<open>\<open>_argv_head\<close>: the program's base name and the subcommand, if the next word is not an option.\<close>

definition argv_head :: "pystr list \<Rightarrow> agent_head option" where
  "argv_head argv =
     (case argv of
        [] \<Rightarrow> None
      | a # args \<Rightarrow>
          (case split_ws a of
             [] \<Rightarrow> None
           | w # ws \<Rightarrow>
               (let program = basename w
                in if program = [] \<or> starts_with (u ''-'') program then None
                   else (case ws @ args of
                           [] \<Rightarrow> Some (program, None)
                         | r # _ \<Rightarrow> Some (program, if starts_with (u ''-'') r then None else Some r)))))"

text \<open>Peeling \<open>sh -c <script> sh\<close> layers off the front of a launch.\<close>

fun peel_shims :: "pystr list \<Rightarrow> pystr list" where
  "peel_shims (a # b # c # d # e # r) =
     (if a = u ''sh'' \<and> b = u ''-c'' \<and> d = u ''sh'' then peel_shims (e # r)
      else a # b # c # d # e # r)"
| "peel_shims r = r"

definition agent_launch_heads :: "pystr list list \<Rightarrow> agent_head set" where
  "agent_launch_heads argvs =
     fold (\<lambda>argv heads. case argv_head (peel_shims argv) of
                          None \<Rightarrow> heads | Some h \<Rightarrow> insert h heads) argvs {}"

definition names_an_agent :: "pystr list \<Rightarrow> agent_head set \<Rightarrow> bool" where
  "names_an_agent argv heads \<longleftrightarrow>
     list_ex (\<lambda>part. \<exists>name \<in> fst ` heads. starts_with name part)
       (split_char 47 (join_char 32 argv))"

definition agent_session_verdict :: "pystr list \<Rightarrow> agent_head set \<Rightarrow> bool option" where
  "agent_session_verdict argv heads =
     (if heads = {} then None
      else (case argv_head argv of
              None \<Rightarrow> None
            | Some h \<Rightarrow>
                if h \<in> heads then Some True
                else if fst h \<in> fst ` heads then Some False
                else if names_an_agent argv heads then None
                else Some False))"

lemma agent_launch_heads_iff:
  "h \<in> agent_launch_heads argvs \<longleftrightarrow> (\<exists>argv \<in> set argvs. argv_head (peel_shims argv) = Some h)"
proof -
  have "h \<in> fold (\<lambda>argv heads. case argv_head (peel_shims argv) of
          None \<Rightarrow> heads | Some h \<Rightarrow> insert h heads) argvs H \<longleftrightarrow>
        h \<in> H \<or> (\<exists>argv \<in> set argvs. argv_head (peel_shims argv) = Some h)" for H
    by (induction argvs arbitrary: H) (auto split: option.splits)
  then show ?thesis by (simp add: agent_launch_heads_def)
qed

text \<open>A launch wrapped in one shim per script, the first outermost.\<close>

definition shim :: "pystr \<Rightarrow> pystr list \<Rightarrow> pystr list" where
  "shim script argv = [u ''sh'', u ''-c'', script, u ''sh''] @ argv"

lemma peel_shim: "argv \<noteq> [] \<Longrightarrow> peel_shims (shim script argv) = peel_shims argv"
  by (cases argv) (simp_all add: shim_def)

lemma peel_shim_layers:
  "argv \<noteq> [] \<Longrightarrow> foldr shim scripts argv \<noteq> [] \<and> peel_shims (foldr shim scripts argv) = peel_shims argv"
proof (induction scripts)
  case (Cons s ss)
  then show ?case by (simp add: peel_shim) (simp add: shim_def)
qed simp

text \<open>
  C10. However many launch shims wrap the start or the continue grammar, the process it ends
  in is judged to be the session: its liveness marker is never reaped while it lives.
\<close>

theorem launched_agent_is_session:
  assumes "argv \<in> {start, continue}" "peel_shims argv = argv" "argv_head argv \<noteq> None"
  shows "agent_session_verdict argv
           (agent_launch_heads [foldr shim scripts start, foldr shim scripts' continue]) = Some True"
proof -
  from assms(3) obtain h where h: "argv_head argv = Some h" by blast
  then have "argv \<noteq> []" by (auto simp: argv_head_def)
  with assms(1,2) h have "\<exists>a \<in> set [foldr shim scripts start, foldr shim scripts' continue].
      argv_head (peel_shims a) = Some h"
    using peel_shim_layers [of argv scripts] peel_shim_layers [of argv scripts'] by auto
  then have "h \<in> agent_launch_heads [foldr shim scripts start, foldr shim scripts' continue]"
    by (simp only: agent_launch_heads_iff)
  with h show ?thesis by (auto simp: agent_session_verdict_def)
qed

lemma argv_head_claude: "argv_head [u ''claude'', u ''--continue''] = Some (u ''claude'', None)"
proof -
  have "split_ws (u ''claude'') = [u ''claude'']"
    by (rule split_ws_word) (simp_all add: u_def is_space_def)
  moreover have "basename (u ''claude'') = u ''claude''"
    by (simp add: basename_def rpartition_free u_def)
  ultimately show ?thesis by (simp add: argv_head_def starts_with_def u_def)
qed

lemma launched_agent_is_session_witness:
  "agent_session_verdict [u ''claude'', u ''--continue'']
     (agent_launch_heads [foldr shim [u ''x''] [u ''claude''],
                          foldr shim [u ''x'', u ''y''] [u ''claude'', u ''--continue'']]) = Some True"
  by (rule launched_agent_is_session) (simp_all add: argv_head_claude)

section \<open>Stale markers\<close>

text \<open>
  \<open>scan_marker_pids\<close>: one entry of the listing either lands in the live set, or is stale and
  reaped, or is skipped because a probe raised. \<open>judge = None\<close> is a scan without an identity
  probe; a judge that answers \<open>None\<close> cannot tell and keeps the marker.
\<close>

definition scan_one ::
  "(int \<Rightarrow> ('s, bool) act) \<Rightarrow> (int \<Rightarrow> ('s, bool option) act) option \<Rightarrow> (int \<Rightarrow> ('s, unit) act) option \<Rightarrow>
   int \<Rightarrow> int set \<times> int set \<Rightarrow> ('s, int set \<times> int set) act" where
  "scan_one alive judge remove pid acc =
     (if pid \<le> 0 then ret acc
      else bindA
        (catch (\<lambda>_. True)
          (bindA (alive pid) (\<lambda>a.
             case judge of
               None \<Rightarrow> ret (Some a)
             | Some j \<Rightarrow>
                 if a then bindA (j pid) (\<lambda>v. ret (Some (v \<noteq> Some False))) else ret (Some False)))
          (\<lambda>_. ret None))
        (\<lambda>verdict. case verdict of
            None \<Rightarrow> ret acc
          | Some True \<Rightarrow> ret (insert pid (fst acc), snd acc)
          | Some False \<Rightarrow>
              (let acc' = (fst acc, insert pid (snd acc))
               in case remove of None \<Rightarrow> ret acc' | Some rm \<Rightarrow> thenA (rm pid) (ret acc'))))"

definition scan_marker_pids ::
  "(pystr \<Rightarrow> ('s, int list) act) \<Rightarrow> (int \<Rightarrow> ('s, bool) act) \<Rightarrow> (int \<Rightarrow> ('s, bool option) act) option \<Rightarrow>
   (pystr \<Rightarrow> int \<Rightarrow> ('s, unit) act) option \<Rightarrow> pystr \<Rightarrow> ('s, int set \<times> int set) act" where
  "scan_marker_pids list_pids alive judge remove dir =
     bindA (list_pids dir) (\<lambda>pids.
       foldA (scan_one alive judge (map_option (\<lambda>rm. rm dir) remove)) pids ({}, {}))"

definition newcomer_pids :: "int set \<Rightarrow> int set \<Rightarrow> int set" where
  "newcomer_pids live own = live - own"

text \<open>What a scan decides about one pid, from what its probes answer.\<close>

definition judged_live :: "(int \<Rightarrow> exn + bool) \<Rightarrow> (int \<Rightarrow> exn + bool option) \<Rightarrow> int \<Rightarrow> bool" where
  "judged_live alive judge p \<longleftrightarrow>
     0 < p \<and> alive p = Inr True \<and> (judge p = Inr None \<or> judge p = Inr (Some True))"

definition judged_stale :: "(int \<Rightarrow> exn + bool) \<Rightarrow> (int \<Rightarrow> exn + bool option) \<Rightarrow> int \<Rightarrow> bool" where
  "judged_stale alive judge p \<longleftrightarrow>
     0 < p \<and> (alive p = Inr False \<or> alive p = Inr True \<and> judge p = Inr (Some False))"

abbreviation reaping :: "int \<Rightarrow> (int list, unit) act" where
  "reaping pid \<equiv> change (\<lambda>reaped. reaped @ [pid])"

lemma scan_one_pure:
  "scan_one (\<lambda>p. lift (alive p)) (Some (\<lambda>p. lift (judge p))) (Some reaping) p acc reaped =
     (Inr (if judged_live alive judge p then insert p (fst acc) else fst acc,
           if judged_stale alive judge p then insert p (snd acc) else snd acc),
      if judged_stale alive judge p then reaped @ [p] else reaped)"
  by (auto simp: scan_one_def judged_live_def judged_stale_def run_simps Let_def
      split: sum.splits option.splits bool.splits)

text \<open>
  C8. With probes that answer from the pid alone, a scan parts the listed pids into the live
  and the stale and reaps exactly the stale ones, in the order of the listing; a pid whose
  probe raised, a pid that is not positive and a process the identity probe cannot judge are
  never reaped.
\<close>

theorem scan_marker_pids_partition:
  "scan_marker_pids (\<lambda>_. lift (Inr pids)) (\<lambda>p. lift (alive p)) (Some (\<lambda>p. lift (judge p)))
     (Some (\<lambda>_. reaping)) dir [] =
   (Inr ({p \<in> set pids. judged_live alive judge p}, {p \<in> set pids. judged_stale alive judge p}),
    filter (judged_stale alive judge) pids)"
proof -
  define f :: "int \<Rightarrow> int set \<times> int set \<Rightarrow> (int list, int set \<times> int set) act" where
    "f = scan_one (\<lambda>p. lift (alive p)) (Some (\<lambda>p. lift (judge p))) (Some reaping)"
  have f: "bindA (f p (L, S)) g reaped =
      g (if judged_live alive judge p then insert p L else L,
         if judged_stale alive judge p then insert p S else S)
        (if judged_stale alive judge p then reaped @ [p] else reaped)" for p L S g reaped
    by (simp add: f_def bindA_def scan_one_pure)
  have "foldA f pids (L, S) reaped =
        (Inr (L \<union> {p \<in> set pids. judged_live alive judge p},
              S \<union> {p \<in> set pids. judged_stale alive judge p}),
         reaped @ filter (judged_stale alive judge) pids)" for L S reaped
  proof (induction pids arbitrary: L S reaped)
    case (Cons p ps)
    show ?case unfolding foldA.simps f Cons.IH by auto
  qed (simp add: ret_def)
  then show ?thesis by (simp add: scan_marker_pids_def bindA_def lift_def f_def)
qed

section \<open>How a pane died\<close>

definition trim_capture :: "pystr option \<Rightarrow> pystr option" where
  "trim_capture captured =
     (case captured of
        None \<Rightarrow> None
      | Some s \<Rightarrow>
          (let lines = splitlines (rstrip_by is_space s);
               kept = (if lines \<noteq> [] \<and> starts_with (u ''Pane is dead'') (last lines)
                       then butlast lines else lines);
               out = rstrip_by is_space (join_char 10 kept)
           in if out = [] then None else Some out))"

definition UNDETERMINED_AGENT_EXIT :: int where "UNDETERMINED_AGENT_EXIT = 70"

text \<open>
  \<open>agent_exit_code\<close> of \<open>status=N signal=S\<close>. A field that passes \<open>isdigit\<close> and that \<open>int\<close> does
  not accept, a superscript, raises.
\<close>

definition agent_exit_code :: "numerals \<Rightarrow> pystr \<Rightarrow> exn + int" where
  "agent_exit_code N death =
     (let fields = map_of (rev (map (partition_char 61) (split_ws death)));
          field = (\<lambda>k. case fields k of None \<Rightarrow> [] | Some v \<Rightarrow> v)
      in if isdigit N (field (u ''status'')) then int_of N (field (u ''status''))
         else if isdigit N (field (u ''signal''))
         then bindE (int_of N (field (u ''signal''))) (\<lambda>n. Inr (128 + n))
         else Inr UNDETERMINED_AGENT_EXIT)"

section \<open>What a tick decides\<close>

datatype action_kind = NO_ACTION | SELF_HEAL | END_SESSION

record supervisor_action =
  kind :: action_kind
  fire_detach_hook :: bool

definition decide :: "attach_state \<Rightarrow> attach_state \<Rightarrow> bool \<Rightarrow> int option \<Rightarrow> supervisor_action" where
  "decide prev cur agent_alive exit_code =
     \<lparr>kind = (if agent_alive then NO_ACTION
              else if exit_code = Some 0 \<and> tmux_terminal cur then END_SESSION
              else SELF_HEAL),
      fire_detach_hook = (classify_transition prev cur = DETACH)\<rparr>"

datatype panel_agent_state = PANEL_NONE | PANEL_ALIVE | PANEL_DEAD

datatype panel_action = PANEL_WAIT | SELF_HEAL_CLI | TEARDOWN

definition decide_panel :: "bool \<Rightarrow> panel_agent_state \<Rightarrow> bool \<Rightarrow> bool \<Rightarrow> bool \<Rightarrow> panel_action" where
  "decide_panel tmux_alive panel vscode attached seen_surface =
     (if tmux_alive \<or> panel = PANEL_ALIVE then PANEL_WAIT
      else if panel = PANEL_DEAD \<and> vscode then SELF_HEAL_CLI
      else if attached then PANEL_WAIT
      else if seen_surface then TEARDOWN
      else PANEL_WAIT)"

lemma decide_panel_teardown_iff:
  "decide_panel tmux panel vscode attached seen = TEARDOWN \<longleftrightarrow>
     \<not> tmux \<and> panel \<noteq> PANEL_ALIVE \<and> \<not> (panel = PANEL_DEAD \<and> vscode) \<and> \<not> attached \<and> seen"
  by (auto simp: decide_panel_def)

section \<open>Is the flattened instruction file still true\<close>

text \<open>
  The receipt as the JSON parser leaves it. An object keeps one value per key, so lookup is
  by \<open>map_of\<close>; \<open>JOdd\<close> are the numbers JSON text can spell that are equal to nothing compared
  here, \<open>NaN\<close> and the infinities.
\<close>

datatype json =
    JNull | JBool bool | JNum rat | JOdd | JStr pystr | JList "json list"
  | JObj "(pystr \<times> json) list"

text \<open>\<open>d.get(key)\<close>: a missing key reads as \<open>None\<close>, as a null does.\<close>

definition json_get :: "(pystr \<times> json) list \<Rightarrow> pystr \<Rightarrow> json" where
  "json_get d key = (case map_of d key of None \<Rightarrow> JNull | Some v \<Rightarrow> v)"

text \<open>Python truth, and its equality with the format number, which \<open>True\<close> has too.\<close>

fun truthy :: "json \<Rightarrow> bool" where
  "truthy JNull = False"
| "truthy (JBool b) = b"
| "truthy (JNum n) = (n \<noteq> 0)"
| "truthy JOdd = True"
| "truthy (JStr s) = (s \<noteq> [])"
| "truthy (JList xs) = (xs \<noteq> [])"
| "truthy (JObj d) = (d \<noteq> [])"

definition equals_one :: "json \<Rightarrow> bool" where
  "equals_one v \<longleftrightarrow> v = JNum 1 \<or> v = JBool True"

definition optional_str :: "pystr option \<Rightarrow> json" where
  "optional_str s = (case s of None \<Rightarrow> JNull | Some t \<Rightarrow> JStr t)"

datatype directive_verdict = FRESH | STALE | HAND_EDITED

definition input_moved :: "(pystr \<Rightarrow> pystr option) \<Rightarrow> json \<Rightarrow> bool" where
  "input_moved probe entry =
     (case entry of
        JObj d \<Rightarrow>
          (case json_get d (u ''path'') of
             JStr path \<Rightarrow>
               (if truthy (json_get d (u ''absent'')) then probe path \<noteq> None
                else optional_str (probe path) \<noteq> json_get d (u ''sha256''))
           | _ \<Rightarrow> True)
      | _ \<Rightarrow> True)"

definition decide_directives ::
  "json \<Rightarrow> pystr \<Rightarrow> pystr \<Rightarrow> (pystr \<Rightarrow> pystr option) \<Rightarrow> directive_verdict" where
  "decide_directives manifest seed dest probe =
     (case manifest of
        JObj m \<Rightarrow>
          (if \<not> equals_one (json_get m (u ''version'')) then STALE
           else if json_get m (u ''seed'') \<noteq> JStr seed \<or> json_get m (u ''dest'') \<noteq> JStr dest then STALE
           else (case json_get m (u ''inputs'') of
                   JList inputs \<Rightarrow>
                     (if list_ex (input_moved probe) inputs then STALE
                      else (case probe dest of
                              None \<Rightarrow> STALE
                            | Some out \<Rightarrow>
                                if JStr out \<noteq> json_get m (u ''output_sha256'') then HAND_EDITED
                                else FRESH))
                 | _ \<Rightarrow> STALE))
      | _ \<Rightarrow> STALE)"

text \<open>A receipt that describes this job.\<close>

definition receipt_for :: "json \<Rightarrow> pystr \<Rightarrow> pystr \<Rightarrow> json list \<Rightarrow> json \<Rightarrow> bool" where
  "receipt_for manifest seed dest inputs output \<longleftrightarrow>
     (\<exists>m. manifest = JObj m \<and> equals_one (json_get m (u ''version'')) \<and>
          json_get m (u ''seed'') = JStr seed \<and> json_get m (u ''dest'') = JStr dest \<and>
          json_get m (u ''inputs'') = JList inputs \<and> json_get m (u ''output_sha256'') = output)"

lemma receipt_for_unique:
  "receipt_for manifest seed dest i out \<Longrightarrow> receipt_for manifest seed dest i' out' \<Longrightarrow> i' = i \<and> out' = out"
  by (auto simp: receipt_for_def)

lemma decide_directives_known:
  assumes "receipt_for manifest seed dest inputs output"
  shows "decide_directives manifest seed dest probe =
    (if list_ex (input_moved probe) inputs then STALE
     else if probe dest = None then STALE
     else if optional_str (probe dest) = output then FRESH else HAND_EDITED)"
  using assms
  by (auto simp: receipt_for_def decide_directives_def optional_str_def list_ex_iff split: option.splits)

lemma decide_directives_unknown:
  assumes "\<And>inputs output. \<not> receipt_for manifest seed dest inputs output"
  shows "decide_directives manifest seed dest probe = STALE"
  using assms by (auto simp: receipt_for_def decide_directives_def split: json.split)


end
