(* ===== verification/SupervisorRun.thy ===== *)
theory SupervisorRun imports Supervisor begin

text \<open>
  The box supervisor at work (\<open>box_supervisor.py\<close>, class \<open>BoxSupervisor\<close>). Every impure
  operation of the class goes through an injectable seam; here a seam is a question to an
  environment of arbitrary type, and the trace records the questions. The two watch loops are
  functions of one iteration, and a step relation puts them together with the termination
  signal, which may come before any of them.
\<close>

section \<open>Configuration\<close>

text \<open>Durations are exact rationals where the code has floats.\<close>

record directive_watch =
  watch_seed :: pystr
  watch_dest :: pystr
  watch_manifest :: pystr
  watch_flattener :: pystr
  watch_interval :: rat

datatype exit_policy = Self_heal_policy | Teardown_policy

record config =
  session :: pystr
  start_argv :: "pystr list"
  continue_argv :: "pystr list"
  marker :: pystr
  poll_interval :: rat
  max_restart_retries :: int
  backoff_base :: rat
  send_keys_retries :: int
  send_keys_delay :: rat
  on_agent_exit :: exit_policy
  session_takeover :: bool
  takeover_grace :: rat
  panel_watch :: bool
  agent_markers_dir :: "pystr option"
  creds_flag :: "pystr option"
  directives :: "directive_watch option"
  capture_history :: nat

definition CONTINUE_MARKER :: pystr where
  "CONTINUE_MARKER = u ''[Agent handoff - Continue prior task(s)]''"

definition TAKEOVER_HEADS_UP :: pystr where
  "TAKEOVER_HEADS_UP = u (''[Session takeover - another surface is taking over this session; '' @
     ''wind down and checkpoint now if you have work in progress]'')"

definition PANE_DEATH_FORMAT :: pystr where
  "PANE_DEATH_FORMAT =
     u ''#{?pane_dead,status=#{pane_dead_status} signal=#{pane_dead_signal},}''"

definition path_given :: "pystr option \<Rightarrow> bool" where
  "path_given p \<longleftrightarrow> p \<noteq> None \<and> p \<noteq> Some []"

section \<open>The seams and the state\<close>

datatype sig = SIGTERM | SIGSTOP | SIGCONT

record proc =
  returncode :: int
  stdout :: pystr
  stderr :: pystr

text \<open>
  What the class asks of the system. \<open>Tmux\<close> and \<open>Run\<close> are both the subprocess runner, for a
  tmux command and for the flattener; the file operations are those of one statement of the source each. A log line is recorded
  only where a latch decides whether it is written.
\<close>

datatype call =
    Tmux "pystr list" | Run "pystr list" | Sleep rat | Pid_alive int | List_markers pystr | Cmdline_of int
  | Remove_marker pystr int | Kill int sig | Killpg int sig | Getpgid int | Getpgrp | Reap
  | Proc_cmdlines | Read_text pystr | Make_temp_dir | Remove_tree pystr | Write_flag pystr
  | Sha256 pystr | Read_manifest pystr | Print pystr | Log_newcomer int | Log_hand_edit

record 'w seams =
  run_of :: "pystr list \<Rightarrow> 'w \<Rightarrow> (exn + proc) \<times> 'w"
  sleep_of :: "rat \<Rightarrow> 'w \<Rightarrow> (exn + unit) \<times> 'w"
  pid_alive_of :: "int \<Rightarrow> 'w \<Rightarrow> (exn + bool) \<times> 'w"
  list_markers_of :: "pystr \<Rightarrow> 'w \<Rightarrow> (exn + int list) \<times> 'w"
  cmdline_seam :: "int \<Rightarrow> 'w \<Rightarrow> (exn + pystr list option) \<times> 'w"
  remove_marker_of :: "pystr \<Rightarrow> int \<Rightarrow> 'w \<Rightarrow> (exn + unit) \<times> 'w"
  kill_of :: "int \<Rightarrow> sig \<Rightarrow> 'w \<Rightarrow> (exn + unit) \<times> 'w"
  killpg_of :: "int \<Rightarrow> sig \<Rightarrow> 'w \<Rightarrow> (exn + unit) \<times> 'w"
  getpgid_of :: "int \<Rightarrow> 'w \<Rightarrow> (exn + int) \<times> 'w"
  getpgrp_of :: "'w \<Rightarrow> (exn + int) \<times> 'w"
  reap_of :: "'w \<Rightarrow> (exn + unit) \<times> 'w"
  cmdlines_of :: "'w \<Rightarrow> (exn + pystr list) \<times> 'w"
  read_text_of :: "pystr \<Rightarrow> 'w \<Rightarrow> (exn + pystr) \<times> 'w"
  temp_dir_of :: "'w \<Rightarrow> (exn + pystr) \<times> 'w"
  remove_tree_of :: "pystr \<Rightarrow> 'w \<Rightarrow> (exn + unit) \<times> 'w"
  write_flag_of :: "pystr \<Rightarrow> 'w \<Rightarrow> (exn + unit) \<times> 'w"
  sha256_of_path :: "pystr \<Rightarrow> 'w \<Rightarrow> (exn + pystr) \<times> 'w"
  manifest_of :: "pystr \<Rightarrow> 'w \<Rightarrow> (exn + json) \<times> 'w"
  print_of :: "pystr \<Rightarrow> 'w \<Rightarrow> (exn + unit) \<times> 'w"
  numerals_of :: numerals
  python_executable :: pystr

text \<open>The local variables of the two loops, which outlive an exception caught inside them.\<close>

record loop_locals =
  ended :: bool
  keepalive_announced :: bool
  started :: bool
  prev :: attach_state
  seen_surface :: bool
  panel_incumbent :: "int option"
  panel_prev :: attach_state

definition fresh_locals :: loop_locals where
  "fresh_locals = \<lparr>ended = False, keepalive_announced = False, started = True, prev = detached,
     seen_surface = False, panel_incumbent = None, panel_prev = detached\<rparr>"

text \<open>
  The fields of a \<open>BoxSupervisor\<close>, the environment and the trace. \<open>paused\<close> is the local list
  of \<open>_takeover\<close> that its exception handler reads.
\<close>

record 'w sup =
  env :: 'w
  trace :: "(call \<times> bool) list"
  exit_record :: "pystr option"
  exit_record_dir :: "pystr option"
  reported :: "int set"
  ticks :: nat
  hand_edit_logged :: bool
  stop :: bool
  paused :: "int list"
  loc :: loop_locals

definition init_sup :: "'w \<Rightarrow> 'w sup" where
  "init_sup w = \<lparr>env = w, trace = [], exit_record = None, exit_record_dir = None, reported = {},
     ticks = 0, hand_edit_logged = False, stop = False, paused = [], loc = fresh_locals\<rparr>"

definition ask :: "call \<Rightarrow> ('w \<Rightarrow> (exn + 'a) \<times> 'w) \<Rightarrow> ('w sup, 'a) act" where
  "ask c f = (\<lambda>s. case f (env s) of (r, w) \<Rightarrow> (r, s\<lparr>env := w, trace := trace s @ [(c, \<not> isl r)]\<rparr>))"

definition log_call :: "call \<Rightarrow> ('w sup, unit) act" where
  "log_call c = change (\<lambda>s. s\<lparr>trace := trace s @ [(c, True)]\<rparr>)"

definition set_loc :: "(loop_locals \<Rightarrow> loop_locals) \<Rightarrow> ('w sup, unit) act" where
  "set_loc f = change (\<lambda>s. s\<lparr>loc := f (loc s)\<rparr>)"

definition sleep_for :: "'w seams \<Rightarrow> rat \<Rightarrow> ('w sup, unit) act" where
  "sleep_for E d = ask (Sleep d) (sleep_of E d)"

section \<open>tmux\<close>

text \<open>\<open>tmux_run\<close>, \<open>_tmux\<close>, \<open>_run_tmux\<close>, \<open>_tmux_output\<close>: a tmux that could not run is \<open>None\<close>.\<close>

definition tmux_call :: "'w seams \<Rightarrow> pystr list \<Rightarrow> ('w sup, proc option) act" where
  "tmux_call E args =
     catch os_error
       (bindA (ask (Tmux args) (run_of E (u ''tmux'' # args))) (\<lambda>p. ret (Some p)))
       (\<lambda>_. ret None)"

definition run_tmux :: "'w seams \<Rightarrow> pystr list \<Rightarrow> ('w sup, int option) act" where
  "run_tmux E args = bindA (tmux_call E args) (\<lambda>p. ret (map_option returncode p))"

definition tmux_output :: "'w seams \<Rightarrow> pystr list \<Rightarrow> ('w sup, pystr option) act" where
  "tmux_output E args = bindA (tmux_call E args) (\<lambda>p. case p of
     None \<Rightarrow> ret None
   | Some q \<Rightarrow> ret (if returncode q \<noteq> 0 then None else Some (stdout q)))"

definition has_session_argv :: "config \<Rightarrow> pystr list" where
  "has_session_argv C = [u ''has-session'', u ''-t'', session C]"

definition kill_session_argv :: "config \<Rightarrow> pystr list" where
  "kill_session_argv C = [u ''kill-session'', u ''-t'', session C]"

definition send_keys_argv :: "config \<Rightarrow> pystr \<Rightarrow> pystr list" where
  "send_keys_argv C text' = [u ''send-keys'', u ''-t'', session C, text', u ''Enter'']"

definition new_session_argv :: "config \<Rightarrow> pystr list \<Rightarrow> pystr list" where
  "new_session_argv C argv = [u ''new-session'', u ''-d'', u ''-s'', session C, u ''--''] @ argv"

definition capture_argv :: "config \<Rightarrow> pystr \<Rightarrow> pystr list" where
  "capture_argv C target =
     [u ''capture-pane'', u ''-p'', u ''-S'', u ''-'' @ decimal (capture_history C), u ''-E'', u ''-'',
      u ''-t'', target]"

section \<open>The exit record and the session's start\<close>

definition exit_record_path :: "'w seams \<Rightarrow> ('w sup, pystr) act" where
  "exit_record_path E = bindA (gets exit_record) (\<lambda>r. case r of
     Some p \<Rightarrow> ret p
   | None \<Rightarrow> bindA (ask Make_temp_dir (temp_dir_of E)) (\<lambda>d.
       (let p = d @ u ''/record''
        in thenA (change (\<lambda>s. s\<lparr>exit_record_dir := Some d, exit_record := Some p\<rparr>)) (ret p))))"

definition hook_safe :: "pystr \<Rightarrow> bool" where
  "hook_safe p \<longleftrightarrow> p \<noteq> [] \<and>
     list_all (\<lambda>c. ascii_alpha c \<or> ascii_digit c \<or> c \<in> {95, 46, 47, 45}) p"

definition exit_hook :: "'w seams \<Rightarrow> config \<Rightarrow> ('w sup, pystr option) act" where
  "exit_hook E C = bindA (exit_record_path E) (\<lambda>r.
     if \<not> hook_safe r then ret None
     else ret (Some (
       u ''run-shell '' @ [39] @ join_char 32 (u ''tmux'' # capture_argv C (u ''#{pane_id}'')) @
       u '' >'' @ r @ u ''.out 2>/dev/null ; echo '' @ PANE_DEATH_FORMAT @ u '' >'' @ r @
       u ''.tmp && mv '' @ r @ u ''.tmp '' @ r @ [39] @ u '' ; kill-pane'')))"

definition session_arms :: "'w seams \<Rightarrow> config \<Rightarrow> ('w sup, (pystr \<times> pystr \<times> pystr) list) act" where
  "session_arms E C =
     bindA (if on_agent_exit C = Teardown_policy then exit_hook E C else ret None) (\<lambda>h.
       ret ((u ''set-option'', u ''remain-on-exit'', u ''on'') #
            (case h of None \<Rightarrow> [] | Some k \<Rightarrow> [(u ''set-hook'', u ''pane-died'', k)])))"

definition armed_argv :: "config \<Rightarrow> (pystr \<times> pystr \<times> pystr) list \<Rightarrow> pystr list \<Rightarrow> pystr list" where
  "armed_argv C arms argv =
     concat (map (\<lambda>(command, name, v). [command, u ''-g'', name, v, u '';'']) arms) @
     new_session_argv C argv @
     concat (map (\<lambda>(command, name, v). [u '';'', command, u ''-t'', session C, name, v]) arms) @
     concat (map (\<lambda>(command, name, v). [u '';'', command, u ''-gu'', name]) arms)"

definition start_session_argv :: "'w seams \<Rightarrow> config \<Rightarrow> pystr list \<Rightarrow> ('w sup, pystr list) act" where
  "start_session_argv E C argv = bindA (session_arms E C) (\<lambda>arms. ret (armed_argv C arms argv))"

definition arm_and_start_session :: "'w seams \<Rightarrow> config \<Rightarrow> pystr list \<Rightarrow> ('w sup, int option) act" where
  "arm_and_start_session E C argv =
     (if u '';'' \<notin> set argv then bindA (start_session_argv E C argv) (run_tmux E)
      else bindA (run_tmux E (new_session_argv C argv)) (\<lambda>rc.
        if rc = Some 0
        then bindA (session_arms E C) (\<lambda>arms.
               thenA (forA (\<lambda>(command, name, v).
                        thenA (run_tmux E [command, u ''-t'', session C, name, v]) (ret ())) arms)
                     (ret rc))
        else ret rc))"

definition start_agent_session :: "'w seams \<Rightarrow> config \<Rightarrow> ('w sup, bool) act" where
  "start_agent_session E C =
     bindA (arm_and_start_session E C (start_argv C)) (\<lambda>rc. ret (rc = Some 0))"

section \<open>The agent's processes\<close>

fun parse_pids :: "numerals \<Rightarrow> pystr list \<Rightarrow> int set" where
  "parse_pids N [] = {}"
| "parse_pids N (tok # toks) =
     (case int_of N tok of Inl _ \<Rightarrow> parse_pids N toks | Inr n \<Rightarrow> insert n (parse_pids N toks))"

definition list_panes_argv :: "config \<Rightarrow> pystr list" where
  "list_panes_argv C = [u ''list-panes'', u ''-s'', u ''-t'', session C, u ''-F'', u ''#{pane_pid}'']"

definition own_agent_pids :: "'w seams \<Rightarrow> config \<Rightarrow> ('w sup, int set) act" where
  "own_agent_pids E C = bindA (tmux_output E (list_panes_argv C)) (\<lambda>out. case out of
     None \<Rightarrow> ret {}
   | Some t \<Rightarrow> ret (if t = [] then {} else parse_pids (numerals_of E) (split_ws t)))"

definition kill_process_group :: "'w seams \<Rightarrow> int \<Rightarrow> sig \<Rightarrow> ('w sup, bool) act" where
  "kill_process_group E pid sg =
     (if pid \<le> 1 then ret False
      else
        bindA (catch os_error (ask (Getpgid pid) (getpgid_of E pid)) (\<lambda>_. ret pid)) (\<lambda>pgid.
        bindA (catch os_error (ask Getpgrp (getpgrp_of E)) (\<lambda>_. ret (-1))) (\<lambda>own.
        if pgid \<le> 1 \<or> pgid = own then ret False
        else catch os_error
               (thenA (ask (Killpg pgid sg) (killpg_of E pgid sg)) (ret True))
               (\<lambda>_. ret False))))"

definition kill_agent_session :: "'w seams \<Rightarrow> config \<Rightarrow> ('w sup, unit) act" where
  "kill_agent_session E C = bindA (own_agent_pids E C) (\<lambda>own.
     thenA (forA (\<lambda>pid. thenA (kill_process_group E pid SIGTERM) (ret ())) (sorted_list_of_set own))
           (thenA (run_tmux E (kill_session_argv C)) (ret ())))"

fun send_attempts :: "'w seams \<Rightarrow> config \<Rightarrow> pystr \<Rightarrow> int list \<Rightarrow> ('w sup, bool) act" where
  "send_attempts E C keys [] = ret False"
| "send_attempts E C keys (attempt # rest) =
     bindA (run_tmux E (send_keys_argv C keys)) (\<lambda>rc.
       if rc = Some 0 then ret True
       else thenA (whenA (attempt < send_keys_retries C) (sleep_for E (send_keys_delay C)))
                  (send_attempts E C keys rest))"

definition send_keys_text :: "'w seams \<Rightarrow> config \<Rightarrow> pystr \<Rightarrow> ('w sup, bool) act" where
  "send_keys_text E C keys = send_attempts E C keys [1..send_keys_retries C]"

definition restart_agent_session :: "'w seams \<Rightarrow> config \<Rightarrow> ('w sup, bool) act" where
  "restart_agent_session E C =
     thenA (kill_agent_session E C)
       (bindA (arm_and_start_session E C (continue_argv C)) (\<lambda>rc.
          if rc \<noteq> Some 0 then ret False
          else thenA (send_keys_text E C (marker C)) (ret True)))"

definition display_death_argv :: "config \<Rightarrow> pystr list" where
  "display_death_argv C =
     [u ''display-message'', u ''-p'', u ''-t'', session C, PANE_DEATH_FORMAT]"

definition agent_pane_exit_code :: "'w seams \<Rightarrow> config \<Rightarrow> ('w sup, int option) act" where
  "agent_pane_exit_code E C = bindA (tmux_output E (display_death_argv C)) (\<lambda>out. case out of
     None \<Rightarrow> ret None
   | Some t \<Rightarrow>
       if strip t = [] then ret None
       else bindA (lift (agent_exit_code (numerals_of E) t)) (\<lambda>c. ret (Some c)))"

definition agent_session_alive :: "'w seams \<Rightarrow> config \<Rightarrow> ('w sup, bool) act" where
  "agent_session_alive E C = bindA (run_tmux E (has_session_argv C)) (\<lambda>rc.
     if rc \<noteq> Some 0 then ret False
     else bindA (agent_pane_exit_code E C) (\<lambda>c. ret (c = None)))"

definition recorded_agent_exit :: "'w seams \<Rightarrow> ('w sup, int option) act" where
  "recorded_agent_exit E = bindA (gets exit_record) (\<lambda>r. case r of
     None \<Rightarrow> ret None
   | Some p \<Rightarrow>
       finallyA
         (catch os_error
            (bindA (ask (Read_text p) (read_text_of E p)) (\<lambda>t.
             bindA (lift (agent_exit_code (numerals_of E) t)) (\<lambda>c. ret (Some c))))
            (\<lambda>_. ret None))
         (bindA (gets exit_record_dir) (\<lambda>d. case d of
            None \<Rightarrow> ret ()
          | Some dir \<Rightarrow> ask (Remove_tree dir) (remove_tree_of E dir))))"

definition capture_agent_output :: "'w seams \<Rightarrow> config \<Rightarrow> ('w sup, pystr option) act" where
  "capture_agent_output E C =
     bindA (tmux_output E (capture_argv C (session C))) (\<lambda>t. ret (trim_capture t))"

definition recorded_agent_output :: "'w seams \<Rightarrow> ('w sup, pystr option) act" where
  "recorded_agent_output E = bindA (gets exit_record) (\<lambda>r. case r of
     None \<Rightarrow> ret None
   | Some p \<Rightarrow>
       catch os_error
         (bindA (ask (Read_text (p @ u ''.out'')) (read_text_of E (p @ u ''.out'')))
            (\<lambda>t. ret (trim_capture (Some t))))
         (\<lambda>_. ret None))"

section \<open>Snapshot and markers\<close>

definition list_clients_argv :: "config \<Rightarrow> pystr list" where
  "list_clients_argv C = [u ''list-clients'', u ''-t'', session C]"

definition snapshot :: "'w seams \<Rightarrow> config \<Rightarrow> ('w sup, attach_state) act" where
  "snapshot E C =
     bindA (ask Proc_cmdlines (cmdlines_of E)) (\<lambda>cmdlines.
     bindA (tmux_output E (list_clients_argv C)) (\<lambda>out.
       ret \<lparr>vscode_server = vscode_server_present cmdlines,
            tmux_terminal = tmux_terminal_attached (case out of None \<Rightarrow> [] | Some t \<Rightarrow> t)\<rparr>))"

definition other_surface_attached :: "attach_state \<Rightarrow> bool" where
  "other_surface_attached s = vscode_server s"

definition is_agent_pid :: "'w seams \<Rightarrow> config \<Rightarrow> int \<Rightarrow> ('w sup, bool option) act" where
  "is_agent_pid E C pid =
     (let heads = agent_launch_heads [start_argv C, continue_argv C]
      in if heads = {} then ret None
         else bindA (ask (Cmdline_of pid) (cmdline_seam E pid)) (\<lambda>argv. case argv of
                None \<Rightarrow> ret None
              | Some a \<Rightarrow> ret (agent_session_verdict a heads)))"

definition scan_markers :: "'w seams \<Rightarrow> config \<Rightarrow> ('w sup, int set \<times> int set) act" where
  "scan_markers E C =
     (if \<not> path_given (agent_markers_dir C) then ret ({}, {})
      else catch (\<lambda>_. True)
        (scan_marker_pids
           (\<lambda>d. ask (List_markers d) (list_markers_of E d))
           (\<lambda>p. ask (Pid_alive p) (pid_alive_of E p))
           (Some (is_agent_pid E C))
           (Some (\<lambda>d p. ask (Remove_marker d p) (remove_marker_of E d p)))
           (the (agent_markers_dir C)))
        (\<lambda>_. ret ({}, {})))"

definition log_newcomers :: "int set \<Rightarrow> int set \<Rightarrow> ('w sup, unit) act" where
  "log_newcomers live own = bindA (gets reported) (\<lambda>known.
     thenA (forA (\<lambda>pid. log_call (Log_newcomer pid))
              (sorted_list_of_set (newcomer_pids live own - known)))
           (change (\<lambda>s. s\<lparr>reported := newcomer_pids live own\<rparr>)))"

section \<open>Takeover\<close>

definition signal_pid :: "'w seams \<Rightarrow> int \<Rightarrow> sig \<Rightarrow> ('w sup, bool) act" where
  "signal_pid E pid sg =
     catch os_error (thenA (ask (Kill pid sg) (kill_of E pid sg)) (ret True)) (\<lambda>_. ret False)"

definition resume :: "'w seams \<Rightarrow> int list \<Rightarrow> ('w sup, unit) act" where
  "resume E pids = forA (\<lambda>pid. thenA (signal_pid E pid SIGCONT) (ret ())) pids"

definition pause_one :: "'w seams \<Rightarrow> int \<Rightarrow> ('w sup, unit) act" where
  "pause_one E pid = bindA (signal_pid E pid SIGSTOP) (\<lambda>ok.
     whenA ok (change (\<lambda>s. s\<lparr>paused := paused s @ [pid]\<rparr>)))"

definition pre_evict :: "'w seams \<Rightarrow> config \<Rightarrow> int set \<Rightarrow> ('w sup, bool) act" where
  "pre_evict E C newcomers =
     thenA (change (\<lambda>s. s\<lparr>paused := []\<rparr>))
       (catch (\<lambda>_. True)
          (thenA (forA (pause_one E) (sorted_list_of_set newcomers))
             (bindA (gets paused) (\<lambda>ps.
                if ps = [] then ret False
                else thenA (send_keys_text E C TAKEOVER_HEADS_UP)
                       (thenA (sleep_for E (takeover_grace C)) (ret True)))))
          (\<lambda>_. bindA (gets paused) (\<lambda>ps. thenA (resume E ps) (ret False))))"

definition takeover :: "'w seams \<Rightarrow> config \<Rightarrow> int set \<Rightarrow> ('w sup, bool) act" where
  "takeover E C newcomers = bindA (pre_evict E C newcomers) (\<lambda>go.
     if go
     then thenA (finallyA (kill_agent_session E C) (bindA (gets paused) (resume E))) (ret True)
     else ret False)"

definition panel_state :: "'w seams \<Rightarrow> config \<Rightarrow> ('w sup, panel_agent_state) act" where
  "panel_state E C =
     (if \<not> path_given (agent_markers_dir C) then ret PANEL_NONE
      else bindA (own_agent_pids E C) (\<lambda>own.
           bindA (scan_markers E C) (\<lambda>(live, stale).
             ret (if live - own \<noteq> {} then PANEL_ALIVE
                  else if stale - own \<noteq> {} then PANEL_DEAD
                  else PANEL_NONE))))"

section \<open>Self-heal\<close>

fun heal_attempts :: "'w seams \<Rightarrow> config \<Rightarrow> int list \<Rightarrow> ('w sup, bool) act" where
  "heal_attempts E C [] = ret False"
| "heal_attempts E C (attempt # rest) =
     thenA (restart_agent_session E C)
       (bindA (agent_session_alive E C) (\<lambda>alive.
          if alive then ret True
          else thenA (whenA (attempt < max_restart_retries C)
                        (sleep_for E (backoff_base C * 2 ^ nat (attempt - 1))))
                     (heal_attempts E C rest)))"

definition self_heal :: "'w seams \<Rightarrow> config \<Rightarrow> ('w sup, bool) act" where
  "self_heal E C = heal_attempts E C [1..max_restart_retries C]"

section \<open>The detach hook\<close>

definition on_detach :: "'w seams \<Rightarrow> config \<Rightarrow> ('w sup, unit) act" where
  "on_detach E C =
     (case creds_flag C of
        None \<Rightarrow> ret ()
      | Some p \<Rightarrow> if p = [] then ret ()
                  else catch os_error (ask (Write_flag p) (write_flag_of E p)) (\<lambda>_. ret ()))"

definition safe_on_detach :: "'w seams \<Rightarrow> config \<Rightarrow> ('w sup, unit) act" where
  "safe_on_detach E C = catch (\<lambda>_. True) (on_detach E C) (\<lambda>_. ret ())"

section \<open>Directive freshness\<close>

definition sha256_of :: "'w seams \<Rightarrow> pystr \<Rightarrow> ('w sup, pystr option) act" where
  "sha256_of E path =
     catch os_error (bindA (ask (Sha256 path) (sha256_of_path E path)) (\<lambda>h. ret (Some h)))
       (\<lambda>_. ret None)"

definition read_directive_manifest :: "'w seams \<Rightarrow> pystr \<Rightarrow> ('w sup, json) act" where
  "read_directive_manifest E path =
     catch (\<lambda>e. os_error e \<or> e = ValueError) (ask (Read_manifest path) (manifest_of E path))
       (\<lambda>_. ret JNull)"

fun input_paths :: "json list \<Rightarrow> pystr list" where
  "input_paths [] = []"
| "input_paths (e # es) =
     (case e of
        JObj d \<Rightarrow> (case json_get d (u ''path'') of
                     JStr p \<Rightarrow> p # input_paths es | _ \<Rightarrow> input_paths es)
      | _ \<Rightarrow> input_paths es)"

definition manifest_paths :: "json \<Rightarrow> pystr list" where
  "manifest_paths manifest =
     (case manifest of
        JObj m \<Rightarrow> (case json_get m (u ''inputs'') of JList es \<Rightarrow> input_paths es | _ \<Rightarrow> [])
      | _ \<Rightarrow> [])"

text \<open>The dict comprehension keeps the last hash of a path named twice.\<close>

definition probe_directives ::
  "'w seams \<Rightarrow> json \<Rightarrow> pystr \<Rightarrow> ('w sup, pystr \<Rightarrow> pystr option) act" where
  "probe_directives E manifest dest =
     bindA (mapA (\<lambda>p. bindA (sha256_of E p) (\<lambda>h. ret (p, h))) (dest # manifest_paths manifest))
       (\<lambda>d. ret (\<lambda>p. case map_of (rev d) p of None \<Rightarrow> None | Some h \<Rightarrow> h))"

definition flatten_argv :: "'w seams \<Rightarrow> directive_watch \<Rightarrow> pystr list" where
  "flatten_argv E w =
     [if python_executable E = [] then u ''python3'' else python_executable E,
      watch_flattener w, watch_seed w, watch_dest w, u ''--manifest'', watch_manifest w]"

definition reflatten_directives :: "'w seams \<Rightarrow> directive_watch \<Rightarrow> ('w sup, bool) act" where
  "reflatten_directives E w =
     catch (\<lambda>e. os_error e \<or> e = ValueError \<or> e = SubprocessError)
       (bindA (ask (Run (flatten_argv E w)) (run_of E (flatten_argv E w)))
          (\<lambda>p. ret (returncode p = 0)))
       (\<lambda>_. ret False)"

definition check_directives :: "'w seams \<Rightarrow> config \<Rightarrow> ('w sup, directive_verdict option) act" where
  "check_directives E C =
     (case directives C of
        None \<Rightarrow> ret None
      | Some w \<Rightarrow>
          bindA (read_directive_manifest E (watch_manifest w)) (\<lambda>manifest.
          bindA (probe_directives E manifest (watch_dest w)) (\<lambda>probe.
          (let verdict = decide_directives manifest (watch_seed w) (watch_dest w) probe
           in if verdict = HAND_EDITED
              then bindA (gets hand_edit_logged) (\<lambda>logged.
                     thenA (whenA (\<not> logged)
                              (thenA (log_call Log_hand_edit)
                                     (change (\<lambda>s. s\<lparr>hand_edit_logged := True\<rparr>))))
                           (ret (Some verdict)))
              else thenA (change (\<lambda>s. s\<lparr>hand_edit_logged := False\<rparr>))
                     (thenA (if verdict = STALE
                             then thenA (reflatten_directives E w) (ret ()) else ret ())
                            (ret (Some verdict)))))))"

definition safe_check_directives :: "'w seams \<Rightarrow> config \<Rightarrow> ('w sup, unit) act" where
  "safe_check_directives E C =
     catch (\<lambda>_. True) (thenA (check_directives E C) (ret ())) (\<lambda>_. ret ())"

text \<open>Python's \<open>round\<close>: to the nearest integer, a half to the even one.\<close>

definition round_half_even :: "rat \<Rightarrow> int" where
  "round_half_even x =
     (let f = floor x; d = x - of_int f
      in if d < 1 / 2 then f else if d > 1 / 2 then f + 1 else if even f then f else f + 1)"

definition directive_tick_period :: "config \<Rightarrow> int" where
  "directive_tick_period C =
     (case directives C of
        None \<Rightarrow> 1
      | Some w \<Rightarrow>
          max 1 (round_half_even (watch_interval w / (if poll_interval C > 0 then poll_interval C else 1))))"

definition directive_tick :: "'w seams \<Rightarrow> config \<Rightarrow> ('w sup, unit) act" where
  "directive_tick E C =
     thenA (change (\<lambda>s. s\<lparr>ticks := ticks s + 1\<rparr>))
       (if directives C = None then ret ()
        else bindA (gets ticks) (\<lambda>n.
          whenA (int n mod directive_tick_period C = 0) (safe_check_directives E C)))"

section \<open>The watch loop\<close>

datatype tick_result = CONTINUE | RETURN int | HAND_OFF

text \<open>\<open>run_forever\<close> up to its loop.\<close>

definition startup :: "'w seams \<Rightarrow> config \<Rightarrow> ('w sup, unit) act" where
  "startup E C =
     thenA (set_loc (\<lambda>l. l\<lparr>ended := False, keepalive_announced := False, started := True\<rparr>))
       (catch (\<lambda>_. True)
          (bindA (agent_session_alive E C) (\<lambda>alive.
           thenA (if alive then ret ()
                  else bindA (start_agent_session E C) (\<lambda>ok. set_loc (\<lambda>l. l\<lparr>started := ok\<rparr>)))
             (bindA (snapshot E C) (\<lambda>p. set_loc (\<lambda>l. l\<lparr>prev := p\<rparr>)))))
          (\<lambda>_. set_loc (\<lambda>l. l\<lparr>prev := detached\<rparr>)))"

text \<open>The markers half of a tick; \<open>True\<close> when the session was handed over.\<close>

definition cli_newcomers :: "'w seams \<Rightarrow> config \<Rightarrow> ('w sup, bool) act" where
  "cli_newcomers E C =
     (if \<not> path_given (agent_markers_dir C) then ret False
      else bindA (scan_markers E C) (\<lambda>(live, _).
           bindA (own_agent_pids E C) (\<lambda>own.
             if session_takeover C
             then (let newcomers = newcomer_pids live own
                   in if newcomers \<noteq> {} \<and> own \<noteq> {} then takeover E C newcomers else ret False)
             else thenA (log_newcomers live own) (ret False))))"

text \<open>What one tick sees, and the action it takes from it; \<open>None\<close> after a takeover.\<close>

definition cli_observe ::
  "'w seams \<Rightarrow> config \<Rightarrow> ('w sup, (attach_state \<times> supervisor_action) option) act" where
  "cli_observe E C =
     thenA (ask Reap (reap_of E))
    (thenA (directive_tick E C)
    (bindA (snapshot E C) (\<lambda>cur.
     bindA (agent_session_alive E C) (\<lambda>alive.
     bindA (cli_newcomers E C) (\<lambda>handed.
       if handed then ret None
       else bindA (if \<not> alive \<and> on_agent_exit C \<noteq> Teardown_policy \<and> tmux_terminal cur
                   then agent_pane_exit_code E C else ret None) (\<lambda>exit_code.
            bindA (gets (\<lambda>s. prev (loc s))) (\<lambda>p.
              ret (Some (cur, decide p cur alive exit_code)))))))))"

text \<open>Closing the box: the agent's last output, its code, and which of the two is printed.\<close>

definition box_code :: "'w seams \<Rightarrow> config \<Rightarrow> ('w sup, int) act" where
  "box_code E C =
     bindA (gets (\<lambda>s. ended (loc s))) (\<lambda>over.
     bindA (if over then ret (Some 0) else agent_pane_exit_code E C) (\<lambda>pane.
     bindA (if pane = None then recorded_agent_exit E else ret pane) (\<lambda>recorded.
     bindA (gets (\<lambda>s. started (loc s))) (\<lambda>up.
       ret (case recorded of
              None \<Rightarrow> if up then UNDETERMINED_AGENT_EXIT else 1
            | Some c \<Rightarrow> c)))))"

definition close_box :: "'w seams \<Rightarrow> config \<Rightarrow> ('w sup, int) act" where
  "close_box E C =
     bindA (capture_agent_output E C) (\<lambda>live.
     bindA (if live = None then recorded_agent_output E else ret live) (\<lambda>captured.
     bindA (box_code E C) (\<lambda>code.
     thenA (case captured of
              None \<Rightarrow> ret ()
            | Some t \<Rightarrow> whenA (code \<noteq> 0) (ask (Print t) (print_of E t)))
           (ret code))))"

definition cli_act ::
  "'w seams \<Rightarrow> config \<Rightarrow> attach_state \<Rightarrow> supervisor_action \<Rightarrow> ('w sup, tick_result) act" where
  "cli_act E C cur action =
     thenA (whenA (fire_detach_hook action) (safe_on_detach E C))
    (thenA (whenA (kind action = END_SESSION) (set_loc (\<lambda>l. l\<lparr>ended := True\<rparr>)))
       (if kind action = NO_ACTION then ret CONTINUE
        else bindA (gets (\<lambda>s. ended (loc s))) (\<lambda>over.
          if on_agent_exit C = Teardown_policy \<or> over
          then if other_surface_attached cur
               then thenA (set_loc (\<lambda>l. l\<lparr>keepalive_announced := True\<rparr>)) (ret CONTINUE)
               else bindA (close_box E C) (\<lambda>code. ret (RETURN code))
          else bindA (self_heal E C) (\<lambda>ok. ret (if ok then CONTINUE else RETURN 0)))))"

definition cli_tick :: "'w seams \<Rightarrow> config \<Rightarrow> ('w sup, tick_result) act" where
  "cli_tick E C = bindA (cli_observe E C) (\<lambda>seen. case seen of
     None \<Rightarrow> ret HAND_OFF
   | Some (cur, action) \<Rightarrow>
       bindA (cli_act E C cur action) (\<lambda>r.
         if r = CONTINUE then thenA (set_loc (\<lambda>l. l\<lparr>prev := cur\<rparr>)) (ret CONTINUE) else ret r))"

section \<open>The panel watch loop\<close>

definition panel_startup :: "'w seams \<Rightarrow> config \<Rightarrow> ('w sup, unit) act" where
  "panel_startup E C =
     thenA (set_loc (\<lambda>l. l\<lparr>seen_surface := False, panel_incumbent := None\<rparr>))
       (catch (\<lambda>_. True)
          (bindA (snapshot E C) (\<lambda>p.
             set_loc (\<lambda>l. l\<lparr>panel_prev := p, seen_surface := any_attached p\<rparr>)))
          (\<lambda>_. set_loc (\<lambda>l. l\<lparr>panel_prev := detached\<rparr>)))"

definition panel_newcomers :: "'w seams \<Rightarrow> config \<Rightarrow> ('w sup, unit) act" where
  "panel_newcomers E C =
     (if \<not> path_given (agent_markers_dir C) then ret ()
      else bindA (own_agent_pids E C) (\<lambda>own.
           bindA (scan_markers E C) (\<lambda>(live, _).
             (let others = live - own
              in thenA
                   (set_loc (\<lambda>l. l\<lparr>panel_incumbent :=
                      (case panel_incumbent l of
                         Some p \<Rightarrow> if p \<in> others then Some p
                                    else if others \<noteq> {} then Some (Min others) else None
                       | None \<Rightarrow> if others \<noteq> {} then Some (Min others) else None)\<rparr>))
                   (bindA (gets (\<lambda>s. panel_incumbent (loc s))) (\<lambda>inc.
                      log_newcomers live (own \<union> set_option inc)))))))"

definition panel_observe :: "'w seams \<Rightarrow> config \<Rightarrow> ('w sup, attach_state) act" where
  "panel_observe E C =
     thenA (ask Reap (reap_of E))
    (thenA (directive_tick E C)
    (bindA (snapshot E C) (\<lambda>cur.
     thenA (whenA (any_attached cur) (set_loc (\<lambda>l. l\<lparr>seen_surface := True\<rparr>))) (ret cur))))"

definition panel_act :: "'w seams \<Rightarrow> config \<Rightarrow> attach_state \<Rightarrow> ('w sup, tick_result) act" where
  "panel_act E C cur =
     bindA (agent_session_alive E C) (\<lambda>tmux_alive.
     bindA (panel_state E C) (\<lambda>panel.
     thenA (panel_newcomers E C)
    (bindA (gets (\<lambda>s. seen_surface (loc s))) (\<lambda>seen.
       case decide_panel tmux_alive panel (vscode_server cur) (any_attached cur) seen of
         SELF_HEAL_CLI \<Rightarrow> bindA (self_heal E C) (\<lambda>ok. ret (if ok then CONTINUE else RETURN 0))
       | TEARDOWN \<Rightarrow> ret (RETURN 0)
       | PANEL_WAIT \<Rightarrow> ret CONTINUE))))"

definition panel_tick :: "'w seams \<Rightarrow> config \<Rightarrow> ('w sup, tick_result) act" where
  "panel_tick E C = bindA (panel_observe E C) (\<lambda>cur.
     bindA (gets (\<lambda>s. panel_prev (loc s))) (\<lambda>p.
     thenA (whenA (classify_transition p cur = DETACH) (safe_on_detach E C))
    (bindA (panel_act E C cur) (\<lambda>r.
       if r = CONTINUE then thenA (set_loc (\<lambda>l. l\<lparr>panel_prev := cur\<rparr>)) (ret CONTINUE)
       else ret r))))"

definition teardown :: "'w seams \<Rightarrow> config \<Rightarrow> ('w sup, unit) act" where
  "teardown E C = thenA (change (\<lambda>s. s\<lparr>stop := True\<rparr>)) (kill_agent_session E C)"

section \<open>Runs\<close>

text \<open>
  Where PID 1 is: in the supervise loop, in the panel loop it was configured for, in the panel
  loop a takeover entered from the supervise loop, or done. The sleep between ticks is outside
  the handlers; one that raises ends the process, or, in the nested panel loop, falls into the
  handler of the tick that entered it.
\<close>

datatype mode = Cli | Panel | Handed | Exited int | Crashed exn

definition cli_iter :: "'w seams \<Rightarrow> config \<Rightarrow> 'w sup \<Rightarrow> mode \<times> 'w sup" where
  "cli_iter E C s =
     (case catch (\<lambda>_. True) (cli_tick E C) (\<lambda>_. ret CONTINUE) s of
        (Inl e, s') \<Rightarrow> (Crashed e, s')
      | (Inr CONTINUE, s') \<Rightarrow>
          (case sleep_for E (poll_interval C) s' of
             (Inl e, s'') \<Rightarrow> (Crashed e, s'') | (Inr _, s'') \<Rightarrow> (Cli, s''))
      | (Inr (RETURN c), s') \<Rightarrow> (Exited c, s')
      | (Inr HAND_OFF, s') \<Rightarrow> (Handed, snd (panel_startup E C s')))"

definition panel_iter :: "'w seams \<Rightarrow> config \<Rightarrow> mode \<Rightarrow> 'w sup \<Rightarrow> mode \<times> 'w sup" where
  "panel_iter E C m s =
     (case catch (\<lambda>_. True) (panel_tick E C) (\<lambda>_. ret CONTINUE) s of
        (Inr (RETURN c), s') \<Rightarrow> (Exited c, s')
      | (_, s') \<Rightarrow>
          (case sleep_for E (poll_interval C) s' of
             (Inr _, s'') \<Rightarrow> (m, s'')
           | (Inl e, s'') \<Rightarrow>
               if m = Handed
               then (case sleep_for E (poll_interval C) s'' of
                       (Inl e', s3) \<Rightarrow> (Crashed e', s3) | (Inr _, s3) \<Rightarrow> (Cli, s3))
               else (Crashed e, s'')))"

definition run_start :: "'w seams \<Rightarrow> config \<Rightarrow> 'w sup \<Rightarrow> mode \<times> 'w sup" where
  "run_start E C s =
     (if panel_watch C then (Panel, snd (panel_startup E C s)) else (Cli, snd (startup E C s)))"

text \<open>
  One step of PID 1: an iteration of the loop it is in, the loop's end after a requested stop,
  or the termination signal, whose handler asks for the stop and kills the session. A handler
  that raises does so wherever the signal found the loop: inside a tick it is swallowed,
  outside one it ends the process or leaves the nested panel loop.
\<close>

inductive sup_step :: "'w seams \<Rightarrow> config \<Rightarrow> mode \<times> 'w sup \<Rightarrow> mode \<times> 'w sup \<Rightarrow> bool"
  for E :: "'w seams" and C :: config where
  cli: "\<not> stop s \<Longrightarrow> cli_iter E C s = x \<Longrightarrow> sup_step E C (Cli, s) x"
| panel: "m \<in> {Panel, Handed} \<Longrightarrow> \<not> stop s \<Longrightarrow> panel_iter E C m s = x \<Longrightarrow> sup_step E C (m, s) x"
| stopped: "m \<in> {Cli, Panel, Handed} \<Longrightarrow> stop s \<Longrightarrow> sup_step E C (m, s) (Exited 0, s)"
| sigterm: "m \<in> {Cli, Panel, Handed} \<Longrightarrow> teardown E C s = (Inr (), s') \<Longrightarrow> sup_step E C (m, s) (m, s')"
| sigterm_raises:
    "m \<in> {Cli, Panel, Handed} \<Longrightarrow> teardown E C s = (Inl e, s') \<Longrightarrow>
     m' = m \<or> m' = Crashed e \<or> m = Handed \<and> m' = Cli \<Longrightarrow> sup_step E C (m, s) (m', s')"

inductive_cases sup_stepE: "sup_step E C (m, s) (m', s')"

definition reachable :: "'w seams \<Rightarrow> config \<Rightarrow> 'w \<Rightarrow> mode \<Rightarrow> 'w sup \<Rightarrow> bool" where
  "reachable E C w m s \<longleftrightarrow> (sup_step E C)\<^sup>*\<^sup>* (run_start E C (init_sup w)) (m, s)"

end
