(* ===== verification/SupervisorSafety.thy ===== *)
theory SupervisorSafety imports SupervisorRun begin

text \<open>
  What the supervisor can do to its box. Each operation is placed in a class of calls it can
  make; from the classes follow the properties of the loops and of whole runs: no signal to
  PID 1's own group, no agent restarted after the user ended it, no detach missed, bounded
  restarts, and a takeover that pauses before it evicts and resumes whatever happens.
\<close>

section \<open>Classes of calls\<close>

text \<open>A tmux command that starts a session: \<open>new-session\<close>, or the armed form of it.\<close>

fun starts_session :: "call \<Rightarrow> bool" where
  "starts_session (Tmux (a # b # _)) \<longleftrightarrow>
     a = u ''new-session'' \<or> a = u ''set-option'' \<and> b = u ''-g''"
| "starts_session _ \<longleftrightarrow> False"

fun group_safe :: "call \<Rightarrow> bool" where
  "group_safe (Killpg g _) \<longleftrightarrow> 1 < g"
| "group_safe _ \<longleftrightarrow> True"

fun writes_flag :: "call \<Rightarrow> bool" where
  "writes_flag (Write_flag _) \<longleftrightarrow> True"
| "writes_flag _ \<longleftrightarrow> False"

definition ordinary :: "call \<Rightarrow> bool" where
  "ordinary c \<longleftrightarrow> group_safe c \<and> \<not> starts_session c \<and> \<not> writes_flag c"

text \<open>\<open>s'\<close> follows \<open>s\<close> by calls of the class and with the loop's variables as they were.\<close>

definition only :: "(call \<Rightarrow> bool) \<Rightarrow> 'w sup \<Rightarrow> 'w sup \<Rightarrow> bool" where
  "only P s s' \<longleftrightarrow> loc s' = loc s \<and> (\<exists>es. trace s' = trace s @ es \<and> (\<forall>e \<in> set es. P (fst e)))"

interpretation only: step_order "only P" for P
proof
  show "only P s s" for s :: "'w sup" by (simp add: only_def)
  show "only P s s''" if a: "only P s s'" and b: "only P s' s''" for s s' s'' :: "'w sup"
  proof -
    obtain es where "trace s' = trace s @ es" "\<forall>e \<in> set es. P (fst e)" using a by (auto simp: only_def)
    moreover obtain es' where "trace s'' = trace s' @ es'" "\<forall>e \<in> set es'. P (fst e)"
      using b by (auto simp: only_def)
    ultimately have "trace s'' = trace s @ es @ es'" "\<forall>e \<in> set (es @ es'). P (fst e)" by auto
    then show ?thesis using a b unfolding only_def by metis
  qed
qed

lemma only_mono: "only P s s' \<Longrightarrow> (\<And>c. P c \<Longrightarrow> Q c) \<Longrightarrow> only Q s s'"
  unfolding only_def by blast

lemma steps_only_mono: "steps_in (only P) m \<Longrightarrow> (\<And>c. P c \<Longrightarrow> Q c) \<Longrightarrow> steps_in (only Q) m"
  unfolding steps_in_def by (blast intro: only_mono)

lemma only_ask: "P c \<Longrightarrow> steps_in (only P) (ask c f)"
  by (simp add: steps_in_def only_def ask_def split: prod.split)

lemma only_log: "P c \<Longrightarrow> steps_in (only P) (log_call c)"
  by (simp add: steps_in_def only_def log_call_def change_def)

lemma only_change:
  "(\<And>s. trace (f s) = trace s \<and> loc (f s) = loc s) \<Longrightarrow> steps_in (only P) (change f)"
  by (simp add: steps_in_def only_def change_def)

lemmas only_laws = only.laws only_ask only_log

section \<open>The calls each operation makes\<close>

abbreviation quiet :: "('w sup, 'a) act \<Rightarrow> bool" where
  "quiet m \<equiv> steps_in (only ordinary) m"

lemma ordinary_simps [simp]:
  "ordinary (Sleep d)" "ordinary (Pid_alive p)" "ordinary (List_markers dir)" "ordinary (Cmdline_of p)"
  "ordinary (Remove_marker dir p)" "ordinary (Kill p sg)" "ordinary (Getpgid p)" "ordinary Getpgrp"
  "ordinary Reap" "ordinary Proc_cmdlines" "ordinary (Read_text f)" "ordinary Make_temp_dir"
  "ordinary (Remove_tree f)" "ordinary (Sha256 f)" "ordinary (Read_manifest f)" "ordinary (Print f)"
  "ordinary (Log_newcomer p)" "ordinary Log_hand_edit" "ordinary (Run argv)"
  "ordinary (Killpg g sg) \<longleftrightarrow> 1 < g" "ordinary (Tmux args) \<longleftrightarrow> \<not> starts_session (Tmux args)"
  "\<not> ordinary (Write_flag f)"
  by (simp_all add: ordinary_def)

lemma tmux_call_only: "P (Tmux args) \<Longrightarrow> steps_in (only P) (tmux_call E args)"
  unfolding tmux_call_def by (intro only_laws)

lemma run_tmux_only: "P (Tmux args) \<Longrightarrow> steps_in (only P) (run_tmux E args)"
  unfolding run_tmux_def by (intro only_laws tmux_call_only)

lemma tmux_output_only: "P (Tmux args) \<Longrightarrow> steps_in (only P) (tmux_output E args)"
  unfolding tmux_output_def by (intro only_laws tmux_call_only)

lemma plain_argvs [simp]:
  "\<not> starts_session (Tmux (has_session_argv C))"
  "\<not> starts_session (Tmux (kill_session_argv C))"
  "\<not> starts_session (Tmux (send_keys_argv C keys))"
  "\<not> starts_session (Tmux (list_panes_argv C))"
  "\<not> starts_session (Tmux (list_clients_argv C))"
  "\<not> starts_session (Tmux (capture_argv C tgt))"
  "\<not> starts_session (Tmux (display_death_argv C))"
  by (simp_all add: has_session_argv_def kill_session_argv_def send_keys_argv_def list_panes_argv_def
      list_clients_argv_def capture_argv_def display_death_argv_def u_def)

named_theorems quiet_ops "operations that make ordinary calls only"

lemmas quiet_laws = only_laws tmux_call_only run_tmux_only tmux_output_only

lemma quiet_sleep [quiet_ops]: "quiet (sleep_for E d)"
  unfolding sleep_for_def by (intro quiet_laws) simp

lemma quiet_own_agent_pids [quiet_ops]: "quiet (own_agent_pids E C)"
  unfolding own_agent_pids_def by (intro quiet_laws) simp

lemma quiet_kill_process_group [quiet_ops]: "quiet (kill_process_group E pid sg)"
  unfolding kill_process_group_def by (intro quiet_laws) auto

lemma quiet_kill_agent_session [quiet_ops]: "quiet (kill_agent_session E C)"
  unfolding kill_agent_session_def by (intro quiet_laws quiet_ops) simp

lemma quiet_send_keys_text [quiet_ops]: "quiet (send_keys_text E C keys)"
proof -
  have "quiet (send_attempts E C keys ks)" for ks
    by (induction ks) (simp_all, (intro quiet_laws quiet_ops; simp)+)
  then show ?thesis by (simp add: send_keys_text_def)
qed

lemma quiet_agent_pane_exit_code [quiet_ops]: "quiet (agent_pane_exit_code E C)"
  unfolding agent_pane_exit_code_def by (intro quiet_laws) simp

lemma quiet_agent_session_alive [quiet_ops]: "quiet (agent_session_alive E C)"
  unfolding agent_session_alive_def by (intro quiet_laws quiet_ops) simp

lemma quiet_recorded_agent_exit [quiet_ops]: "quiet (recorded_agent_exit E)"
  unfolding recorded_agent_exit_def by (intro quiet_laws) simp_all

lemma quiet_capture_agent_output [quiet_ops]: "quiet (capture_agent_output E C)"
  unfolding capture_agent_output_def by (intro quiet_laws) simp

lemma quiet_recorded_agent_output [quiet_ops]: "quiet (recorded_agent_output E)"
  unfolding recorded_agent_output_def by (intro quiet_laws) simp

lemma quiet_snapshot [quiet_ops]: "quiet (snapshot E C)"
  unfolding snapshot_def by (intro quiet_laws) simp_all

lemma quiet_is_agent_pid [quiet_ops]: "quiet (is_agent_pid E C pid)"
  unfolding is_agent_pid_def Let_def by (intro quiet_laws) simp

lemma quiet_scan_markers [quiet_ops]: "quiet (scan_markers E C)"
proof -
  have one: "quiet (scan_one (\<lambda>p. ask (Pid_alive p) (pid_alive_of E p)) (Some (is_agent_pid E C))
      (Some (\<lambda>p. ask (Remove_marker d p) (remove_marker_of E d p))) pid acc)" for d pid acc
    unfolding scan_one_def Let_def option.case bool.case
    by (intro quiet_laws quiet_ops; (simp split: bool.split)?; intro conjI impI allI quiet_laws; simp)
  then show ?thesis unfolding scan_markers_def scan_marker_pids_def option.map
    by (intro quiet_laws quiet_ops one) simp
qed

lemma quiet_log_newcomers [quiet_ops]: "quiet (log_newcomers live own)"
  unfolding log_newcomers_def by (intro quiet_laws only_change) simp_all

lemma quiet_signal_pid [quiet_ops]: "quiet (signal_pid E pid sg)"
  unfolding signal_pid_def by (intro quiet_laws) simp

lemma quiet_resume [quiet_ops]: "quiet (resume E pids)"
  unfolding resume_def by (intro quiet_laws quiet_ops)

lemma quiet_pause_one [quiet_ops]: "quiet (pause_one E pid)"
  unfolding pause_one_def by (intro quiet_laws quiet_ops only_change) simp

lemma quiet_pre_evict [quiet_ops]: "quiet (pre_evict E C ps)"
  unfolding pre_evict_def by (intro quiet_laws quiet_ops only_change) simp

lemma quiet_takeover [quiet_ops]: "quiet (takeover E C ps)"
  unfolding takeover_def by (intro quiet_laws quiet_ops)

lemma quiet_panel_state [quiet_ops]: "quiet (panel_state E C)"
  unfolding panel_state_def case_prod_beta by (intro quiet_laws quiet_ops)

lemma quiet_sha256_of [quiet_ops]: "quiet (sha256_of E p)"
  unfolding sha256_of_def by (intro quiet_laws) simp

lemma quiet_probe_directives [quiet_ops]: "quiet (probe_directives E m dest)"
  unfolding probe_directives_def by (intro quiet_laws quiet_ops)

lemma quiet_read_directive_manifest [quiet_ops]: "quiet (read_directive_manifest E p)"
  unfolding read_directive_manifest_def by (intro quiet_laws) simp

lemma quiet_reflatten_directives [quiet_ops]: "quiet (reflatten_directives E w)"
  unfolding reflatten_directives_def by (intro quiet_laws) simp

lemma quiet_check_directives [quiet_ops]: "quiet (check_directives E C)"
  unfolding check_directives_def Let_def by (intro quiet_laws quiet_ops only_change) simp_all

lemma quiet_directive_tick [quiet_ops]: "quiet (directive_tick E C)"
  unfolding directive_tick_def safe_check_directives_def
  by (intro quiet_laws quiet_ops only_change) simp

lemma quiet_close_box [quiet_ops]: "quiet (close_box E C)"
  unfolding close_box_def box_code_def by (intro quiet_laws quiet_ops) simp

lemma quiet_cli_newcomers [quiet_ops]: "quiet (cli_newcomers E C)"
  unfolding cli_newcomers_def Let_def case_prod_beta by (intro quiet_laws quiet_ops)

lemma quiet_cli_observe: "quiet (cli_observe E C)"
  unfolding cli_observe_def by (intro quiet_laws quiet_ops) simp

text \<open>The operations that start a session, and the detach hook.\<close>

abbreviation starting :: "('w sup, 'a) act \<Rightarrow> bool" where
  "starting m \<equiv> steps_in (only (\<lambda>c. ordinary c \<or> starts_session c)) m"

lemma quiet_starting: "quiet m \<Longrightarrow> starting m"
  by (erule steps_only_mono) simp

lemma group_safe_starts: "starts_session c \<Longrightarrow> group_safe c \<and> \<not> writes_flag c"
  by (cases c) auto

lemma starting_session_arms [quiet_ops]: "quiet (session_arms E C)"
  unfolding session_arms_def exit_hook_def exit_record_path_def Let_def
  by (intro quiet_laws only_change) simp_all

lemma starting_arm_and_start: "starting (arm_and_start_session E C argv)"
  unfolding arm_and_start_session_def start_session_argv_def case_prod_beta
  by (intro quiet_laws quiet_ops [THEN quiet_starting]) auto

lemma starting_restart: "starting (restart_agent_session E C)"
  unfolding restart_agent_session_def
  by (intro quiet_laws quiet_ops [THEN quiet_starting] starting_arm_and_start)

lemma starting_self_heal: "starting (self_heal E C)"
proof -
  have "starting (heal_attempts E C ks)" for ks
  proof (induction ks)
    case (Cons k ks)
    show ?case unfolding heal_attempts.simps
      by (intro quiet_laws quiet_ops [THEN quiet_starting] starting_restart Cons.IH)
  qed (simp add: only.ret)
  then show ?thesis by (simp add: self_heal_def)
qed

lemma starting_start_agent: "starting (start_agent_session E C)"
  unfolding start_agent_session_def by (intro quiet_laws starting_arm_and_start)

abbreviation hooking :: "('w sup, 'a) act \<Rightarrow> bool" where
  "hooking m \<equiv> steps_in (only (\<lambda>c. ordinary c \<or> writes_flag c)) m"

lemma hooking_safe_on_detach: "hooking (safe_on_detach E C)"
  unfolding safe_on_detach_def on_detach_def by (intro quiet_laws) simp

section \<open>No signal to PID 1 or its group\<close>

text \<open>The loops change their own variables; their calls stay in the class.\<close>

definition emits :: "(call \<Rightarrow> bool) \<Rightarrow> 'w sup \<Rightarrow> 'w sup \<Rightarrow> bool" where
  "emits P s s' \<longleftrightarrow> (\<exists>es. trace s' = trace s @ es \<and> (\<forall>e \<in> set es. P (fst e)))"

interpretation emits: step_order "emits P" for P
proof
  show "emits P s s" for s :: "'w sup" by (simp add: emits_def)
  show "emits P s s''" if a: "emits P s s'" and b: "emits P s' s''" for s s' s'' :: "'w sup"
  proof -
    obtain es where "trace s' = trace s @ es" "\<forall>e \<in> set es. P (fst e)" using a by (auto simp: emits_def)
    moreover obtain es' where "trace s'' = trace s' @ es'" "\<forall>e \<in> set es'. P (fst e)"
      using b by (auto simp: emits_def)
    ultimately have "trace s'' = trace s @ es @ es'" "\<forall>e \<in> set (es @ es'). P (fst e)" by auto
    then show ?thesis unfolding emits_def by metis
  qed
qed

lemma only_emits: "only P s s' \<Longrightarrow> (\<And>c. P c \<Longrightarrow> Q c) \<Longrightarrow> emits Q s s'"
  unfolding only_def emits_def by blast

lemma steps_only_emits: "steps_in (only P) m \<Longrightarrow> (\<And>c. P c \<Longrightarrow> Q c) \<Longrightarrow> steps_in (emits Q) m"
  unfolding steps_in_def by (blast intro: only_emits)

lemma emits_set_loc: "steps_in (emits P) (set_loc f)"
  by (simp add: steps_in_def emits_def set_loc_def change_def)

abbreviation safe :: "('w sup, 'a) act \<Rightarrow> bool" where
  "safe m \<equiv> steps_in (emits group_safe) m"

lemma quiet_safe: "quiet m \<Longrightarrow> safe m"
  by (erule steps_only_emits) (auto simp: ordinary_def)

lemma starting_safe: "starting m \<Longrightarrow> safe m"
  by (erule steps_only_emits) (auto simp: ordinary_def dest: group_safe_starts)

lemma hooking_safe: "hooking m \<Longrightarrow> safe m"
proof (erule steps_only_emits)
  show "ordinary c \<or> writes_flag c \<Longrightarrow> group_safe c" for c
    by (cases c) (auto simp: ordinary_def)
qed

lemmas safe_parts = emits.laws emits_set_loc quiet_ops [THEN quiet_safe]
  starting_self_heal [THEN starting_safe] starting_start_agent [THEN starting_safe]
  hooking_safe_on_detach [THEN hooking_safe] only_ask [THEN quiet_safe]

lemma safe_cli_tick: "safe (cli_tick E C)"
  unfolding cli_tick_def cli_act_def case_prod_beta
  by (intro safe_parts quiet_cli_observe [THEN quiet_safe])

lemma safe_panel_tick: "safe (panel_tick E C)"
proof -
  have "safe (panel_newcomers E C)"
    unfolding panel_newcomers_def case_prod_beta Let_def by (intro safe_parts)
  then have "safe (panel_act E C cur)" for cur
    unfolding panel_act_def
    by (intro safe_parts; (assumption | (simp split: panel_action.split, intro conjI impI safe_parts)))
  moreover have "safe (panel_observe E C)"
    unfolding panel_observe_def by (intro safe_parts) simp
  ultimately show ?thesis unfolding panel_tick_def by (intro safe_parts)
qed

lemma safe_startup: "safe (startup E C)" and safe_panel_startup: "safe (panel_startup E C)"
  unfolding startup_def panel_startup_def by (intro safe_parts)+

lemma safe_teardown: "safe (teardown E C)"
  unfolding teardown_def by (intro safe_parts only_change [THEN quiet_safe]) simp_all

lemma safe_sleep: "safe (sleep_for E d)"
  by (rule quiet_safe) (rule quiet_sleep)

lemma safe_cli_iter: "emits group_safe s (snd (cli_iter E C s))"
proof -
  have t: "safe (catch (\<lambda>_. True) (cli_tick E C) (\<lambda>_. ret CONTINUE))"
    by (intro safe_parts safe_cli_tick)
  show ?thesis unfolding cli_iter_def
    using steps_in_run [OF t] steps_in_run [OF safe_sleep] steps_inD [OF safe_panel_startup]
    by (auto split: prod.split sum.split tick_result.split) (blast intro: emits.trans)+
qed

lemma safe_panel_iter: "emits group_safe s (snd (panel_iter E C m s))"
proof -
  have t: "safe (catch (\<lambda>_. True) (panel_tick E C) (\<lambda>_. ret CONTINUE))"
    by (intro safe_parts safe_panel_tick)
  show ?thesis unfolding panel_iter_def
    using steps_in_run [OF t] steps_in_run [OF safe_sleep]
    by (auto split: prod.split sum.split tick_result.split) (blast intro: emits.trans)+
qed

lemma safe_step: "sup_step E C (m, s) (m', s') \<Longrightarrow> emits group_safe s s'"
proof (erule sup_stepE)
  show "emits group_safe s s'" if "cli_iter E C s = (m', s')"
    using safe_cli_iter [of s E C] that by simp
  show "emits group_safe s s'" if "panel_iter E C m s = (m', s')"
    using safe_panel_iter [of s E C m] that by simp
qed (auto intro: emits.refl steps_in_run [OF safe_teardown])

lemma safe_run: "(sup_step E C)\<^sup>*\<^sup>* (m, s) (m', s') \<Longrightarrow> emits group_safe s s'"
proof (induction "(m, s)" "(m', s')" arbitrary: m' s' rule: rtranclp.induct)
  case (rtrancl_into_rtrancl b)
  then show ?case by (cases b) (blast intro: emits.trans safe_step)
qed (rule emits.refl)

text \<open>
  C1. In every state PID 1 can reach, with any system under it and the termination signal
  coming at any point, each process group it has signalled has a number above 1: it never
  signals its own container's init group or every process there is.
\<close>

theorem group_signals_above_one:
  assumes "reachable E C w m s" "(Killpg g sg, answered) \<in> set (trace s)"
  shows "1 < g"
proof -
  obtain m0 s0 where start: "run_start E C (init_sup w) = (m0, s0)" by fastforce
  then have "emits group_safe (init_sup w) s0"
    using steps_inD [OF safe_startup] steps_inD [OF safe_panel_startup]
    by (auto simp: run_start_def split: if_splits)
  moreover have "emits group_safe s0 s"
    using assms(1) start by (auto simp: reachable_def intro: safe_run)
  ultimately have "emits group_safe (init_sup w) s" by (rule emits.trans)
  then have "\<forall>e \<in> set (trace s). group_safe (fst e)" by (auto simp: emits_def init_sup_def)
  with assms(2) have "group_safe (Killpg g sg)" by fastforce
  then show ?thesis by simp
qed

section \<open>A concrete box\<close>

text \<open>
  A system for the witnesses: the agent session is there and its pane, process 77, lives; no
  terminal is attached and nothing else runs; signals and files work.
\<close>

definition lab :: "unit seams" where
  "lab = \<lparr>
     run_of = (\<lambda>argv w.
       (if argv ! 1 = u ''list-panes'' then Inr \<lparr>returncode = 0, stdout = u ''77'', stderr = []\<rparr>
        else if argv ! 1 = u ''has-session'' \<or> argv ! 1 = u ''display-message''
        then Inr \<lparr>returncode = 0, stdout = [], stderr = []\<rparr>
        else Inl OSError, w)),
     sleep_of = (\<lambda>_ w. (Inr (), w)), pid_alive_of = (\<lambda>_ w. (Inr True, w)),
     list_markers_of = (\<lambda>_ w. (Inr [77], w)), cmdline_seam = (\<lambda>_ w. (Inr None, w)),
     remove_marker_of = (\<lambda>_ _ w. (Inr (), w)), kill_of = (\<lambda>_ _ w. (Inr (), w)),
     killpg_of = (\<lambda>_ _ w. (Inr (), w)), getpgid_of = (\<lambda>p w. (Inr p, w)),
     getpgrp_of = (\<lambda>w. (Inr 1, w)), reap_of = (\<lambda>w. (Inr (), w)), cmdlines_of = (\<lambda>w. (Inr [], w)),
     read_text_of = (\<lambda>_ w. (Inl OSError, w)), temp_dir_of = (\<lambda>w. (Inl OSError, w)),
     remove_tree_of = (\<lambda>_ w. (Inr (), w)), write_flag_of = (\<lambda>_ w. (Inr (), w)),
     sha256_of_path = (\<lambda>_ w. (Inl OSError, w)), manifest_of = (\<lambda>_ w. (Inl OSError, w)),
     print_of = (\<lambda>_ w. (Inr (), w)), numerals_of = ascii_numerals,
     python_executable = u ''python3''\<rparr>"

definition lab_config :: config where
  "lab_config = \<lparr>session = u ''agent'', start_argv = [u ''claude''],
     continue_argv = [u ''claude'', u ''--continue''], marker = CONTINUE_MARKER, poll_interval = 2,
     max_restart_retries = 3, backoff_base = 1 / 2, send_keys_retries = 1, send_keys_delay = 1 / 10,
     on_agent_exit = Self_heal_policy, session_takeover = False, takeover_grace = 5,
     panel_watch = False, agent_markers_dir = None, creds_flag = Some (u ''/flag''),
     directives = None, capture_history = 200\<rparr>"

lemma lab_tmux:
  "tmux_output lab (list_panes_argv C) s =
     (Inr (Some (u ''77'')), s\<lparr>trace := trace s @ [(Tmux (list_panes_argv C), True)]\<rparr>)"
  "tmux_output lab (list_clients_argv C) s =
     (Inr None, s\<lparr>trace := trace s @ [(Tmux (list_clients_argv C), False)]\<rparr>)"
  "tmux_output lab (display_death_argv C) s =
     (Inr (Some []), s\<lparr>trace := trace s @ [(Tmux (display_death_argv C), True)]\<rparr>)"
  "run_tmux lab (has_session_argv C) s =
     (Inr (Some 0), s\<lparr>trace := trace s @ [(Tmux (has_session_argv C), True)]\<rparr>)"
  "run_tmux lab (kill_session_argv C) s =
     (Inr None, s\<lparr>trace := trace s @ [(Tmux (kill_session_argv C), False)]\<rparr>)"
  "run_tmux lab (send_keys_argv C keys) s =
     (Inr None, s\<lparr>trace := trace s @ [(Tmux (send_keys_argv C keys), False)]\<rparr>)"
  by (simp_all add: lab_def tmux_output_def run_tmux_def tmux_call_def ask_def run_simps os_error_def
      list_panes_argv_def list_clients_argv_def display_death_argv_def has_session_argv_def
      kill_session_argv_def send_keys_argv_def u_def)

lemma split_ws_77: "split_ws (u ''77'') = [u ''77'']"
  by (rule split_ws_word) (simp_all add: u_def is_space_def)

lemma int_of_77: "int_of ascii_numerals (u ''77'') = Inr 77"
proof -
  have "strip (u ''77'') = u ''77''"
    by (rule strip_id) (auto simp: u_def is_space_def)
  then show ?thesis by (simp add: int_of_def u_def value_of_def ascii_digit_def)
qed

lemma lab_own: "own_agent_pids lab C s =
    (Inr {77}, s\<lparr>trace := trace s @ [(Tmux (list_panes_argv C), True)]\<rparr>)"
proof -
  have "u ''77'' \<noteq> []" by (simp add: u_def)
  moreover have "numerals_of lab = ascii_numerals" by (simp add: lab_def)
  ultimately show ?thesis
    by (simp add: own_agent_pids_def bindA_def lab_tmux split_ws_77 int_of_77 ret_def)
qed

lemma lab_alive: "agent_session_alive lab C s =
    (Inr True, s\<lparr>trace := trace s @
       [(Tmux (has_session_argv C), True), (Tmux (display_death_argv C), True)]\<rparr>)"
  by (simp add: agent_session_alive_def agent_pane_exit_code_def bindA_def lab_tmux ret_def strip_def
      rstrip_by_def)

lemma lab_snapshot: "snapshot lab C s =
    (Inr detached, s\<lparr>trace := trace s @
       [(Proc_cmdlines, True), (Tmux (list_clients_argv C), False)]\<rparr>)"
proof -
  have "ask Proc_cmdlines (cmdlines_of lab) s =
      (Inr [], s\<lparr>trace := trace s @ [(Proc_cmdlines, True)]\<rparr>)"
    by (simp add: ask_def lab_def)
  then show ?thesis
    by (simp add: snapshot_def bindA_def lab_tmux ret_def detached_def vscode_server_present_def
        tmux_terminal_attached_def strip_def rstrip_by_def)
qed

lemma lab_kill: "kill_agent_session lab C s =
    (Inr (), s\<lparr>trace := trace s @ [(Tmux (list_panes_argv C), True), (Getpgid 77, True),
       (Getpgrp, True), (Killpg 77 SIGTERM, True), (Tmux (kill_session_argv C), False)]\<rparr>)"
proof -
  have "kill_process_group lab 77 SIGTERM s =
      (Inr True, s\<lparr>trace := trace s @ [(Getpgid 77, True), (Getpgrp, True), (Killpg 77 SIGTERM, True)]\<rparr>)"
    for s
    by (simp add: kill_process_group_def ask_def lab_def run_simps)
  then show ?thesis
    by (simp add: kill_agent_session_def bindA_def thenA_def lab_own lab_tmux ret_def)
qed

lemma group_signals_above_one_witness:
  "\<exists>m s. reachable lab lab_config () m s \<and> (Killpg 77 SIGTERM, True) \<in> set (trace s) \<and> (1::int) < 77"
proof -
  define s0 where "s0 = snd (startup lab lab_config (init_sup ()))"
  define s1 where "s1 = snd (teardown lab lab_config s0)"
  have s1: "teardown lab lab_config s0 = (Inr (), s1)" "(Killpg 77 SIGTERM, True) \<in> set (trace s1)"
    by (simp_all add: s1_def teardown_def thenA_def bindA_def change_def lab_kill)
  have "run_start lab lab_config (init_sup ()) = (Cli, s0)"
    by (simp add: run_start_def s0_def lab_config_def)
  with s1(1) have "reachable lab lab_config () Cli s1"
    by (auto simp: reachable_def intro: sup_step.sigterm)
  with s1(2) group_signals_above_one [of lab lab_config "()" Cli s1 77 SIGTERM True]
  show ?thesis by blast
qed

end
