(* ===== verification/SupervisorLoops.thy ===== *)
theory SupervisorLoops imports SupervisorSafety begin

text \<open>
  Properties of the two watch loops and of the operations they call: an agent the user ended
  stays ended, no lost surface goes unreported, restarts are bounded, a takeover pauses before
  it evicts, a hand-edited instruction file is left alone, and why the loop ends.
\<close>

section \<open>An ended agent stays ended\<close>

definition calm :: "'w sup \<Rightarrow> 'w sup \<Rightarrow> bool" where
  "calm s s' \<longleftrightarrow> (ended (loc s) \<longrightarrow> ended (loc s') \<and> emits (\<lambda>c. \<not> starts_session c) s s')"

interpretation calm: step_order calm
  by unfold_locales (auto simp: calm_def intro: emits.refl emits.trans)

lemma only_calm: "steps_in (only P) m \<Longrightarrow> (\<And>c. P c \<Longrightarrow> \<not> starts_session c) \<Longrightarrow> steps_in calm m"
  unfolding steps_in_def calm_def by (auto simp: only_def emits_def) blast

lemma quiet_calm: "quiet m \<Longrightarrow> steps_in calm m"
  by (erule only_calm) (simp add: ordinary_def)

lemma hooking_calm: "hooking m \<Longrightarrow> steps_in calm m"
proof (erule only_calm)
  show "ordinary c \<or> writes_flag c \<Longrightarrow> \<not> starts_session c" for c
    by (cases c) (auto simp: ordinary_def)
qed

lemma calm_set_loc: "(\<And>l. ended l \<Longrightarrow> ended (f l)) \<Longrightarrow> steps_in calm (set_loc f)"
  by (simp add: steps_in_def calm_def emits_def set_loc_def change_def)

lemma calm_gets: "(\<And>s. calm s (snd (g (f s) s))) \<Longrightarrow> steps_in calm (bindA (gets f) g)"
  by (simp add: steps_in_def bindA_def gets_def)

lemma calm_gets_ended:
  "steps_in calm (g True) \<Longrightarrow> steps_in calm (bindA (gets (\<lambda>s. ended (loc s))) g)"
proof (rule calm_gets)
  show "calm s (snd (g (ended (loc s)) s))" if "steps_in calm (g True)" for s
    using that by (cases "ended (loc s)") (auto simp: steps_in_def calm_def)
qed

lemmas calm_parts = calm.laws calm_set_loc quiet_ops [THEN quiet_calm]
  hooking_safe_on_detach [THEN hooking_calm] only_ask [THEN quiet_calm]

lemma calm_cli_tick: "steps_in calm (cli_tick E C)"
proof -
  have act: "steps_in calm (cli_act E C cur action)" for cur action
  proof -
    have "steps_in calm (if other_surface_attached cur
        then thenA (set_loc (\<lambda>l. l\<lparr>keepalive_announced := True\<rparr>)) (ret CONTINUE)
        else bindA (close_box E C) (\<lambda>code. ret (RETURN code)))"
      by (intro calm.cond calm.seq calm_set_loc calm.ret calm.bind quiet_close_box [THEN quiet_calm])
         simp
    then have over: "steps_in calm (bindA (gets (\<lambda>s. ended (loc s))) (\<lambda>over.
        if on_agent_exit C = Teardown_policy \<or> over
        then if other_surface_attached cur
             then thenA (set_loc (\<lambda>l. l\<lparr>keepalive_announced := True\<rparr>)) (ret CONTINUE)
             else bindA (close_box E C) (\<lambda>code. ret (RETURN code))
        else bindA (self_heal E C) (\<lambda>ok. ret (if ok then CONTINUE else RETURN 0))))"
      by (intro calm_gets_ended) simp
    show ?thesis unfolding cli_act_def
      by (intro calm.seq calm.whenever calm.cond calm.ret over calm_set_loc
          hooking_safe_on_detach [THEN hooking_calm]) simp
  qed
  show ?thesis unfolding cli_tick_def case_prod_beta
    by (intro calm.bind calm.opt calm.cond calm.seq calm.ret calm_set_loc
        quiet_cli_observe [THEN quiet_calm] act) simp
qed

lemma cli_newcomers_takeover_off:
  "\<not> session_takeover C \<Longrightarrow> cli_newcomers E C s = (Inr h, s') \<Longrightarrow> \<not> h"
  by (auto simp: cli_newcomers_def run_simps split: if_splits prod.splits sum.splits)

lemma cli_tick_takeover_off:
  assumes "\<not> session_takeover C"
  shows "cli_tick E C s \<noteq> (Inr HAND_OFF, s')"
proof -
  have observe: "x \<noteq> None" if "cli_observe E C s = (Inr x, s1)" for x s1
    using that cli_newcomers_takeover_off [OF assms]
    by (auto simp: cli_observe_def bindA_def thenA_def gets_def ret_def
        split: prod.splits sum.splits if_splits)
  have act: "r \<noteq> HAND_OFF" if "cli_act E C cur action s1 = (Inr r, s2)" for cur action s1 r s2
    using that
    by (auto simp: cli_act_def run_simps split: prod.splits sum.splits if_splits)
  show ?thesis
    using observe act
    by (fastforce simp: cli_tick_def run_simps split: prod.splits sum.splits option.splits if_splits)
qed

lemma calm_sleep: "steps_in calm (sleep_for E d)"
  by (rule quiet_calm) (rule quiet_sleep)

lemma calm_teardown: "steps_in calm (teardown E C)"
  unfolding teardown_def
  by (intro calm.seq quiet_kill_agent_session [THEN quiet_calm] quiet_calm only_change) simp_all

lemma calm_cli_iter:
  assumes "\<not> session_takeover C" "cli_iter E C s = (m, s')"
  shows "calm s s'" "m \<notin> {Panel, Handed}"
proof -
  let ?t = "catch (\<lambda>_. True) (cli_tick E C) (\<lambda>_. ret CONTINUE)"
  have t: "steps_in calm ?t" by (intro calm.catch calm.ret calm_cli_tick)
  have "?t s \<noteq> (Inr HAND_OFF, s1)" for s1
    using cli_tick_takeover_off [OF assms(1)] by (auto simp: run_simps split: prod.splits sum.splits)
  then show "calm s s'" "m \<notin> {Panel, Handed}"
    using assms(2) steps_in_run [OF t] steps_in_run [OF calm_sleep]
    by (auto simp: cli_iter_def split: prod.splits sum.splits tick_result.splits)
       (blast intro: calm.trans)+
qed

lemma calm_run:
  assumes "\<not> session_takeover C" "(sup_step E C)\<^sup>*\<^sup>* (Cli, s) (m, s')"
  shows "calm s s' \<and> m \<notin> {Panel, Handed}"
  using assms(2)
proof (induction "(Cli, s)" "(m, s')" arbitrary: m s' rule: rtranclp.induct)
  case (rtrancl_into_rtrancl b)
  obtain mb sb where b: "b = (mb, sb)" by fastforce
  with rtrancl_into_rtrancl have IH: "calm s sb" "mb \<notin> {Panel, Handed}"
    and step: "sup_step E C (mb, sb) (m, s')" by auto
  have "calm sb s' \<and> m \<notin> {Panel, Handed}"
    using step IH(2)
  proof cases
    case cli
    then show ?thesis using calm_cli_iter [OF assms(1)] by (metis prod.sel)
  next
    case sigterm
    then show ?thesis using IH(2) steps_in_run [of calm "teardown E C"] calm_teardown by blast
  next
    case sigterm_raises
    then show ?thesis using IH(2) steps_in_run [of calm "teardown E C"] calm_teardown by blast
  qed (use IH(2) calm.refl in auto)
  with IH(1) show ?case by (blast intro: calm.trans)
qed (simp add: calm.refl)



section \<open>No detach is missed\<close>

text \<open>
  A watch loop: an iteration only adds to the log, and when what it remembers of the surfaces
  loses one, its hook is in what it added. Whatever happens in between, then, a surface that
  was remembered and no longer is has been reported.
\<close>

locale watch_loop =
  fixes iter :: "'s \<Rightarrow> 's"
    and seen :: "'s \<Rightarrow> attach_state"
    and events :: "'s \<Rightarrow> 'e list"
    and hook :: "'e \<Rightarrow> bool"
    and armed :: bool
  assumes grows: "\<exists>es. events (iter s) = events s @ es"
    and reports: "armed \<Longrightarrow> classify_transition (seen s) (seen (iter s)) = DETACH \<Longrightarrow>
      \<exists>es. events (iter s) = events s @ es \<and> list_ex hook es"
begin

lemma run_grows: "\<exists>es. events ((iter ^^ n) s) = events s @ es"
proof (induction n)
  case (Suc n)
  then show ?case using grows [of "(iter ^^ n) s"] by auto
qed simp

lemma lost_surface_reported:
  assumes armed and "surface = vscode_server \<or> surface = tmux_terminal"
    and "surface (seen s)" "\<not> surface (seen ((iter ^^ n) s))"
  shows "\<exists>es. events ((iter ^^ n) s) = events s @ es \<and> list_ex hook es"
  using assms(4)
proof (induction n)
  case (Suc n)
  let ?t = "(iter ^^ n) s"
  show ?case
  proof (cases "surface (seen ?t)")
    case True
    with Suc.prems assms(2) have "classify_transition (seen ?t) (seen (iter ?t)) = DETACH"
      by (auto simp: classify_detach_iff)
    then obtain es where "events (iter ?t) = events ?t @ es" "list_ex hook es"
      using reports assms(1) by blast
    moreover obtain es' where "events ?t = events s @ es'" using run_grows by blast
    ultimately show ?thesis by auto
  next
    case False
    then obtain es where "events ?t = events s @ es" "list_ex hook es" using Suc.IH by blast
    moreover obtain es' where "events (iter ?t) = events ?t @ es'" using grows by blast
    ultimately show ?thesis by auto
  qed
qed (use assms(3) in simp)

end

text \<open>The write of the flag a configuration names, whether or not it succeeded.\<close>

definition flag_hook :: "config \<Rightarrow> call \<times> bool \<Rightarrow> bool" where
  "flag_hook C e \<longleftrightarrow> fst e = Write_flag (the (creds_flag C))"

text \<open>What both loops keep until a tick ends: the log grows and the remembered surfaces stay.\<close>

definition mid_tick :: "'w sup \<Rightarrow> 'w sup \<Rightarrow> bool" where
  "mid_tick s s' \<longleftrightarrow> (\<exists>es. trace s' = trace s @ es) \<and> prev (loc s') = prev (loc s) \<and>
     panel_prev (loc s') = panel_prev (loc s)"

interpretation mid: step_order mid_tick
  by unfold_locales (auto simp: mid_tick_def)

lemma only_mid: "steps_in (only P) m \<Longrightarrow> steps_in mid_tick m"
  unfolding steps_in_def by (fastforce simp: only_def mid_tick_def)

lemma mid_set_loc:
  "(\<And>l. prev (f l) = prev l \<and> panel_prev (f l) = panel_prev l) \<Longrightarrow> steps_in mid_tick (set_loc f)"
  by (simp add: steps_in_def mid_tick_def set_loc_def change_def)

lemmas mid_parts = mid.laws mid_set_loc quiet_ops [THEN only_mid] quiet_cli_observe [THEN only_mid]
  starting_self_heal [THEN only_mid] hooking_safe_on_detach [THEN only_mid]
  only_ask [of "\<lambda>_. True", THEN only_mid]

lemma mid_cli_act: "steps_in mid_tick (cli_act E C cur action)"
  unfolding cli_act_def by (intro mid_parts) simp_all

lemma safe_on_detach_writes:
  "path_given (creds_flag C) \<Longrightarrow>
   \<exists>es. trace (snd (safe_on_detach E C s)) = trace s @ es \<and> list_ex (flag_hook C) es"
  by (auto simp: safe_on_detach_def on_detach_def run_simps ask_def flag_hook_def path_given_def
      split: option.split prod.split sum.split)

lemma safe_on_detach_returns: "\<exists>s'. safe_on_detach E C s = (Inr (), s')"
  by (auto simp: safe_on_detach_def run_simps split: prod.split sum.split)

definition reported_in :: "config \<Rightarrow> 'w sup \<Rightarrow> 'w sup \<Rightarrow> bool" where
  "reported_in C s s' \<longleftrightarrow> (\<exists>es. trace s' = trace s @ es \<and> list_ex (flag_hook C) es)"

lemma reported_in_extend:
  "mid_tick s s1 \<Longrightarrow> reported_in C s1 s2 \<Longrightarrow> mid_tick s2 s3 \<Longrightarrow> reported_in C s s3"
  by (fastforce simp: reported_in_def mid_tick_def)

text \<open>
  An iteration either leaves what it remembers alone or remembers what it saw, with the hook
  run in between when a surface was lost.
\<close>

definition tick_reports ::
  "config \<Rightarrow> ('w sup \<Rightarrow> attach_state) \<Rightarrow> 'w sup \<Rightarrow> 'w sup \<Rightarrow> bool" where
  "tick_reports C remembered s s' \<longleftrightarrow> (\<exists>es. trace s' = trace s @ es) \<and>
     (remembered s' = remembered s \<or>
      (path_given (creds_flag C) \<longrightarrow>
       classify_transition (remembered s) (remembered s') = DETACH \<longrightarrow> reported_in C s s'))"

lemma reported_in_mid: "reported_in C s s' \<Longrightarrow> mid_tick s' s'' \<Longrightarrow> reported_in C s s''"
  by (rule reported_in_extend [OF mid.refl])

lemma tick_reports_mid:
  assumes "tick_reports C f s s'" "mid_tick s' s''" "f s'' = f s'"
  shows "tick_reports C f s s''"
proof -
  have "\<exists>es. trace s'' = trace s @ es"
    using assms(1,2) by (auto simp: tick_reports_def mid_tick_def)
  then show ?thesis
    using assms(1) reported_in_mid [OF _ assms(2), of C s] unfolding tick_reports_def assms(3) by blast
qed

lemma mid_tick_reports: "mid_tick s s' \<Longrightarrow> f s' = f s \<Longrightarrow> tick_reports C f s s'"
  by (simp add: tick_reports_def mid_tick_def)

lemma cli_observe_action:
  assumes "cli_observe E C s = (Inr (Some (cur, action)), s1)"
  shows "fire_detach_hook action = (classify_transition (prev (loc s)) cur = DETACH)"
proof -
  have "loc s1 = loc s" using steps_in_run [OF quiet_cli_observe assms] by (simp add: only_def)
  moreover have "\<exists>alive code. action = decide (prev (loc s1)) cur alive code"
    using assms
    by (auto simp: cli_observe_def bindA_def thenA_def gets_def ret_def
        split: prod.splits sum.splits if_splits)
  ultimately show ?thesis by (auto simp: decide_def)
qed

lemma cli_act_reports:
  assumes "path_given (creds_flag C)" "fire_detach_hook action" "cli_act E C cur action s = (r, s')"
  shows "reported_in C s s'"
proof -
  obtain s1 where h: "safe_on_detach E C s = (Inr (), s1)" using safe_on_detach_returns by blast
  then have "reported_in C s s1"
    using safe_on_detach_writes [OF assms(1), of E s] by (simp add: reported_in_def)
  moreover have "mid_tick s1 s'"
  proof -
    define rest where "rest = thenA (whenA (kind action = END_SESSION) (set_loc (\<lambda>l. l\<lparr>ended := True\<rparr>)))
       (if kind action = NO_ACTION then ret CONTINUE
        else bindA (gets (\<lambda>s. ended (loc s))) (\<lambda>over.
          if on_agent_exit C = Teardown_policy \<or> over
          then if other_surface_attached cur
               then thenA (set_loc (\<lambda>l. l\<lparr>keepalive_announced := True\<rparr>)) (ret CONTINUE)
               else bindA (close_box E C) (\<lambda>code. ret (RETURN code))
          else bindA (self_heal E C) (\<lambda>ok. ret (if ok then CONTINUE else RETURN 0))))"
    have "steps_in mid_tick rest" unfolding rest_def by (intro mid_parts) simp_all
    moreover have "rest s1 = (r, s')"
      using assms(2,3) h by (simp add: cli_act_def rest_def thenA_def bindA_def whenA_def)
    ultimately show ?thesis by (rule steps_in_run)
  qed
  ultimately show ?thesis by (rule reported_in_mid)
qed

lemma cli_tick_reports:
  assumes "cli_tick E C s = (r, s')"
  shows "tick_reports C (\<lambda>s. prev (loc s)) s s'"
proof -
  obtain x s1 where o: "cli_observe E C s = (x, s1)" by fastforce
  then have m1: "mid_tick s s1"
    using steps_in_run [OF quiet_cli_observe [THEN only_mid]] by blast
  then have p1: "prev (loc s1) = prev (loc s)" by (simp add: mid_tick_def)
  show ?thesis
  proof (cases "\<exists>cur action. x = Inr (Some (cur, action))")
    case False
    then have "s' = s1"
      using assms o by (auto simp: cli_tick_def bindA_def ret_def split: sum.splits option.splits)
    then show ?thesis using m1 p1 by (auto intro: mid_tick_reports)
  next
    case True
    then obtain cur action where x: "x = Inr (Some (cur, action))" by blast
    obtain y s2 where a: "cli_act E C cur action s1 = (y, s2)" by fastforce
    have m2: "mid_tick s s2" using m1 steps_in_run [OF mid_cli_act a] by (rule mid.trans)
    show ?thesis
    proof (cases "y = Inr CONTINUE")
      case False
      then have "s' = s2"
        using assms o x a by (auto simp: cli_tick_def bindA_def ret_def split: sum.splits if_splits)
      then show ?thesis using m2 by (auto intro: mid_tick_reports simp: mid_tick_def)
    next
      case True
      then have s': "s' = s2\<lparr>loc := (loc s2)\<lparr>prev := cur\<rparr>\<rparr>"
        using assms o x a
        by (auto simp: cli_tick_def bindA_def ret_def thenA_def set_loc_def change_def)
      have "reported_in C s s'"
        if "path_given (creds_flag C)" "classify_transition (prev (loc s)) cur = DETACH"
      proof -
        have "reported_in C s1 s2"
          using cli_act_reports [OF that(1) _ a] that(2) cli_observe_action o x by blast
        then have "reported_in C s s2" by (rule reported_in_extend [OF m1 _ mid.refl])
        then show ?thesis by (simp add: reported_in_def s')
      qed
      then show ?thesis using m2 by (auto simp: tick_reports_def s' mid_tick_def)
    qed
  qed
qed

lemma mid_panel_act: "steps_in mid_tick (panel_act E C cur)"
proof -
  have "steps_in mid_tick (panel_newcomers E C)"
    unfolding panel_newcomers_def case_prod_beta Let_def by (intro mid_parts) simp
  then show ?thesis
    unfolding panel_act_def
    by (intro mid_parts; (assumption | (simp split: panel_action.split, intro conjI impI mid_parts)))
qed

lemma mid_panel_observe: "steps_in mid_tick (panel_observe E C)"
  unfolding panel_observe_def by (intro mid_parts) simp_all

lemma panel_tick_reports:
  assumes "panel_tick E C s = (r, s')"
  shows "tick_reports C (\<lambda>s. panel_prev (loc s)) s s'"
proof -
  obtain x s1 where o: "panel_observe E C s = (x, s1)" by fastforce
  have m1: "mid_tick s s1" using steps_in_run [OF mid_panel_observe o] .
  show ?thesis
  proof (cases x)
    case (Inl e)
    then have "s' = s1" using assms o by (simp add: panel_tick_def bindA_def)
    then show ?thesis using m1 by (auto intro: mid_tick_reports simp: mid_tick_def)
  next
    case x: (Inr cur)
    define p where "p = panel_prev (loc s1)"
    have p: "p = panel_prev (loc s)" using m1 by (simp add: p_def mid_tick_def)
    obtain s2 where h: "whenA (classify_transition p cur = DETACH) (safe_on_detach E C) s1 = (Inr (), s2)"
      using safe_on_detach_returns [of E C s1]
      by (cases "classify_transition p cur = DETACH") (auto simp: whenA_def ret_def)
    have m2: "mid_tick s1 s2"
      using steps_in_run [OF mid.whenever [OF hooking_safe_on_detach [THEN only_mid]] h] .
    have rep: "reported_in C s s2"
      if "path_given (creds_flag C)" "classify_transition (panel_prev (loc s)) cur = DETACH"
    proof -
      have "safe_on_detach E C s1 = (Inr (), s2)" using h that(2) p by (simp add: whenA_def)
      then have "reported_in C s1 s2"
        using safe_on_detach_writes [OF that(1), of E s1] by (simp add: reported_in_def)
      then show ?thesis by (rule reported_in_extend [OF m1 _ mid.refl])
    qed
    obtain y s3 where a: "panel_act E C cur s2 = (y, s3)" by fastforce
    have m3: "mid_tick s2 s3" using steps_in_run [OF mid_panel_act a] .
    have m: "mid_tick s s3" using m1 m2 m3 by (blast intro: mid.trans)
    have run: "panel_tick E C s =
        (if y = Inr CONTINUE then (Inr CONTINUE, s3\<lparr>loc := (loc s3)\<lparr>panel_prev := cur\<rparr>\<rparr>) else (y, s3))"
      using o x h a
      by (cases y) (auto simp: panel_tick_def bindA_def thenA_def gets_def p_def ret_def set_loc_def change_def)
    show ?thesis
    proof (cases "y = Inr CONTINUE")
      case False
      then have "s' = s3" using assms run by simp
      then show ?thesis using m by (auto intro: mid_tick_reports simp: mid_tick_def)
    next
      case True
      then have s': "s' = s3\<lparr>loc := (loc s3)\<lparr>panel_prev := cur\<rparr>\<rparr>" using assms run by simp
      have "reported_in C s s'"
        if "path_given (creds_flag C)" "classify_transition (panel_prev (loc s)) cur = DETACH"
        using reported_in_mid [OF rep [OF that] m3] by (simp add: reported_in_def s')
      then show ?thesis using m by (auto simp: tick_reports_def s' mid_tick_def)
    qed
  qed
qed

text \<open>The rest of an iteration: the handler, the sleep, and the entry of the panel loop.\<close>

lemma tick_reports_grow:
  assumes "tick_reports C f s s'" "trace s'' = trace s' @ es" "f s'' = f s'"
  shows "tick_reports C f s s''"
proof -
  have "reported_in C s s'" if "tick_reports C f s s'" "path_given (creds_flag C)" "f s'' \<noteq> f s"
      "classify_transition (f s) (f s'') = DETACH"
    using that assms(3) by (simp add: tick_reports_def)
  then show ?thesis using assms unfolding tick_reports_def reported_in_def by fastforce
qed

lemma sleep_grows: "\<exists>r e. sleep_for E d s = (r, s\<lparr>env := e, trace := trace s @ [(Sleep d, \<not> isl r)]\<rparr>)"
  by (auto simp: sleep_for_def ask_def split: prod.split)

lemma tick_reports_sleep:
  assumes "tick_reports C (\<lambda>s. f (loc s)) s s'" "sleep_for E d s' = (r, s'')"
  shows "tick_reports C (\<lambda>s. f (loc s)) s s''"
  using sleep_grows [of E d s'] assms(2) by (auto intro: tick_reports_grow [OF assms(1)])

lemma catch_all_run: "catch (\<lambda>_. True) m (\<lambda>_. ret x) s = (case m s of (Inl e, s') \<Rightarrow> (Inr x, s') | (Inr y, s') \<Rightarrow> (Inr y, s'))"
  by (simp add: catch_def ret_def split: prod.split sum.split)

definition prev_kept :: "'w sup \<Rightarrow> 'w sup \<Rightarrow> bool" where
  "prev_kept s s' \<longleftrightarrow> prev (loc s') = prev (loc s) \<and> (\<exists>es. trace s' = trace s @ es)"

interpretation kept: step_order prev_kept
  by unfold_locales (auto simp: prev_kept_def)

lemma kept_set_loc: "(\<And>l. prev (f l) = prev l) \<Longrightarrow> steps_in prev_kept (set_loc f)"
  by (simp add: steps_in_def prev_kept_def set_loc_def change_def)

lemma only_kept: "steps_in (only P) m \<Longrightarrow> steps_in prev_kept m"
  unfolding steps_in_def by (fastforce simp: only_def prev_kept_def)

lemma panel_startup_keeps: "steps_in prev_kept (panel_startup E C)"
  unfolding panel_startup_def by (intro kept.laws kept_set_loc quiet_snapshot [THEN only_kept]) simp_all

lemma cli_iter_reports: "tick_reports C (\<lambda>s. prev (loc s)) s (snd (cli_iter E C s))"
proof -
  obtain r s1 where t: "cli_tick E C s = (r, s1)" by fastforce
  have t1: "tick_reports C (\<lambda>s. prev (loc s)) s s1" by (rule cli_tick_reports [OF t])
  obtain r2 s2 where sl: "sleep_for E (poll_interval C) s1 = (r2, s2)" by fastforce
  have t2: "tick_reports C (\<lambda>s. prev (loc s)) s s2" by (rule tick_reports_sleep [OF t1 sl])
  have t3: "tick_reports C (\<lambda>s. prev (loc s)) s (snd (panel_startup E C s1))"
    using steps_inD [OF panel_startup_keeps, of s1 E C] by (auto simp: prev_kept_def intro: tick_reports_grow [OF t1])
  show ?thesis
    unfolding cli_iter_def catch_all_run t
    by (cases r) (auto simp: sl t1 t2 t3 split: tick_result.split sum.split)
qed

lemma panel_iter_reports: "tick_reports C (\<lambda>s. panel_prev (loc s)) s (snd (panel_iter E C m s))"
proof -
  obtain r s1 where t: "panel_tick E C s = (r, s1)" by fastforce
  have t1: "tick_reports C (\<lambda>s. panel_prev (loc s)) s s1" by (rule panel_tick_reports [OF t])
  obtain r2 s2 where sl: "sleep_for E (poll_interval C) s1 = (r2, s2)" by fastforce
  have t2: "tick_reports C (\<lambda>s. panel_prev (loc s)) s s2" by (rule tick_reports_sleep [OF t1 sl])
  obtain r3 s3 where sl': "sleep_for E (poll_interval C) s2 = (r3, s3)" by fastforce
  have t3: "tick_reports C (\<lambda>s. panel_prev (loc s)) s s3" by (rule tick_reports_sleep [OF t2 sl'])
  show ?thesis
    unfolding panel_iter_def catch_all_run t
    by (cases r) (auto simp: sl sl' t1 t2 t3 split: tick_result.split sum.split)
qed

lemma tick_reports_loop:
  "tick_reports C f s s' \<Longrightarrow> \<exists>es. trace s' = trace s @ es"
  "tick_reports C f s s' \<Longrightarrow> path_given (creds_flag C) \<Longrightarrow>
   classify_transition (f s) (f s') = DETACH \<Longrightarrow> \<exists>es. trace s' = trace s @ es \<and> list_ex (flag_hook C) es"
  by (auto simp: tick_reports_def reported_in_def classify_detach_iff)

interpretation cli_watch: watch_loop "\<lambda>s. snd (cli_iter E C s)" "\<lambda>s. prev (loc s)" trace "flag_hook C"
    "path_given (creds_flag C)" for E :: "'w seams" and C
  by unfold_locales (use cli_iter_reports tick_reports_loop in blast)+

interpretation panel_watch: watch_loop "\<lambda>s. snd (panel_iter E C m s)" "\<lambda>s. panel_prev (loc s)" trace
    "flag_hook C" "path_given (creds_flag C)" for E :: "'w seams" and C m
  by unfold_locales (use panel_iter_reports tick_reports_loop in blast)+

abbreviation cli_run :: "'w seams \<Rightarrow> config \<Rightarrow> nat \<Rightarrow> 'w sup \<Rightarrow> 'w sup" where
  "cli_run E C n \<equiv> (\<lambda>s. snd (cli_iter E C s)) ^^ n"

abbreviation panel_run :: "'w seams \<Rightarrow> config \<Rightarrow> mode \<Rightarrow> nat \<Rightarrow> 'w sup \<Rightarrow> 'w sup" where
  "panel_run E C m n \<equiv> (\<lambda>s. snd (panel_iter E C m s)) ^^ n"

text \<open>
  C3. No detach is missed: when the supervise loop, or the panel loop, remembered a surface
  as attached and some number of iterations later remembers it as gone, the credential flag
  has been written in between, whatever failed in the iterations on the way.
\<close>

theorem no_detach_missed:
  assumes "creds_flag C = Some flag" "flag \<noteq> []"
    and "surface = vscode_server \<or> surface = tmux_terminal"
  shows
    "(surface (prev (loc s)) \<and> \<not> surface (prev (loc (cli_run E C n s))) \<longrightarrow>
       (\<exists>es ok. trace (cli_run E C n s) = trace s @ es \<and> (Write_flag flag, ok) \<in> set es)) \<and>
     (surface (panel_prev (loc s)) \<and> \<not> surface (panel_prev (loc (panel_run E C m n s))) \<longrightarrow>
       (\<exists>es ok. trace (panel_run E C m n s) = trace s @ es \<and> (Write_flag flag, ok) \<in> set es))"
proof -
  have armed: "path_given (creds_flag C)" using assms(1,2) by (simp add: path_given_def)
  have hook: "list_ex (flag_hook C) es \<longleftrightarrow> (\<exists>ok. (Write_flag flag, ok) \<in> set es)" for es
    by (auto simp: list_ex_iff flag_hook_def assms(1)) (metis fst_conv)
  show ?thesis
    using cli_watch.lost_surface_reported [of C surface s n E, OF armed assms(3)]
      panel_watch.lost_surface_reported [of C surface s n E m, OF armed assms(3)]
    unfolding hook by blast
qed

lemma lab_cli_tick:
  "\<exists>s'. cli_tick lab lab_config s = (Inr CONTINUE, s') \<and> loc s' = (loc s)\<lparr>prev := detached\<rparr>"
proof -
  have reap: "ask Reap (reap_of lab) s = (Inr (), s\<lparr>trace := trace s @ [(Reap, True)]\<rparr>)" for s
    by (simp add: ask_def lab_def)
  have tick: "directive_tick lab lab_config s = (Inr (), s\<lparr>ticks := ticks s + 1\<rparr>)" for s
    by (simp add: directive_tick_def lab_config_def run_simps)
  have none: "cli_newcomers lab lab_config = ret False"
    by (simp add: cli_newcomers_def path_given_def lab_config_def)
  obtain s1 where 1: "cli_observe lab lab_config s =
      (Inr (Some (detached, decide (prev (loc s)) detached True None)), s1)" "loc s1 = loc s"
    by (simp add: cli_observe_def none bindA_def thenA_def reap tick lab_snapshot lab_alive gets_def ret_def)
  obtain s2 where 2: "cli_act lab lab_config detached (decide (prev (loc s)) detached True None) s1 =
      (Inr CONTINUE, s2)" "loc s2 = loc s1"
    using safe_on_detach_returns [of lab lab_config s1]
      steps_inD [OF hooking_safe_on_detach, of s1 lab lab_config]
    by (cases "classify_transition (prev (loc s)) detached = DETACH")
       (auto simp: cli_act_def decide_def thenA_def bindA_def whenA_def ret_def only_def)
  from 1 2 show ?thesis
    by (simp add: cli_tick_def bindA_def thenA_def set_loc_def change_def ret_def)
qed

lemma lab_cli_iter: "loc (snd (cli_iter lab lab_config s)) = (loc s)\<lparr>prev := detached\<rparr>"
proof -
  obtain s' where t: "cli_tick lab lab_config s = (Inr CONTINUE, s')"
      "loc s' = (loc s)\<lparr>prev := detached\<rparr>"
    using lab_cli_tick by blast
  then show ?thesis
    by (simp add: cli_iter_def catch_all_run sleep_for_def ask_def) (simp add: lab_def)
qed

lemma no_detach_missed_witness:
  "let s = (init_sup ()\<lparr>loc := fresh_locals\<lparr>prev := \<lparr>vscode_server = True, tmux_terminal = False\<rparr>\<rparr>\<rparr> :: unit sup)
   in \<exists>ok. (Write_flag (u ''/flag''), ok) \<in> set (trace (snd (cli_iter lab lab_config s)))"
proof -
  define s where "s = (init_sup ()\<lparr>loc := fresh_locals\<lparr>prev :=
      \<lparr>vscode_server = True, tmux_terminal = False\<rparr>\<rparr>\<rparr> :: unit sup)"
  have "creds_flag lab_config = Some (u ''/flag'')" "u ''/flag'' \<noteq> []"
    by (simp_all add: lab_config_def u_def)
  from no_detach_missed [OF this, where surface = vscode_server and s = s and E = lab and n = 1] lab_cli_iter [of s]
  have "\<exists>es ok. trace (snd (cli_iter lab lab_config s)) = trace s @ es \<and> (Write_flag (u ''/flag''), ok) \<in> set es"
    by (simp add: s_def init_sup_def detached_def)
  then show ?thesis by (auto simp: Let_def s_def init_sup_def)
qed

section \<open>Restarts are bounded\<close>

definition starts :: "'w sup \<Rightarrow> nat" where
  "starts s = length (filter (\<lambda>e. starts_session (fst e)) (trace s))"

lemma quiet_starts: "quiet m \<Longrightarrow> m s = (r, s') \<Longrightarrow> starts s' = starts s"
  by (drule (1) steps_in_run) (auto simp: only_def starts_def ordinary_def filter_empty_conv)

lemma session_arms_head:
  "session_arms E C s = (Inr arms, s') \<Longrightarrow>
   \<exists>rest. arms = (u ''set-option'', u ''remain-on-exit'', u ''on'') # rest"
  by (auto simp: session_arms_def bindA_def ret_def split: prod.splits sum.splits)

lemma run_tmux_starts:
  "run_tmux E args s = (r, s') \<Longrightarrow>
   starts s' = starts s + (if starts_session (Tmux args) then 1 else 0)"
  by (auto simp: run_tmux_def tmux_call_def run_simps ask_def starts_def
      split: prod.splits sum.splits if_splits)

lemma armed_argv_starts:
  "starts_session (Tmux (armed_argv C ((u ''set-option'', name, v) # rest) argv))"
  by (simp add: armed_argv_def)

lemma new_session_starts: "starts_session (Tmux (new_session_argv C argv))"
  by (simp add: new_session_argv_def)

lemma quiet_arms_loop:
  "quiet (forA (\<lambda>(command, name, v). thenA (run_tmux E [command, u ''-t'', n, name, v]) (ret ())) arms)"
    if "\<And>c nm v. (c, nm, v) \<in> set arms \<Longrightarrow> c \<noteq> u ''new-session''"
  unfolding case_prod_beta
proof (intro only.loop only.seq only.ret run_tmux_only)
  show "ordinary (Tmux [fst x, u ''-t'', n, fst (snd x), snd (snd x)])" if "x \<in> set arms" for x
    using \<open>\<And>c nm v. (c, nm, v) \<in> set arms \<Longrightarrow> c \<noteq> u ''new-session''\<close> [of "fst x" "fst (snd x)" "snd (snd x)"] that
    by (simp add: u_def)
qed

lemma session_arms_commands:
  "session_arms E C s = (Inr arms, s') \<Longrightarrow> (c, nm, v) \<in> set arms \<Longrightarrow> c \<noteq> u ''new-session''"
  by (auto simp: session_arms_def bindA_def ret_def u_def split: prod.splits sum.splits option.splits)

lemma arm_and_start_counts:
  assumes "arm_and_start_session E C argv s = (r, s')"
  shows "starts s' \<le> starts s + 1 \<and> (\<not> isl r \<longrightarrow> starts s' = starts s + 1)"
proof (cases "u '';'' \<in> set argv")
  case False
  obtain x s1 where a: "session_arms E C s = (x, s1)" by fastforce
  have s1: "starts s1 = starts s" by (rule quiet_starts [OF starting_session_arms a])
  show ?thesis
  proof (cases x)
    case (Inl e)
    then have "r = Inl e" "s' = s1"
      using assms a False by (auto simp: arm_and_start_session_def start_session_argv_def bindA_def)
    then show ?thesis using s1 by simp
  next
    case (Inr arms)
    then have "run_tmux E (armed_argv C arms argv) s1 = (r, s')"
      using assms a False
      by (simp add: arm_and_start_session_def start_session_argv_def bindA_def ret_def)
    then show ?thesis
      using run_tmux_starts s1 session_arms_head a Inr armed_argv_starts by fastforce
  qed
next
  case True
  obtain x s1 where a: "run_tmux E (new_session_argv C argv) s = (x, s1)" by fastforce
  have s1: "starts s1 = starts s + 1"
    using run_tmux_starts [OF a] by (simp only: new_session_starts if_True)
  show ?thesis
  proof (cases "x = Inr (Some 0)")
    case False
    then have "s' = s1"
      using assms a True by (cases x) (auto simp: arm_and_start_session_def bindA_def ret_def)
    then show ?thesis using s1 by simp
  next
    case x: True
    obtain y s2 where b: "session_arms E C s1 = (y, s2)" by fastforce
    have s2: "starts s2 = starts s1" by (rule quiet_starts [OF starting_session_arms b])
    show ?thesis
    proof (cases y)
      case (Inl e)
      then have "s' = s2"
        using assms a b x True by (auto simp: arm_and_start_session_def bindA_def)
      then show ?thesis using s1 s2 by simp
    next
      case (Inr arms)
      define loop where "loop = (forA (\<lambda>(command, name, v).
          thenA (run_tmux E [command, u ''-t'', session C, name, v]) (ret ())) arms :: ('a sup, unit) act)"
      obtain z s3 where l: "loop s2 = (z, s3)" by fastforce
      have "quiet loop" unfolding loop_def
        by (rule quiet_arms_loop) (use session_arms_commands b Inr in blast)
      then have "starts s3 = starts s2" using l by (rule quiet_starts)
      moreover have "s' = s3"
        using assms a b x True Inr l
        by (cases z) (auto simp: arm_and_start_session_def bindA_def thenA_def ret_def loop_def)
      ultimately show ?thesis using s1 s2 by simp
    qed
  qed
qed

lemma restart_counts:
  assumes "restart_agent_session E C s = (r, s')"
  shows "starts s' \<le> starts s + 1 \<and> (\<not> isl r \<longrightarrow> starts s' = starts s + 1)"
proof -
  obtain x s1 where a: "kill_agent_session E C s = (x, s1)" by fastforce
  have s1: "starts s1 = starts s" by (rule quiet_starts [OF quiet_kill_agent_session a])
  show ?thesis
  proof (cases x)
    case (Inl e)
    then show ?thesis using assms a s1 by (auto simp: restart_agent_session_def thenA_def bindA_def)
  next
    case Inr: (Inr v)
    obtain y s2 where b: "arm_and_start_session E C (continue_argv C) s1 = (y, s2)" by fastforce
    note s2 = arm_and_start_counts [OF b]
    obtain z s3 where c: "send_keys_text E C (marker C) s2 = (z, s3)" by fastforce
    have s3: "starts s3 = starts s2" by (rule quiet_starts [OF quiet_send_keys_text c])
    show ?thesis
      using assms a Inr b c s1 s2 s3
      by (auto simp: restart_agent_session_def thenA_def bindA_def ret_def
          split: sum.splits if_splits)
  qed
qed

lemma heal_counts:
  "heal_attempts E C ks s = (r, s') \<Longrightarrow>
   starts s' \<le> starts s + length ks \<and> (r = Inr False \<longrightarrow> starts s' = starts s + length ks) \<and>
   (r = Inr True \<longrightarrow> starts s < starts s')"
proof (induction ks arbitrary: s)
  case (Cons k ks)
  obtain x s1 where a: "restart_agent_session E C s = (x, s1)" by fastforce
  note s1 = restart_counts [OF a]
  obtain y s2 where b: "agent_session_alive E C s1 = (y, s2)" by fastforce
  have s2: "starts s2 = starts s1" by (rule quiet_starts [OF quiet_agent_session_alive b])
  define w where "w = (whenA (k < max_restart_retries C)
      (sleep_for E (backoff_base C * 2 ^ nat (k - 1))) :: ('a sup, unit) act)"
  obtain z s3 where c: "w s2 = (z, s3)" by fastforce
  have "quiet w" unfolding w_def by (intro only.whenever quiet_sleep)
  then have s3: "starts s3 = starts s2" using c by (rule quiet_starts)
  show ?case
    using Cons.prems Cons.IH [of s3] a b c s1 s2 s3
    by (auto simp: thenA_def bindA_def ret_def w_def [symmetric] split: sum.splits if_splits)
qed (auto simp: ret_def)

text \<open>
  C6. Self-heal ends after at most the configured number of restarts, none when that is zero
  or negative: it starts a session at most that often, gives up only after exactly that many
  starts, and reports a live agent only after at least one.
\<close>

theorem self_heal_bounded:
  assumes "self_heal E C s = (r, s')"
  shows "starts s' \<le> starts s + nat (max_restart_retries C) \<and>
    (r = Inr False \<longrightarrow> starts s' = starts s + nat (max_restart_retries C)) \<and>
    (r = Inr True \<longrightarrow> starts s < starts s')"
  using heal_counts assms unfolding self_heal_def by (metis length_upto diff_add_cancel)

lemma self_heal_bounded_witness:
  "\<exists>r s'. self_heal lab lab_config (init_sup ()) = (r, s') \<and> starts s' \<le> 3"
proof -
  obtain r s' where "self_heal lab lab_config (init_sup ()) = (r, s')" by fastforce
  with self_heal_bounded [OF this] show ?thesis
    by (auto simp: starts_def init_sup_def lab_config_def)
qed

section \<open>A hand-edited instruction file is left alone\<close>

fun reading :: "call \<Rightarrow> bool" where
  "reading (Read_manifest _) \<longleftrightarrow> True"
| "reading (Sha256 _) \<longleftrightarrow> True"
| "reading _ \<longleftrightarrow> False"

definition reads :: "'w sup \<Rightarrow> 'w sup \<Rightarrow> bool" where
  "reads s s' \<longleftrightarrow> hand_edit_logged s' = hand_edit_logged s \<and>
     (\<exists>es. trace s' = trace s @ es \<and> list_all (\<lambda>e. reading (fst e)) es)"

interpretation reads: step_order reads
  by unfold_locales (auto simp: reads_def)

lemma reads_ask: "reading c \<Longrightarrow> steps_in reads (ask c f)"
  by (simp add: steps_in_def reads_def ask_def split: prod.split)

lemma reads_manifest: "steps_in reads (read_directive_manifest E p)"
  unfolding read_directive_manifest_def by (intro reads.laws reads_ask) simp

lemma reads_probe: "steps_in reads (probe_directives E m dest)"
  unfolding probe_directives_def sha256_of_def by (intro reads.laws reads_ask) simp

lemma reflatten_runs:
  "\<exists>s' ok. trace (snd (reflatten_directives E w s)) = trace s @ [(Run (flatten_argv E w), ok)]
     \<and> hand_edit_logged (snd (reflatten_directives E w s)) = hand_edit_logged s"
  by (auto simp: reflatten_directives_def run_simps ask_def split: prod.split sum.split)

text \<open>
  C7. A completed freshness check runs the flattener exactly when it found the slot stale, and
  runs nothing else; a hand-edited slot is left alone, and said so once until the slot is
  found otherwise.
\<close>

theorem reflatten_only_when_stale:
  assumes "directives C = Some w" "check_directives E C s = (Inr (Some v), s')"
  shows "\<exists>es. trace s' = trace s @ es \<and>
    (v = STALE \<longleftrightarrow> (\<exists>ok. (Run (flatten_argv E w), ok) \<in> set es)) \<and>
    list_all (\<lambda>(c, _). reading c \<or> c = Log_hand_edit \<or> c = Run (flatten_argv E w)) es \<and>
    ((Log_hand_edit, True) \<in> set es \<longleftrightarrow> v = HAND_EDITED \<and> \<not> hand_edit_logged s) \<and>
    hand_edit_logged s' = (v = HAND_EDITED)"
proof -
  obtain x s1 where m: "read_directive_manifest E (watch_manifest w) s = (x, s1)" by fastforce
  with assms obtain manifest where x: "x = Inr manifest"
    by (cases x) (auto simp: check_directives_def bindA_def)
  obtain y s2 where p: "probe_directives E manifest (watch_dest w) s1 = (y, s2)" by fastforce
  with assms m x obtain probe where y: "y = Inr probe"
    by (cases y) (auto simp: check_directives_def bindA_def)
  have "reads s s2"
    using steps_in_run [OF reads_manifest m] steps_in_run [OF reads_probe p] by (rule reads.trans)
  then obtain es where es: "trace s2 = trace s @ es" "list_all (\<lambda>e. reading (fst e)) es"
    and logged: "hand_edit_logged s2 = hand_edit_logged s" by (auto simp: reads_def)
  then have none: "(Run argv, ok) \<notin> set es" "(Log_hand_edit, ok) \<notin> set es" for argv ok
    by (auto simp: list_all_iff)
  define d where "d = decide_directives manifest (watch_seed w) (watch_dest w) probe"
  consider (hand) "d = HAND_EDITED" | (stale) "d = STALE" | (fresh) "d = FRESH" by (cases d)
  then show ?thesis
  proof cases
    case hand
    then have "v = HAND_EDITED" "hand_edit_logged s'"
        "trace s' = trace s @ es @ (if hand_edit_logged s then [] else [(Log_hand_edit, True)])"
      using assms m x p y es(1) logged
      by (auto simp: check_directives_def bindA_def thenA_def gets_def whenA_def ret_def log_call_def
          change_def d_def [symmetric] Let_def split: if_splits)
    then show ?thesis using none es(2) by (auto simp: list_all_iff)
  next
    case stale
    define s3 where "s3 = s2\<lparr>hand_edit_logged := False\<rparr>"
    obtain z s4 where f: "reflatten_directives E w s3 = (z, s4)" by fastforce
    then obtain ok where s4: "trace s4 = trace s3 @ [(Run (flatten_argv E w), ok)]"
        "hand_edit_logged s4 = hand_edit_logged s3"
      using reflatten_runs [of E w s3] by auto
    have "v = STALE" "s' = s4"
      using assms m x p y f stale
      by (auto simp: check_directives_def bindA_def thenA_def ret_def change_def d_def [symmetric]
          s3_def Let_def split: sum.splits)
    then show ?thesis using none es s4 by (auto simp: list_all_iff s3_def)
  next
    case fresh
    then have "v = FRESH" "s' = s2\<lparr>hand_edit_logged := False\<rparr>"
      using assms m x p y
      by (auto simp: check_directives_def bindA_def thenA_def ret_def change_def d_def [symmetric] Let_def)
    then show ?thesis using none es by (auto simp: list_all_iff)
  qed
qed

definition lab_watch :: directive_watch where
  "lab_watch = \<lparr>watch_seed = u ''/seed'', watch_dest = u ''/dest'', watch_manifest = u ''/receipt'',
     watch_flattener = u ''/flatten'', watch_interval = 5\<rparr>"

lemma reflatten_only_when_stale_witness:
  "\<exists>s'. check_directives lab (lab_config\<lparr>directives := Some lab_watch\<rparr>) (init_sup ()) = (Inr (Some STALE), s')
     \<and> (\<exists>ok. (Run (flatten_argv lab lab_watch), ok) \<in> set (trace s'))"
proof -
  have m: "read_directive_manifest lab p s = (Inr JNull, s\<lparr>trace := trace s @ [(Read_manifest p, False)]\<rparr>)"
    for p s by (simp add: read_directive_manifest_def run_simps ask_def) (simp add: lab_def os_error_def)
  have f: "reflatten_directives lab lab_watch s =
      (Inr False, s\<lparr>trace := trace s @ [(Run (flatten_argv lab lab_watch), False)]\<rparr>)" for s
    by (simp add: reflatten_directives_def run_simps ask_def)
       (simp add: lab_def lab_watch_def flatten_argv_def os_error_def u_def)
  have h: "sha256_of lab p s = (Inr None, s\<lparr>trace := trace s @ [(Sha256 p, False)]\<rparr>)" for p s
    by (simp add: sha256_of_def run_simps ask_def) (simp add: lab_def os_error_def)
  have "\<exists>s'. check_directives lab (lab_config\<lparr>directives := Some lab_watch\<rparr>) (init_sup ()) =
      (Inr (Some STALE), s')"
    by (simp add: check_directives_def bindA_def m probe_directives_def manifest_paths_def h ret_def
        decide_directives_def thenA_def change_def f)
  then obtain s' where
    c: "check_directives lab (lab_config\<lparr>directives := Some lab_watch\<rparr>) (init_sup ()) = (Inr (Some STALE), s')"
    by blast
  from reflatten_only_when_stale [OF _ c, of lab_watch] have
    "\<exists>es ok. trace s' = trace (init_sup ()) @ es \<and> (Run (flatten_argv lab lab_watch), ok) \<in> set es"
    by auto
  with c show ?thesis by (auto simp: init_sup_def)
qed

section \<open>Why the supervise loop ends\<close>

lemma box_code_value:
  assumes "box_code E C s = (Inr c, s')"
  shows "if ended (loc s) then c = 0
    else c \<noteq> 0 \<or> (\<exists>s1 s2. agent_pane_exit_code E C s1 = (Inr (Some 0), s2) \<or>
                             recorded_agent_exit E s1 = (Inr (Some 0), s2))"
  using assms
  by (auto simp: box_code_def bindA_def gets_def ret_def UNDETERMINED_AGENT_EXIT_def
      split: prod.splits sum.splits if_splits option.splits)

lemma close_box_value:
  assumes "close_box E C s = (Inr c, s')"
  shows "if ended (loc s) then c = 0
    else c \<noteq> 0 \<or> (\<exists>s1 s2. agent_pane_exit_code E C s1 = (Inr (Some 0), s2) \<or>
                             recorded_agent_exit E s1 = (Inr (Some 0), s2))"
proof -
  obtain x s1 where 1: "capture_agent_output E C s = (x, s1)" by fastforce
  with assms obtain live where x: "x = Inr live" by (cases x) (auto simp: close_box_def bindA_def)
  obtain y s2 where 2: "(if live = None then recorded_agent_output E else ret live) s1 = (y, s2)"
    by fastforce
  with assms 1 x obtain captured where y: "y = Inr captured"
    by (cases y) (auto simp: close_box_def bindA_def)
  obtain z s3 where 3: "box_code E C s2 = (z, s3)" by fastforce
  with assms 1 2 x y have "z = Inr c"
    by (cases z) (auto simp: close_box_def bindA_def thenA_def ret_def split: prod.splits sum.splits)
  moreover have q: "quiet (if live = None then recorded_agent_output E else ret live)"
    by (intro quiet_laws quiet_recorded_agent_output)
  have "only ordinary s1 s2" by (rule steps_in_run [OF q]) (rule 2)
  then have "loc s2 = loc s"
    using steps_in_run [OF quiet_capture_agent_output 1] by (simp add: only_def)
  ultimately show ?thesis using box_code_value [of E C s2 c s3] 3 by simp
qed

lemma close_box_loc: "close_box E C s = (r, s') \<Longrightarrow> loc s' = loc s"
  by (drule steps_in_run [OF quiet_close_box]) (simp add: only_def)

lemma close_box_from:
  "close_box E C s = (r, s') \<Longrightarrow> \<exists>s1. close_box E C s1 = (r, s') \<and> loc s1 = loc s'"
  by (metis close_box_loc)

lemma self_heal_loc: "self_heal E C s = (r, s') \<Longrightarrow> loc s' = loc s"
  by (drule steps_in_run [OF starting_self_heal]) (simp add: only_def)

text \<open>The part of a tick after the detach hook and the latch.\<close>

lemma cli_act_return:
  assumes "cli_act E C cur action s = (Inr (RETURN c), s')"
  shows "kind action \<noteq> NO_ACTION \<and>
    (if on_agent_exit C = Teardown_policy \<or> ended (loc s')
     then \<not> vscode_server cur \<and> (\<exists>s1. close_box E C s1 = (Inr c, s') \<and> loc s1 = loc s')
     else c = 0 \<and> (\<exists>s1. self_heal E C s1 = (Inr False, s')))"
  using assms
  by (auto simp: cli_act_def thenA_def bindA_def whenA_def gets_def ret_def other_surface_attached_def
      split: prod.splits sum.splits if_splits
      intro: close_box_from dest: self_heal_loc close_box_loc)


text \<open>A box whose agent's session is gone and whose policy is to close with it.\<close>

definition gone :: "unit seams" where
  "gone = lab\<lparr>run_of := (\<lambda>_ w. (Inl OSError, w))\<rparr>"

lemma gone_tmux:
  "tmux_call gone args s = (Inr None, s\<lparr>trace := trace s @ [(Tmux args, False)]\<rparr>)"
  by (simp add: gone_def tmux_call_def ask_def run_simps os_error_def)

lemma gone_tick:
  "\<exists>s'. cli_tick gone (lab_config\<lparr>on_agent_exit := Teardown_policy\<rparr>) (init_sup ()) = (Inr (RETURN 70), s')"
proof -
  let ?C = "lab_config\<lparr>on_agent_exit := Teardown_policy\<rparr>"
  have asks: "ask Reap (reap_of gone) s = (Inr (), s\<lparr>trace := trace s @ [(Reap, True)]\<rparr>)"
    "ask Proc_cmdlines (cmdlines_of gone) s = (Inr [], s\<lparr>trace := trace s @ [(Proc_cmdlines, True)]\<rparr>)" for s
    by (simp_all add: ask_def gone_def lab_def)
  have tick: "directive_tick gone ?C s = (Inr (), s\<lparr>ticks := ticks s + 1\<rparr>)" for s
    by (simp add: directive_tick_def lab_config_def run_simps)
  have none: "cli_newcomers gone ?C = ret False"
    by (simp add: cli_newcomers_def path_given_def lab_config_def)
  have probe: "tmux_output gone args s = (Inr None, s\<lparr>trace := trace s @ [(Tmux args, False)]\<rparr>)"
    "run_tmux gone args s = (Inr None, s\<lparr>trace := trace s @ [(Tmux args, False)]\<rparr>)" for args s
    by (simp_all add: tmux_output_def run_tmux_def bindA_def gone_tmux ret_def)
  have snap: "\<exists>s'. snapshot gone ?C s = (Inr detached, s') \<and> loc s' = loc s \<and> exit_record s' = exit_record s" for s
    by (simp add: snapshot_def bindA_def asks probe ret_def detached_def vscode_server_present_def
        tmux_terminal_attached_def strip_def rstrip_by_def)
  have alive: "agent_session_alive gone ?C s = (Inr False, s\<lparr>trace := trace s @ [(Tmux (has_session_argv ?C), False)]\<rparr>)" for s
    by (simp add: agent_session_alive_def bindA_def probe ret_def)
  obtain s1 where 1: "cli_observe gone ?C (init_sup ()) =
      (Inr (Some (detached, decide detached detached False None)), s1)" "loc s1 = fresh_locals" "exit_record s1 = None"
    using snap [of "init_sup ()\<lparr>trace := [(Reap, True)], ticks := 1\<rparr>"]
    by (auto simp: cli_observe_def none bindA_def thenA_def asks tick alive gets_def ret_def init_sup_def
        fresh_locals_def)
  have "\<exists>s'. close_box gone ?C s1 = (Inr 70, s')"
    using 1(2,3)
    by (simp add: close_box_def box_code_def capture_agent_output_def recorded_agent_output_def
        agent_pane_exit_code_def recorded_agent_exit_def bindA_def thenA_def probe ret_def gets_def whenA_def
        trim_capture_def fresh_locals_def UNDETERMINED_AGENT_EXIT_def)
  then have "\<exists>s'. cli_act gone ?C detached (decide detached detached False None) s1 = (Inr (RETURN 70), s')"
    by (auto simp: cli_act_def decide_def classify_transition_def surfaces_def detached_def thenA_def
        whenA_def bindA_def ret_def gets_def other_surface_attached_def)
  with 1(1) show ?thesis by (auto simp: cli_tick_def bindA_def ret_def)
qed


end
