(* ===== verification/SupervisorTakeover.thy ===== *)
theory SupervisorTakeover imports SupervisorSafety begin

text \<open>
  The single-writer takeover (\<open>BoxSupervisor._takeover\<close>): the newcomers are stopped first, the
  incumbent is evicted only if one of them could be, and every stopped newcomer is continued
  last, whether the eviction went through, was called off or failed half way.
\<close>

section \<open>The phases of a takeover\<close>

text \<open>Operations that leave the list of stopped newcomers alone and make calls of one class.\<close>

definition phase :: "(call \<Rightarrow> bool) \<Rightarrow> 'w sup \<Rightarrow> 'w sup \<Rightarrow> bool" where
  "phase P s s' \<longleftrightarrow> paused s' = paused s \<and> (\<exists>es. trace s' = trace s @ es \<and> list_all (\<lambda>e. P (fst e)) es)"

interpretation phase: step_order "phase P" for P
proof
  show "phase P s s" for s :: "'w sup" by (simp add: phase_def)
  show "phase P s s''" if a: "phase P s s'" and b: "phase P s' s''" for s s' s'' :: "'w sup"
  proof -
    obtain es where "trace s' = trace s @ es" "list_all (\<lambda>e. P (fst e)) es" using a by (auto simp: phase_def)
    moreover obtain es' where "trace s'' = trace s' @ es'" "list_all (\<lambda>e. P (fst e)) es'"
      using b by (auto simp: phase_def)
    ultimately have "trace s'' = trace s @ es @ es'" "list_all (\<lambda>e. P (fst e)) (es @ es')" by auto
    then show ?thesis using a b unfolding phase_def by metis
  qed
qed

lemma phase_ask: "P c \<Longrightarrow> steps_in (phase P) (ask c f)"
  by (simp add: steps_in_def phase_def ask_def split: prod.split)

lemma phase_mono: "phase P s s' \<Longrightarrow> (\<And>c. P c \<Longrightarrow> Q c) \<Longrightarrow> phase Q s s'"
  unfolding phase_def by (blast intro: list.pred_mono_strong)

text \<open>The eviction: a group killed, or the session.\<close>

fun evicts :: "call \<Rightarrow> bool" where
  "evicts (Killpg _ _) \<longleftrightarrow> True"
| "evicts (Tmux (a # _)) \<longleftrightarrow> a = u ''kill-session''"
| "evicts _ \<longleftrightarrow> False"

fun signals :: "call \<Rightarrow> bool" where
  "signals (Kill _ _) \<longleftrightarrow> True"
| "signals _ \<longleftrightarrow> False"

lemma phase_run_tmux: "P (Tmux args) \<Longrightarrow> steps_in (phase P) (run_tmux E args)"
  unfolding run_tmux_def tmux_call_def by (intro phase.laws phase_ask)

lemma phase_tmux_output: "P (Tmux args) \<Longrightarrow> steps_in (phase P) (tmux_output E args)"
  unfolding tmux_output_def tmux_call_def by (intro phase.laws phase_ask)

text \<open>Warning the incumbent evicts nothing; evicting it signals no single process.\<close>

definition gentle :: "call \<Rightarrow> bool" where
  "gentle c \<longleftrightarrow> \<not> evicts c \<and> \<not> signals c"

lemma gentle_heads_up: "steps_in (phase gentle) (send_keys_text E C keys)"
proof -
  have g: "gentle (Tmux (send_keys_argv C keys))"
    by (simp add: gentle_def send_keys_argv_def u_def)
  have "steps_in (phase gentle) (send_attempts E C keys ks)" for ks
  proof (induction ks)
    case (Cons k ks)
    show ?case unfolding send_attempts.simps sleep_for_def
      by (intro phase.laws phase_run_tmux phase_ask g Cons.IH) (simp add: gentle_def)
  qed (simp add: phase.ret)
  then show ?thesis by (simp add: send_keys_text_def)
qed

lemma unsignalled_kill: "steps_in (phase (\<lambda>c. \<not> signals c)) (kill_agent_session E C)"
proof -
  have "steps_in (phase (\<lambda>c. \<not> signals c)) (kill_process_group E pid sg)" for pid sg
    unfolding kill_process_group_def by (intro phase.laws phase_ask) simp_all
  moreover have "steps_in (phase (\<lambda>c. \<not> signals c)) (own_agent_pids E C)"
    unfolding own_agent_pids_def by (intro phase.laws phase_tmux_output) simp
  ultimately show ?thesis
    unfolding kill_agent_session_def by (intro phase.laws phase_run_tmux) simp_all
qed

section \<open>Stopping and continuing\<close>

text \<open>A signal seam that raises nothing but an \<open>OSError\<close>, as \<open>os.kill\<close> does.\<close>

definition kill_raises_os_errors :: "'w seams \<Rightarrow> bool" where
  "kill_raises_os_errors E \<longleftrightarrow> (\<forall>p sg w e w'. kill_of E p sg w = (Inl e, w') \<longrightarrow> os_error e)"

lemma signal_pid_run:
  assumes "kill_raises_os_errors E"
  shows "\<exists>ok s'. signal_pid E p sg s = (Inr ok, s') \<and> trace s' = trace s @ [(Kill p sg, ok)] \<and>
    paused s' = paused s"
proof (cases "kill_of E p sg (env s)")
  case (Pair r w)
  then have "os_error e" if "r = Inl e" for e
    using assms that by (simp add: kill_raises_os_errors_def) blast
  then show ?thesis
    using Pair by (cases r) (auto simp: signal_pid_def run_simps ask_def)
qed

lemma pause_all:
  assumes "kill_raises_os_errors E"
  shows "\<exists>s' es. forA (pause_one E) ps s = (Inr (), s') \<and> trace s' = trace s @ es \<and>
    list_all (\<lambda>e. \<exists>p \<in> set ps. fst e = Kill p SIGSTOP) es \<and>
    (\<forall>p. p \<in> set (paused s') \<longleftrightarrow> p \<in> set (paused s) \<or> (Kill p SIGSTOP, True) \<in> set es)"
proof (induction ps arbitrary: s)
  case (Cons p ps)
  obtain ok s1 where 1: "signal_pid E p SIGSTOP s = (Inr ok, s1)"
      "trace s1 = trace s @ [(Kill p SIGSTOP, ok)]" "paused s1 = paused s"
    using signal_pid_run [OF assms] by blast
  define s2 where "s2 = (if ok then s1\<lparr>paused := paused s1 @ [p]\<rparr> else s1)"
  obtain s3 es where 3: "forA (pause_one E) ps s2 = (Inr (), s3)" "trace s3 = trace s2 @ es"
      "list_all (\<lambda>e. \<exists>p \<in> set ps. fst e = Kill p SIGSTOP) es"
      "\<forall>p. p \<in> set (paused s3) \<longleftrightarrow> p \<in> set (paused s2) \<or> (Kill p SIGSTOP, True) \<in> set es"
    using Cons.IH [of s2] by blast
  have run: "forA (pause_one E) (p # ps) s = (Inr (), s3)"
    using 1(1) 3(1) by (simp add: thenA_def bindA_def pause_one_def whenA_def change_def ret_def s2_def
        split: if_splits)
  have "trace s3 = trace s @ (Kill p SIGSTOP, ok) # es"
    using 1(2) 3(2) by (simp add: s2_def)
  moreover have "list_all (\<lambda>e. \<exists>q \<in> set (p # ps). fst e = Kill q SIGSTOP) ((Kill p SIGSTOP, ok) # es)"
    using 3(3) by (auto simp: list_all_iff)
  moreover have "\<forall>q. q \<in> set (paused s3) \<longleftrightarrow>
      q \<in> set (paused s) \<or> (Kill q SIGSTOP, True) \<in> set ((Kill p SIGSTOP, ok) # es)"
    using 3(4) 1(3) by (auto simp: s2_def)
  ultimately show ?case using run by blast
qed (auto simp: ret_def)

lemma resume_all:
  assumes "kill_raises_os_errors E"
  shows "\<exists>s' es. resume E ps s = (Inr (), s') \<and> trace s' = trace s @ es \<and>
    map fst es = map (\<lambda>p. Kill p SIGCONT) ps"
proof (induction ps arbitrary: s)
  case (Cons p ps)
  obtain ok s1 where 1: "signal_pid E p SIGCONT s = (Inr ok, s1)"
      "trace s1 = trace s @ [(Kill p SIGCONT, ok)]"
    using signal_pid_run [OF assms] by blast
  obtain s2 es where 2: "resume E ps s1 = (Inr (), s2)" "trace s2 = trace s1 @ es"
      "map fst es = map (\<lambda>p. Kill p SIGCONT) ps" using Cons.IH by blast
  have "resume E (p # ps) s = (Inr (), s2)"
    using 1(1) 2(1) by (simp add: resume_def thenA_def bindA_def ret_def)
  moreover have "trace s2 = trace s @ (Kill p SIGCONT, ok) # es" using 1(2) 2(2) by simp
  ultimately show ?case using 2(3) by (metis fst_conv list.simps(9))
qed (simp add: resume_def ret_def)

section \<open>The takeover\<close>

text \<open>What a takeover does to the box: it pauses, it works, it resumes.\<close>

definition pause_work_resume ::
  "int set \<Rightarrow> (call \<times> bool) list \<Rightarrow> (call \<times> bool) list \<Rightarrow> (call \<times> bool) list \<Rightarrow> bool" where
  "pause_work_resume newcomers pauses work resumes \<longleftrightarrow>
     list_all (\<lambda>e. \<exists>p \<in> newcomers. fst e = Kill p SIGSTOP) pauses \<and>
     list_all (\<lambda>e. \<not> signals (fst e)) work \<and>
     list_all (\<lambda>e. \<exists>p. fst e = Kill p SIGCONT) resumes \<and>
     (list_ex (\<lambda>e. evicts (fst e)) work \<longrightarrow> (\<exists>p. (Kill p SIGSTOP, True) \<in> set pauses)) \<and>
     (\<forall>p. (Kill p SIGSTOP, True) \<in> set pauses \<longrightarrow> (\<exists>ok. (Kill p SIGCONT, ok) \<in> set resumes))"

lemma pause_work_resumeI:
  assumes "list_all (\<lambda>e. \<exists>p \<in> newcomers. fst e = Kill p SIGSTOP) pauses"
    and "list_all (\<lambda>e. \<not> signals (fst e)) work"
    and "map fst resumes = map (\<lambda>p. Kill p SIGCONT) ps"
    and "\<And>p. (Kill p SIGSTOP, True) \<in> set pauses \<longleftrightarrow> p \<in> set ps"
    and "ps \<noteq> [] \<or> list_all (\<lambda>e. \<not> evicts (fst e)) work"
  shows "pause_work_resume newcomers pauses work resumes"
proof -
  have "list_all (\<lambda>e. \<exists>p. fst e = Kill p SIGCONT) resumes"
  proof (unfold list_all_iff, rule ballI)
    fix e assume "e \<in> set resumes"
    then have "fst e \<in> set (map (\<lambda>p. Kill p SIGCONT) ps)" by (metis assms(3) imageI set_map)
    then show "\<exists>p. fst e = Kill p SIGCONT" by auto
  qed
  moreover have "\<exists>ok. (Kill p SIGCONT, ok) \<in> set resumes" if "p \<in> set ps" for p
  proof -
    have "Kill p SIGCONT \<in> set (map fst resumes)" unfolding assms(3) using that by simp
    then show ?thesis by auto
  qed
  moreover have "\<exists>p. (Kill p SIGSTOP, True) \<in> set pauses" if "list_ex (\<lambda>e. evicts (fst e)) work"
    using assms(4,5) that by (cases ps) (auto simp: list_ex_iff list_all_iff)
  ultimately show ?thesis
    using assms(1,2,4) by (auto simp: pause_work_resume_def)
qed

lemma takeover_run:
  assumes os: "kill_raises_os_errors E" and run: "takeover E C newcomers s = (r, s')"
    and fin: "finite newcomers"
  shows "\<exists>pauses work resumes. trace s' = trace s @ pauses @ work @ resumes \<and>
    pause_work_resume newcomers pauses work resumes"
proof -
  define s0 where "s0 = s\<lparr>paused := []\<rparr>"
  obtain s1 es1 where 1: "forA (pause_one E) (sorted_list_of_set newcomers) s0 = (Inr (), s1)"
      "trace s1 = trace s0 @ es1"
      "list_all (\<lambda>e. \<exists>p \<in> newcomers. fst e = Kill p SIGSTOP) es1"
      "\<And>p. (Kill p SIGSTOP, True) \<in> set es1 \<longleftrightarrow> p \<in> set (paused s1)"
    using pause_all [OF os, of "sorted_list_of_set newcomers" s0] fin by (auto simp: s0_def)
  define w where "w = (thenA (send_keys_text E C TAKEOVER_HEADS_UP)
      (thenA (sleep_for E (takeover_grace C)) (ret True)) :: ('a sup, bool) act)"
  obtain r2 s2 where 2: "w s1 = (r2, s2)" by fastforce
  have "steps_in (phase gentle) w" unfolding w_def sleep_for_def
    by (intro phase.laws gentle_heads_up phase_ask) (simp add: gentle_def)
  from steps_in_run [OF this 2] obtain es2 where es2: "trace s2 = trace s1 @ es2"
    "list_all (\<lambda>e. gentle (fst e)) es2" and p2: "paused s2 = paused s1" by (auto simp: phase_def)
  then have quiet2: "list_all (\<lambda>e. \<not> signals (fst e)) es2" "list_all (\<lambda>e. \<not> evicts (fst e)) es2"
    by (auto simp: gentle_def list_all_iff)
  have pre: "pre_evict E C newcomers s =
      catch (\<lambda>_. True)
        (thenA (forA (pause_one E) (sorted_list_of_set newcomers))
           (bindA (gets paused) (\<lambda>ps. if ps = [] then ret False else w)))
        (\<lambda>_. bindA (gets paused) (\<lambda>ps. thenA (resume E ps) (ret False))) s0"
    unfolding pre_evict_def w_def s0_def by (simp only: run_rules)
  have phases: "thenA (forA (pause_one E) (sorted_list_of_set newcomers))
      (bindA (gets paused) (\<lambda>ps. if ps = [] then ret False else w)) s0 =
      (if paused s1 = [] then (Inr False, s1) else (r2, s2))"
    using 2 by (simp add: run_rules 1(1))
  have true: "r2 = Inr x \<Longrightarrow> x" for x
    using 2 by (auto simp: w_def thenA_def bindA_def ret_def split: prod.splits sum.splits)
  consider (none) "paused s1 = []" | (failed) e where "paused s1 \<noteq> []" "r2 = Inl e"
    | (evict) "paused s1 \<noteq> []" "r2 = Inr True"
  proof (cases "paused s1 = []")
    case False
    then show ?thesis using that(2,3) true by (cases r2) (simp, metis (full_types))
  qed (rule that(1))
  then show ?thesis
  proof cases
    case none
    then have p: "pre_evict E C newcomers s = (Inr False, s1)" using pre phases by (simp add: run_rules)
    have "s' = s1" using run by (simp add: takeover_def bindA_def [of "pre_evict E C newcomers"] p run_rules)
    then have "trace s' = trace s @ es1 @ [] @ []" using 1(2) by (simp add: s0_def)
    moreover have "pause_work_resume newcomers es1 [] []"
      by (rule pause_work_resumeI [where ps = "[]"]) (use 1 none in auto)
    ultimately show ?thesis by blast
  next
    case failed
    obtain s3 es3 where 3: "resume E (paused s2) s2 = (Inr (), s3)" "trace s3 = trace s2 @ es3"
        "map fst es3 = map (\<lambda>p. Kill p SIGCONT) (paused s2)"
      using resume_all [OF os] by blast
    have p: "pre_evict E C newcomers s = (Inr False, s3)"
      using pre phases failed 3(1) by (simp add: run_rules)
    have "s' = s3" using run by (simp add: takeover_def bindA_def [of "pre_evict E C newcomers"] p run_rules)
    then have "trace s' = trace s @ es1 @ es2 @ es3" using 1(2) es2(1) 3(2) by (simp add: s0_def)
    moreover have "pause_work_resume newcomers es1 es2 es3"
      by (rule pause_work_resumeI [OF 1(3) quiet2(1) 3(3)]) (use 1(4) p2 failed in auto)
    ultimately show ?thesis by blast
  next
    case evict
    obtain r3 s3 where k: "kill_agent_session E C s2 = (r3, s3)" by fastforce
    from steps_in_run [OF unsignalled_kill k] obtain es3 where
      es3: "trace s3 = trace s2 @ es3" "list_all (\<lambda>e. \<not> signals (fst e)) es3" and p3: "paused s3 = paused s2"
      by (auto simp: phase_def)
    obtain s4 es4 where 4: "resume E (paused s3) s3 = (Inr (), s4)" "trace s4 = trace s3 @ es4"
        "map fst es4 = map (\<lambda>p. Kill p SIGCONT) (paused s3)"
      using resume_all [OF os] by blast
    have p: "pre_evict E C newcomers s = (Inr True, s2)"
      using pre phases evict by (simp add: run_rules)
    have "finallyA (kill_agent_session E C) (bindA (gets paused) (resume E)) s2 = (r3, s4)"
      using k 4(1) by (simp add: finallyA_def run_rules)
    then have "s' = s4"
      using run by (cases r3) (simp_all add: takeover_def bindA_def [of "pre_evict E C newcomers"] p run_rules)
    then have "trace s' = trace s @ es1 @ (es2 @ es3) @ es4"
      using 1(2) es2(1) es3(1) 4(2) by (simp add: s0_def)
    moreover have "pause_work_resume newcomers es1 (es2 @ es3) es4"
      by (rule pause_work_resumeI [OF 1(3) _ 4(3)]) (use 1(4) p2 p3 quiet2(1) es3(2) evict in auto)
    ultimately show ?thesis by blast
  qed
qed

text \<open>
  C4. With a signal call that raises only what \<open>os.kill\<close> does, a takeover stops newcomers
  first and nothing else; evicts the incumbent only if a newcomer was stopped; signals no
  single process while it warns and evicts; and, whatever failed on the way, continues every
  newcomer it stopped after all that.
\<close>

theorem takeover_pauses_evicts_resumes:
  assumes "kill_raises_os_errors E" "finite newcomers" "takeover E C newcomers s = (r, s')"
  shows "\<exists>pauses work resumes. trace s' = trace s @ pauses @ work @ resumes \<and>
    list_all (\<lambda>e. \<exists>p \<in> newcomers. fst e = Kill p SIGSTOP) pauses \<and>
    list_all (\<lambda>e. \<not> signals (fst e)) work \<and>
    list_all (\<lambda>e. \<exists>p. fst e = Kill p SIGCONT) resumes \<and>
    (list_ex (\<lambda>e. evicts (fst e)) work \<longrightarrow> (\<exists>p. (Kill p SIGSTOP, True) \<in> set pauses)) \<and>
    (\<forall>p. (Kill p SIGSTOP, True) \<in> set pauses \<longrightarrow> (\<exists>ok. (Kill p SIGCONT, ok) \<in> set resumes))"
  using takeover_run [OF assms(1,3,2)] unfolding pause_work_resume_def by blast

lemma takeover_pauses_evicts_resumes_witness:
  "\<exists>r s'. takeover lab lab_config {5} (init_sup ()) = (r, s') \<and>
     (\<exists>pauses work resumes. trace s' = pauses @ work @ resumes \<and>
        list_all (\<lambda>e. \<exists>p \<in> {5}. fst e = Kill p SIGSTOP) pauses \<and>
        (list_ex (\<lambda>e. evicts (fst e)) work \<longrightarrow> (\<exists>p. (Kill p SIGSTOP, True) \<in> set pauses)))"
proof -
  have os: "kill_raises_os_errors lab" by (simp add: kill_raises_os_errors_def lab_def)
  obtain r s' where t: "takeover lab lab_config {5} (init_sup ()) = (r, s')" by fastforce
  have "trace (init_sup ()) = []" by (simp add: init_sup_def)
  with takeover_pauses_evicts_resumes [OF os _ t] t show ?thesis by auto
qed

end
