(* ===== verification/Expr.thy ===== *)
theory Expr imports Identifiers AgentRef Paths begin

text \<open>
  The reference grammar of a settings value (\<open>settings_resolve.py\<close>): the one tokenizer,
  which refuses what the grammar forbids at its own position, the expansion of a value in the
  host's or the box's space, the variables, the guard against cyclic references, and the
  spelling of literal text.
\<close>

section \<open>Characters and names\<close>

abbreviation backslash :: nat where "backslash \<equiv> 92"
abbreviation tilde :: nat where "tilde \<equiv> 126"
abbreviation close_brace :: nat where "close_brace \<equiv> 125"
abbreviation at_sign :: nat where "at_sign \<equiv> 64"
abbreviation dollar :: nat where "dollar \<equiv> 36"
abbreviation full_stop :: nat where "full_stop \<equiv> 46"

text \<open>\<open>_REF_SEG\<close> and \<open>_REF_NAME_RE\<close>: the longest dotted name at the front, if there is one.\<close>

definition ref_char :: "nat \<Rightarrow> bool" where
  "ref_char c \<longleftrightarrow> name_char c \<or> c = CANONICAL_SEP"

function ref_name :: "pystr \<Rightarrow> pystr option" where
  "ref_name s =
     (case takeWhile ref_char s of
        [] \<Rightarrow> None
      | c # seg \<Rightarrow>
          (case dropWhile ref_char s of
             [] \<Rightarrow> Some (c # seg)
           | d # t \<Rightarrow>
               if d = full_stop
               then (case ref_name t of None \<Rightarrow> Some (c # seg)
                     | Some r \<Rightarrow> Some ((c # seg) @ full_stop # r))
               else Some (c # seg)))"
  by auto
termination
proof (relation "measure length", simp)
  fix s t :: pystr and c d seg
  assume "dropWhile ref_char s = d # t"
  then show "(t, s) \<in> measure length"
    using length_dropWhile_le [of ref_char s] by simp
qed

declare ref_name.simps [simp del]

definition var_start :: "nat \<Rightarrow> bool" where
  "var_start c \<longleftrightarrow> ascii_alpha c \<or> c = 95"

definition var_char :: "nat \<Rightarrow> bool" where
  "var_char c \<longleftrightarrow> ascii_alpha c \<or> ascii_digit c \<or> c = 95"

definition var_name :: "pystr \<Rightarrow> pystr option" where
  "var_name s = (case s of
     [] \<Rightarrow> None
   | c # t \<Rightarrow> if var_start c then Some (c # takeWhile var_char t) else None)"

datatype token_kind = TText | THome | TEscape | TBrace | TRef | TVar

record expr_token =
  tkind :: token_kind
  tvalue :: pystr
  tstart :: nat
  tend :: nat

text \<open>\<open>match_braced\<close> at the front of a string that starts with a brace: kind, name and length.\<close>

definition match_braced :: "pystr \<Rightarrow> (token_kind \<times> pystr \<times> nat) option" where
  "match_braced s =
     (let rest = drop 1 s;
          is_var = (take 1 rest = [dollar]);
          body = (if is_var then drop 1 rest else rest);
          name = (if is_var then var_name body else ref_name body)
      in case name of
           None \<Rightarrow> None
         | Some nm \<Rightarrow>
             if take 1 (drop (length nm) body) = [close_brace]
             then Some (if is_var then TVar else TRef, nm, (if is_var then 3 else 2) + length nm)
             else None)"

section \<open>Errors\<close>

text \<open>
  The refusals and the values their messages are made of; \<open>Other\<close> is what a caller's lookup
  raises on its own account.
\<close>

datatype expr_error =
    UnpairedOpen pystr | UnpairedClose pystr | EmptyReference pystr | MalformedReference pystr pystr
  | IllegalEscape nat "(pystr \<times> pystr) option" | OldReference pystr pystr
  | VariableNotSet pystr | UnknownVariable pystr
  | CyclicReference "pystr list" | DepthCap pystr | Other pystr

section \<open>Old spellings\<close>

definition KNOWN_VARS :: "pystr list" where
  "KNOWN_VARS = [u ''AGENT'', u ''WORKSET'', u ''TERM'', u ''COLORTERM'']"

definition KNOWN_VAR_PREFIX :: pystr where "KNOWN_VAR_PREFIX = u ''XDG_''"

definition is_known_var :: "pystr \<Rightarrow> bool" where
  "is_known_var name \<longleftrightarrow> name \<in> set KNOWN_VARS \<or>
     prefix KNOWN_VAR_PREFIX name \<and> length KNOWN_VAR_PREFIX < length name"

text \<open>The longest leading dotted part that is a declared key, with what follows it.\<close>

fun declared_head :: "(pystr \<Rightarrow> bool) \<Rightarrow> pystr list \<Rightarrow> pystr list \<Rightarrow> (pystr \<times> pystr list) option" where
  "declared_head declared [] rest = None"
| "declared_head declared (p # parts) rest =
     (let head = join_char full_stop (rev (p # parts))
      in if declared head then Some (head, rest) else declared_head declared parts (p # rest))"

text \<open>
  \<open>bare_reference_at\<close>: the old spelling at the front of \<open>s\<close> and its cure. \<open>declared\<close> is the
  closed keyspace's verdict on a name, \<open>is_var\<close> the reader's known variables.
\<close>

definition bare_reference_at ::
  "(pystr \<Rightarrow> bool) \<Rightarrow> (pystr \<Rightarrow> bool) \<Rightarrow> pystr \<Rightarrow> (pystr \<times> pystr) option" where
  "bare_reference_at declared is_var s =
     (let rest = drop 1 s in
      if take 1 s = [at_sign] then
        (if take 1 rest = [open_brace] then
           (case match_braced rest of
              Some (TRef, nm, len) \<Rightarrow>
                if declared nm then Some (take (1 + len) s, [open_brace] @ nm @ [close_brace]) else None
            | _ \<Rightarrow> None)
         else (case ref_name rest of
                 None \<Rightarrow> None
               | Some nm \<Rightarrow>
                   (case declared_head declared (rev (split_char full_stop nm)) [] of
                      None \<Rightarrow> None
                    | Some (head, tail) \<Rightarrow>
                        Some (take (1 + length nm) s,
                              [open_brace] @ head @ [close_brace] @ concat (map (\<lambda>p. full_stop # p) tail)))))
      else
        (let braced = (take 1 rest = [open_brace]);
             body = (if braced then drop 1 rest else rest)
         in case var_name body of
              None \<Rightarrow> None
            | Some nm \<Rightarrow>
                if \<not> is_var nm then None
                else if braced \<and> take 1 (drop (length nm) body) \<noteq> [close_brace] then None
                else Some (take ((if braced then 3 else 1) + length nm) s,
                           [open_brace, dollar] @ nm @ [close_brace])))"

definition starts_bare_reference :: "(pystr \<Rightarrow> bool) \<Rightarrow> pystr \<Rightarrow> bool" where
  "starts_bare_reference declared s \<longleftrightarrow>
     (take 1 s = [at_sign] \<or> take 1 s = [dollar]) \<and> bare_reference_at declared is_known_var s \<noteq> None"

text \<open>\<open>expand_guest_home\<close>, with its one variable.\<close>

definition expand_guest_home :: "(pystr \<Rightarrow> bool) \<Rightarrow> pystr \<Rightarrow> expr_error + pystr" where
  "expand_guest_home declared v =
     (let tok = u ''{$GUEST_HOME}'' in
      if prefix tok v then Inr (GUEST_HOME @ drop (length tok) v)
      else if take 1 v = [dollar]
      then (case bare_reference_at declared (\<lambda>n. n = u ''GUEST_HOME'') v of
              None \<Rightarrow> Inr v
            | Some (old, cure) \<Rightarrow> Inl (OldReference old cure))
      else Inr v)"

section \<open>The tokenizer\<close>

definition token_start :: "nat \<Rightarrow> bool" where
  "token_start c \<longleftrightarrow> c \<in> {backslash, open_brace, close_brace, at_sign, dollar}"

definition escapable :: "nat \<Rightarrow> bool" where
  "escapable c \<longleftrightarrow> c = backslash \<or> c = tilde"

definition brace_refusal :: "pystr \<Rightarrow> expr_error" where
  "brace_refusal s =
     (case find_char close_brace (drop 1 s) of
        None \<Rightarrow> UnpairedOpen s
      | Some k \<Rightarrow> if k = 0 then EmptyReference s else MalformedReference (take (k + 2) s) s)"

text \<open>The text gathered since the last token, as a token of its own.\<close>

definition flush :: "nat \<Rightarrow> pystr \<Rightarrow> expr_token list" where
  "flush pos pend = (if pend = [] then []
     else [\<lparr>tkind = TText, tvalue = pend, tstart = pos - length pend, tend = pos\<rparr>])"

text \<open>
  \<open>iter_expr_tokens\<close> after a leading home token. The generator yields what precedes a refusal
  before it raises: the result is the tokens and the refusal that ended them, if one did.
  \<open>guard\<close> is off for an expression the code built from data.
\<close>

function lex ::
  "(pystr \<Rightarrow> bool) \<Rightarrow> bool \<Rightarrow> nat \<Rightarrow> pystr \<Rightarrow> pystr \<Rightarrow> expr_token list \<times> expr_error option" where
  "lex declared guard pos pend [] = (flush pos pend, None)"
| "lex declared guard pos pend (c # s) =
     (if \<not> token_start c then lex declared guard (pos + 1) (pend @ [c]) s
      else if c = at_sign \<or> c = dollar then
        (case (if guard then bare_reference_at declared is_known_var (c # s) else None) of
           Some (old, cure) \<Rightarrow> ([], Some (OldReference old cure))
         | None \<Rightarrow> lex declared guard (pos + 1) (pend @ [c]) s)
      else
        (let emit = (\<lambda>tok rest. (flush pos pend @ tok # fst rest, snd rest));
             fail = (\<lambda>e. (flush pos pend, Some e))
         in if c = backslash then
              (case s of
                 [] \<Rightarrow> emit \<lparr>tkind = TText, tvalue = [backslash], tstart = pos, tend = pos + 1\<rparr> ([], None)
               | d # t \<Rightarrow>
                   if escapable d
                   then emit \<lparr>tkind = TEscape, tvalue = [d], tstart = pos, tend = pos + 2\<rparr>
                          (lex declared guard (pos + 2) [] t)
                   else fail (IllegalEscape d
                          (if d = at_sign \<or> d = dollar then bare_reference_at declared is_known_var s
                           else None)))
            else if take 1 s = [c]
            then emit \<lparr>tkind = TBrace, tvalue = [c], tstart = pos, tend = pos + 2\<rparr>
                   (lex declared guard (pos + 2) [] (drop 1 s))
            else if c = close_brace then fail (UnpairedClose (c # s))
            else (case match_braced (c # s) of
                    None \<Rightarrow> fail (brace_refusal (c # s))
                  | Some (k, nm, len) \<Rightarrow>
                      emit \<lparr>tkind = k, tvalue = nm, tstart = pos, tend = pos + len\<rparr>
                        (lex declared guard (pos + len) [] (drop (len - 1) s)))))"
  by pat_completeness auto
termination
  by (relation "measure (\<lambda>(_, _, _, _, s). length s)") auto

definition iter_expr_tokens ::
  "(pystr \<Rightarrow> bool) \<Rightarrow> bool \<Rightarrow> pystr \<Rightarrow> expr_token list \<times> expr_error option" where
  "iter_expr_tokens declared guard expr =
     (if take 1 expr = [tilde]
      then (\<lparr>tkind = THome, tvalue = [tilde], tstart = 0, tend = 1\<rparr> # fst (lex declared guard 1 [] (drop 1 expr)),
            snd (lex declared guard 1 [] (drop 1 expr)))
      else lex declared guard 0 [] expr)"

section \<open>Expansion\<close>

record resolve_ctx =
  agent_name :: "pystr option"
  workset_name :: "pystr option"
  host_home :: pystr
  xdg :: "(pystr \<times> pystr) list"
  term_var :: pystr
  colorterm :: "pystr option"

text \<open>\<open>resolve_var\<close>: \<open>Inr None\<close> is the legitimate absence of a passthrough.\<close>

definition resolve_var :: "resolve_ctx \<Rightarrow> pystr \<Rightarrow> expr_error + pystr option" where
  "resolve_var ctx name =
     (if name = u ''AGENT'' then
        (case agent_name ctx of None \<Rightarrow> Inl (VariableNotSet name) | Some a \<Rightarrow> Inr (Some a))
      else if name = u ''WORKSET'' then
        (case workset_name ctx of None \<Rightarrow> Inl (VariableNotSet name) | Some a \<Rightarrow> Inr (Some a))
      else if name = u ''TERM'' then Inr (Some (term_var ctx))
      else if name = u ''COLORTERM'' then Inr (colorterm ctx)
      else if prefix KNOWN_VAR_PREFIX name then
        (case map_of (xdg ctx) name of None \<Rightarrow> Inl (VariableNotSet name) | Some v \<Rightarrow> Inr (Some v))
      else Inl (UnknownVariable name))"

definition embedded_var :: "resolve_ctx \<Rightarrow> pystr \<Rightarrow> expr_error + pystr" where
  "embedded_var ctx name =
     bindE (resolve_var ctx name) (\<lambda>v. Inr (case v of None \<Rightarrow> [] | Some t \<Rightarrow> t))"

definition MAX_REF_DEPTH :: nat where "MAX_REF_DEPTH = 64"

definition guard_ref :: "pystr \<Rightarrow> pystr list \<Rightarrow> nat \<Rightarrow> expr_error + unit" where
  "guard_ref name trail depth =
     bindE (refuse_if (name \<in> set trail) (CyclicReference (trail @ [name]))) (\<lambda>_.
       refuse_if (MAX_REF_DEPTH \<le> depth) (DepthCap name))"

definition lookup_ref ::
  "(pystr \<Rightarrow> pystr list \<Rightarrow> expr_error + pystr) \<Rightarrow> pystr list \<Rightarrow> pystr \<Rightarrow> expr_error + pystr" where
  "lookup_ref look chain name =
     bindE (guard_ref name chain (length chain)) (\<lambda>_. look name (chain @ [name]))"

datatype space = HostSpace | GuestSpace

definition expand_token ::
  "space \<Rightarrow> resolve_ctx \<Rightarrow> (pystr \<Rightarrow> pystr list \<Rightarrow> expr_error + pystr) \<Rightarrow> pystr list \<Rightarrow> bool \<Rightarrow> pystr \<Rightarrow>
   expr_token \<Rightarrow> expr_error + pystr" where
  "expand_token sp ctx look chain defer expr tok =
     (case tkind tok of
        TText \<Rightarrow> Inr (tvalue tok)
      | THome \<Rightarrow> Inr (if defer then [tilde] else if sp = HostSpace then host_home ctx else GUEST_HOME)
      | TEscape \<Rightarrow> Inr (if defer then backslash # tvalue tok else tvalue tok)
      | TBrace \<Rightarrow> Inr (if defer then tvalue tok @ tvalue tok else tvalue tok)
      | TVar \<Rightarrow> if defer then Inr (take (tend tok - tstart tok) (drop (tstart tok) expr))
                else embedded_var ctx (tvalue tok)
      | TRef \<Rightarrow> lookup_ref look chain (tvalue tok))"

definition expand_expr ::
  "(pystr \<Rightarrow> bool) \<Rightarrow> bool \<Rightarrow> space \<Rightarrow> resolve_ctx \<Rightarrow> (pystr \<Rightarrow> pystr list \<Rightarrow> expr_error + pystr) \<Rightarrow>
   pystr list \<Rightarrow> bool \<Rightarrow> pystr \<Rightarrow> expr_error + pystr" where
  "expand_expr declared guard sp ctx look chain defer expr =
     (case iter_expr_tokens declared guard expr of (toks, refusal) \<Rightarrow>
        bindE (mapE (expand_token sp ctx look chain defer expr) toks) (\<lambda>parts.
          case refusal of None \<Rightarrow> Inr (concat parts) | Some e \<Rightarrow> Inl e))"

section \<open>Literal text\<close>

definition literal_char :: "nat \<Rightarrow> pystr" where
  "literal_char c = (if c = backslash \<or> c = tilde then [backslash, c]
     else if c = open_brace \<or> c = close_brace then [c, c] else [c])"

definition literal_expr :: "pystr \<Rightarrow> pystr" where
  "literal_expr s = concat (map literal_char s)"

definition is_verbatim_text :: "pystr list \<Rightarrow> bool" where
  "is_verbatim_text path \<longleftrightarrow> length path = 3 \<and> path ! 0 = u ''agent'' \<and> path ! 2 = u ''endpoint''"

fun unescape :: "pystr \<Rightarrow> pystr" where
  "unescape [] = []"
| "unescape [c] = [c]"
| "unescape (c # d # s) = (if c = backslash then d # unescape s else c # unescape (d # s))"

text \<open>\<open>split_bind\<close> at the first unescaped colon.\<close>

fun split_at_colon :: "pystr \<Rightarrow> pystr \<Rightarrow> pystr \<times> pystr option" where
  "split_at_colon pre [] = (pre, None)"
| "split_at_colon pre [c] = (if c = 58 then (pre, Some []) else (pre @ [c], None))"
| "split_at_colon pre (c # d # s) =
     (if c = backslash then split_at_colon (pre @ [c, d]) s
      else if c = 58 then (pre, Some (d # s))
      else split_at_colon (pre @ [c]) (d # s))"

definition split_bind :: "pystr \<Rightarrow> pystr \<times> pystr option" where
  "split_bind v = (case split_at_colon [] v of (h, g) \<Rightarrow> (unescape h, map_option unescape g))"

section \<open>Tokens print back to the value\<close>

definition spelling :: "expr_token \<Rightarrow> pystr" where
  "spelling tok = (case tkind tok of
     TText \<Rightarrow> tvalue tok
   | THome \<Rightarrow> [tilde]
   | TEscape \<Rightarrow> backslash # tvalue tok
   | TBrace \<Rightarrow> tvalue tok @ tvalue tok
   | TRef \<Rightarrow> open_brace # tvalue tok @ [close_brace]
   | TVar \<Rightarrow> open_brace # dollar # tvalue tok @ [close_brace])"

fun laid_out :: "nat \<Rightarrow> expr_token list \<Rightarrow> bool" where
  "laid_out a [] \<longleftrightarrow> True"
| "laid_out a (t # ts) \<longleftrightarrow>
     tstart t = a \<and> a < tend t \<and> tend t = a + length (spelling t) \<and> laid_out (tend t) ts"

lemma ref_name_prefix: "ref_name s = Some nm \<Longrightarrow> prefix nm s"
proof (induction s arbitrary: nm rule: ref_name.induct)
  case (1 s)
  have s: "takeWhile ref_char s @ dropWhile ref_char s = s" by simp
  obtain c seg where t: "takeWhile ref_char s = c # seg"
    using "1.prems" by (subst (asm) ref_name.simps) (auto split: list.splits)
  show ?case
  proof (cases "dropWhile ref_char s")
    case Nil
    then show ?thesis using "1.prems" s t by (subst (asm) ref_name.simps) (auto split: list.splits)
  next
    case (Cons d q)
    show ?thesis
    proof (cases "d = full_stop \<and> ref_name q \<noteq> None")
      case True
      then obtain r where r: "ref_name q = Some r" by blast
      have "nm = (c # seg) @ full_stop # r"
        using "1.prems" t Cons True r by (subst (asm) ref_name.simps) simp
      moreover have "prefix r q" using "1.IH" t Cons True r by simp
      moreover have "s = (c # seg) @ d # q" using s t Cons by simp
      ultimately show ?thesis using True by simp
    next
      case False
      then have "nm = c # seg"
        using "1.prems" t Cons by (subst (asm) ref_name.simps) (auto split: option.splits if_splits)
      then show ?thesis using s t by (metis prefixI)
    qed
  qed
qed

lemma var_name_prefix: "var_name s = Some nm \<Longrightarrow> prefix nm s"
  by (auto simp: var_name_def takeWhile_is_prefix split: list.splits if_splits)

lemma take_1_eq: "take 1 s = [c] \<longleftrightarrow> (\<exists>t. s = c # t)" "take (Suc 0) s = [c] \<longleftrightarrow> (\<exists>t. s = c # t)"
  by (cases s; auto)+

text \<open>What \<open>match_braced\<close> found is what stands there.\<close>

lemma match_braced_spelled:
  assumes "match_braced (open_brace # s) = Some (k, nm, len)"
  shows "\<exists>rest. open_brace # s = spelling \<lparr>tkind = k, tvalue = nm, tstart = a, tend = b\<rparr> @ rest \<and>
    length (spelling \<lparr>tkind = k, tvalue = nm, tstart = a, tend = b\<rparr>) = len \<and> drop (len - 1) s = rest \<and> 1 < len
    \<and> k \<in> {TRef, TVar}"
proof (cases "take 1 s = [dollar]")
  case True
  then obtain t where s: "s = dollar # t" by (auto simp: take_1_eq)
  with assms obtain p: "var_name t = Some nm" "take 1 (drop (length nm) t) = [close_brace]"
      "k = TVar" "len = 3 + length nm"
    by (auto simp: match_braced_def Let_def split: option.splits if_splits)
  from var_name_prefix [OF p(1)] obtain z where "t = nm @ z" by (auto elim: prefixE)
  with p(2) obtain rest where "t = nm @ close_brace # rest" by (auto simp: take_1_eq)
  then show ?thesis using s p(3,4) by (auto simp: spelling_def)
next
  case False
  with assms obtain p: "ref_name s = Some nm" "take 1 (drop (length nm) s) = [close_brace]"
      "k = TRef" "len = 2 + length nm"
    by (auto simp: match_braced_def Let_def split: option.splits if_splits)
  from ref_name_prefix [OF p(1)] obtain z where "s = nm @ z" by (auto elim: prefixE)
  with p(2) obtain rest where "s = nm @ close_brace # rest" by (auto simp: take_1_eq)
  then show ?thesis using p(3,4) by (auto simp: spelling_def)
qed

lemma flush_spelled: "concat (map spelling (flush pos pend)) = pend"
  by (simp add: flush_def spelling_def)

lemma flush_laid:
  "length pend \<le> pos \<Longrightarrow> laid_out pos ts \<Longrightarrow> laid_out (pos - length pend) (flush pos pend @ ts)"
  by (cases pend) (auto simp: flush_def spelling_def)

text \<open>What the tokens so far spell, and where the tokenizer stands.\<close>

definition prints :: "nat \<Rightarrow> pystr \<Rightarrow> expr_token list \<times> expr_error option \<Rightarrow> bool" where
  "prints a text' r \<longleftrightarrow> laid_out a (fst r) \<and>
     (\<exists>rest. text' = concat (map spelling (fst r)) @ rest \<and> (snd r = None \<longrightarrow> rest = []))"

lemma prints_emit:
  assumes "length pend \<le> pos" "prints (tend tok) rest r" "tstart tok = pos"
    "tend tok = pos + length (spelling tok)" "spelling tok \<noteq> []" "s = spelling tok @ rest"
  shows "prints (pos - length pend) (pend @ s) (flush pos pend @ tok # fst r, snd r)"
  using assms flush_spelled [of pos pend]
  by (auto simp: prints_def intro!: flush_laid)

lemma prints_fail:
  "length pend \<le> pos \<Longrightarrow> prints (pos - length pend) (pend @ s) (flush pos pend, Some e)"
  using flush_laid [of pend pos "[]"] by (auto simp: prints_def flush_spelled)

lemma lex_prints:
  "length pend \<le> pos \<Longrightarrow> prints (pos - length pend) (pend @ s) (lex declared guard pos pend s)"
proof (induction declared guard pos pend s rule: lex.induct)
  case (1 declared guard pos pend)
  then show ?case using flush_laid [of pend pos "[]"] by (auto simp: prints_def flush_spelled)
next
  case (2 declared guard pos pend c s)
  note IH = "2.IH" and pend = "2.prems"
  have go: "prints (pos - length pend) (pend @ c # s) (lex declared guard (pos + 1) (pend @ [c]) s)"
    if "prints (pos + 1 - length (pend @ [c])) ((pend @ [c]) @ s) (lex declared guard (pos + 1) (pend @ [c]) s)"
    using that by simp
  consider (plain) "\<not> token_start c" | (sigil) "token_start c" "c = at_sign \<or> c = dollar"
    | (backslash) "c = backslash" | (brace) "c = open_brace \<or> c = close_brace"
    by (auto simp: token_start_def)
  then show ?case
  proof cases
    case plain
    then show ?thesis using IH(1) pend go by simp
  next
    case sigil
    then show ?thesis
      using IH(2) pend go by (auto simp: prints_def split: option.split prod.split)
  next
    case backslash
    show ?thesis
    proof (cases s)
      case Nil
      have "prints (pos - length pend) (pend @ [c])
          (flush pos pend @ [\<lparr>tkind = TText, tvalue = [c], tstart = pos, tend = pos + 1\<rparr>], None)"
        using prints_emit [OF pend, of "\<lparr>tkind = TText, tvalue = [c], tstart = pos, tend = pos + 1\<rparr>" "[]" "([], None)" "[c]"]
        by (simp add: prints_def spelling_def)
      then show ?thesis using backslash Nil by (simp add: token_start_def Let_def)
    next
      case (Cons d t)
      show ?thesis
      proof (cases "escapable d")
        case True
        let ?r = "lex declared guard (pos + 2) [] t"
        have "prints (pos + 2) t ?r"
          using IH(3) [of "\<lambda>tok rest. (flush pos pend @ tok # fst rest, snd rest)" "\<lambda>e. (flush pos pend, Some e)"]
            backslash Cons True by (simp add: token_start_def)
        then have "prints (pos - length pend) (pend @ c # d # t)
            (flush pos pend @ \<lparr>tkind = TEscape, tvalue = [d], tstart = pos, tend = pos + 2\<rparr> # fst ?r, snd ?r)"
          by (intro prints_emit [OF pend]) (simp_all add: backslash spelling_def)
        then show ?thesis using backslash Cons True by (simp add: token_start_def Let_def)
      next
        case False
        then show ?thesis
          using backslash Cons prints_fail [OF pend] by (simp add: token_start_def Let_def)
      qed
    qed
  next
    case brace
    show ?thesis
    proof (cases "take 1 s = [c]")
      case True
      then obtain t where s: "s = c # t" by (auto simp: take_1_eq)
      let ?r = "lex declared guard (pos + 2) [] t"
      have "prints (pos + 2) t ?r"
        using IH(4) [of "\<lambda>tok rest. (flush pos pend @ tok # fst rest, snd rest)" "\<lambda>e. (flush pos pend, Some e)"]
          brace s by (auto simp: token_start_def)
      then have "prints (pos - length pend) (pend @ c # c # t)
          (flush pos pend @ \<lparr>tkind = TBrace, tvalue = [c], tstart = pos, tend = pos + 2\<rparr> # fst ?r, snd ?r)"
        by (intro prints_emit [OF pend]) (simp_all add: spelling_def)
      then show ?thesis using brace s by (auto simp: token_start_def Let_def)
    next
      case False
      show ?thesis
      proof (cases "c = open_brace \<and> match_braced (c # s) \<noteq> None")
        case True
        then obtain k nm len where m: "match_braced (open_brace # s) = Some (k, nm, len)" by auto
        let ?t = "\<lparr>tkind = k, tvalue = nm, tstart = pos, tend = pos + len\<rparr>"
        let ?r = "lex declared guard (pos + len) [] (drop (len - 1) s)"
        have "prints (pos + len) (drop (len - 1) s) ?r"
          using IH(5) [of "\<lambda>tok rest. (flush pos pend @ tok # fst rest, snd rest)" "\<lambda>e. (flush pos pend, Some e)"]
            True False m by (auto simp: token_start_def)
        then have "prints (pos - length pend) (pend @ c # s) (flush pos pend @ ?t # fst ?r, snd ?r)"
          using match_braced_spelled [OF m, of pos "pos + len"] True
          by (intro prints_emit [OF pend]) auto
        then show ?thesis using True False m by (simp add: token_start_def Let_def)
      next
        case no: False
        then consider "c = close_brace" | "c = open_brace" "match_braced (open_brace # s) = None"
          using brace by (cases "match_braced (open_brace # s)") auto
        then show ?thesis
          using False prints_fail [OF pend] by cases (simp_all add: token_start_def Let_def)
      qed
    qed
  qed
qed

lemma tokens_spell:
  assumes "iter_expr_tokens declared guard expr = (toks, refusal)"
  shows "laid_out 0 toks \<and>
    (\<exists>rest. expr = concat (map spelling toks) @ rest \<and> (refusal = None \<longrightarrow> rest = []))"
proof (cases "take 1 expr = [tilde]")
  case True
  then obtain t where e: "expr = tilde # t" by (auto simp: take_1_eq)
  show ?thesis
    using lex_prints [of "[]" 1 t declared guard] assms e
    by (auto simp: iter_expr_tokens_def prints_def spelling_def)
next
  case False
  then show ?thesis
    using lex_prints [of "[]" 0 expr declared guard] assms by (simp add: iter_expr_tokens_def prints_def)
qed

text \<open>
  C23. The tokens of a value print back to it: laid end to end from position 0, each as long as
  its spelling, they spell a prefix of the value, and all of it when nothing was refused.
\<close>

theorem tokens_print_back:
  assumes "iter_expr_tokens declared guard expr = (toks, refusal)"
  shows "laid_out 0 toks \<and>
    (\<exists>rest. expr = concat (map spelling toks) @ rest \<and> (refusal = None \<longrightarrow> rest = []))"
  using tokens_spell [OF assms] .

lemma tokens_print_back_witness:
  "\<exists>toks refusal. iter_expr_tokens (\<lambda>_. False) True (u ''~/{a.b}'') = (toks, refusal) \<and> laid_out 0 toks"
proof -
  obtain toks refusal where t: "iter_expr_tokens (\<lambda>_. False) True (u ''~/{a.b}'') = (toks, refusal)" by fastforce
  from tokens_print_back [OF t] t show ?thesis by blast
qed

section \<open>Literal text expands to itself\<close>

definition host_text :: "expr_token \<Rightarrow> pystr" where
  "host_text tok = (if tkind tok \<in> {TText, TEscape, TBrace} then tvalue tok else [])"

lemma host_text_simps [simp]:
  "host_text \<lparr>tkind = TEscape, tvalue = v, tstart = a, tend = b\<rparr> = v"
  "host_text \<lparr>tkind = TBrace, tvalue = v, tstart = a, tend = b\<rparr> = v"
  by (simp_all add: host_text_def)

lemma flush_host_text: "concat (map host_text (flush pos pend)) = pend"
  by (simp add: flush_def host_text_def)

lemma flush_kinds: "tok \<in> set (flush pos pend) \<Longrightarrow> tkind tok = TText"
  by (simp add: flush_def split: if_splits)

lemma lex_literal:
  "snd (lex declared False pos pend (literal_expr s)) = None \<and>
   concat (map host_text (fst (lex declared False pos pend (literal_expr s)))) = pend @ s \<and>
   (\<forall>tok \<in> set (fst (lex declared False pos pend (literal_expr s))). tkind tok \<in> {TText, TEscape, TBrace})"
proof (induction s arbitrary: pos pend)
  case Nil
  then show ?case by (auto simp: literal_expr_def flush_host_text dest: flush_kinds)
next
  case (Cons c s)
  have l: "literal_expr (c # s) = literal_char c @ literal_expr s" by (simp add: literal_expr_def)
  consider "c = backslash \<or> c = tilde" | "c = open_brace \<or> c = close_brace"
    | "c = at_sign \<or> c = dollar" | "\<not> token_start c" "c \<noteq> tilde"
    by (auto simp: token_start_def)
  then show ?case
  proof cases
    case 1
    then show ?thesis
      using Cons.IH [of "pos + 2" "[]"] unfolding l
      by (auto simp: literal_char_def token_start_def escapable_def flush_host_text dest: flush_kinds)
  next
    case 2
    then show ?thesis
      using Cons.IH [of "pos + 2" "[]"] unfolding l
      by (auto simp: literal_char_def token_start_def flush_host_text dest: flush_kinds)
  next
    case 3
    then show ?thesis
      using Cons.IH [of "pos + 1" "pend @ [c]"] unfolding l
      by (auto simp: literal_char_def token_start_def)
  next
    case 4
    then show ?thesis
      using Cons.IH [of "pos + 1" "pend @ [c]"] unfolding l
      by (auto simp: literal_char_def token_start_def)
  qed
qed

lemma literal_expr_head: "take 1 (literal_expr s) \<noteq> [tilde]"
  by (cases s) (auto simp: literal_expr_def literal_char_def)

lemma mapE_cong_set: "(\<And>x. x \<in> set xs \<Longrightarrow> f x = g x) \<Longrightarrow> mapE f xs = mapE g xs"
  by (induction xs) simp_all

lemma mapE_all: "(\<And>x. x \<in> set xs \<Longrightarrow> f x = Inr (g x)) \<Longrightarrow> mapE f xs = Inr (map g xs)"
  by (induction xs) auto

text \<open>
  Text a reader spells as a literal expands to itself, in either space, with any
  variables and any keys: a host path with a brace, a backslash, a sigil or a leading tilde in
  it reaches the box's arguments as it is.
\<close>

theorem expand_literal:
  "expand_expr declared False sp ctx look chain False (literal_expr s) = Inr s"
proof -
  obtain toks r where t: "lex declared False 0 [] (literal_expr s) = (toks, r)" by fastforce
  note l = lex_literal [of declared 0 "[]" s, unfolded t]
  have "mapE (expand_token sp ctx look chain False (literal_expr s)) toks = Inr (map host_text toks)"
    by (rule mapE_all) (use l in \<open>auto simp: expand_token_def host_text_def\<close>)
  with l literal_expr_head t show ?thesis
    by (simp add: expand_expr_def iter_expr_tokens_def)
qed

section \<open>Deferral\<close>

lemma laid_out_slices:
  "laid_out a toks \<Longrightarrow> length pre = a \<Longrightarrow> tok \<in> set toks \<Longrightarrow>
   take (tend tok - tstart tok) (drop (tstart tok) (pre @ concat (map spelling toks) @ rest)) = spelling tok"
proof (induction toks arbitrary: a pre)
  case (Cons t ts)
  show ?case
  proof (cases "tok = t")
    case True
    then show ?thesis using Cons.prems by simp
  next
    case False
    have "take (tend tok - tstart tok)
        (drop (tstart tok) ((pre @ spelling t) @ concat (map spelling ts) @ rest)) = spelling tok"
    proof (rule Cons.IH)
      show "laid_out (tend t) ts" "length (pre @ spelling t) = tend t" using Cons.prems by auto
      show "tok \<in> set ts" using Cons.prems(3) False by simp
    qed
    then show ?thesis by simp
  qed
qed simp

text \<open>
  C24. A deferred expansion replaces key references and nothing else: every other token is
  carried as it is spelled, for the box's own pass to read. Without a reference the value comes
  back unchanged.
\<close>

theorem deferral_keeps_spelling:
  assumes "iter_expr_tokens declared guard expr = (toks, None)"
  shows "expand_expr declared guard sp ctx look chain True expr =
      bindE (mapE (\<lambda>tok. if tkind tok = TRef then lookup_ref look chain (tvalue tok) else Inr (spelling tok)) toks)
        (\<lambda>parts. Inr (concat parts))
    \<and> (list_all (\<lambda>tok. tkind tok \<noteq> TRef) toks \<longrightarrow>
         expand_expr declared guard sp ctx look chain True expr = Inr expr)"
proof -
  from tokens_spell [OF assms] have l: "laid_out 0 toks" and e: "expr = concat (map spelling toks)" by auto
  have tok: "expand_token sp ctx look chain True expr tok =
      (if tkind tok = TRef then lookup_ref look chain (tvalue tok) else Inr (spelling tok))"
    if "tok \<in> set toks" for tok
    using laid_out_slices [OF l, of "[]" tok "[]"] that e
    by (cases "tkind tok") (auto simp: expand_token_def spelling_def)
  then have "mapE (expand_token sp ctx look chain True expr) toks =
      mapE (\<lambda>tok. if tkind tok = TRef then lookup_ref look chain (tvalue tok) else Inr (spelling tok)) toks"
    by (rule mapE_cong_set)
  then have 1: "expand_expr declared guard sp ctx look chain True expr =
      bindE (mapE (\<lambda>tok. if tkind tok = TRef then lookup_ref look chain (tvalue tok) else Inr (spelling tok)) toks)
        (\<lambda>parts. Inr (concat parts))"
    by (simp add: expand_expr_def assms)
  have "mapE (\<lambda>tok. if tkind tok = TRef then lookup_ref look chain (tvalue tok) else Inr (spelling tok)) toks =
      Inr (map spelling toks)" if "list_all (\<lambda>tok. tkind tok \<noteq> TRef) toks"
    by (rule mapE_all) (use that in \<open>auto simp: list_all_iff\<close>)
  then show ?thesis using 1 e by simp
qed

lemma deferral_keeps_spelling_witness:
  "\<forall>sp ctx look chain. expand_expr (\<lambda>_. False) True sp ctx look chain True (u ''~/a'') = Inr (u ''~/a'')"
proof (intro allI)
  fix sp ctx look chain
  have t: "iter_expr_tokens (\<lambda>_. False) True (u ''~/a'') =
      ([\<lparr>tkind = THome, tvalue = [tilde], tstart = 0, tend = 1\<rparr>,
        \<lparr>tkind = TText, tvalue = [47, 97], tstart = 1, tend = 3\<rparr>], None)" by code_simp
  show "expand_expr (\<lambda>_. False) True sp ctx look chain True (u ''~/a'') = Inr (u ''~/a'')"
    by (rule mp [OF deferral_keeps_spelling [OF t, THEN conjunct2]]) simp
qed

end
