(* ===== verification/Expand.thy ===== *)
theory Expand imports Effects Expr Keystore begin

text \<open>
  The expander (\<open>settings_expand.py\<close>): the raw merged store in, a fresh store of terminals out.
  Every reference is followed to its terminal, each key is resolved once and remembered, a
  cycle and a chain past the cap are refused, and a whole-value reference to a key that is not
  there drops the key that holds it. The strict mode raises at the first refusal; the lenient
  one records the refusal against its own key and goes on.

  The recursion through references is tied by a fuel that counts nested references; the code
  between two of them is written over the resolver it calls.
\<close>

section \<open>What the expander is given\<close>

text \<open>
  What the caller's \<open>derive\<close> does when it is asked for a key: it reads keys through the
  resolver it is handed (\<open>None\<close> for a missing one) and ends with no answer, a value, or a
  refusal of its own.
\<close>

datatype derivation =
    Underivable | Derived store_value | DerivationError pystr
  | ReadKey pystr "store_value option \<Rightarrow> derivation"

text \<open>
  \<open>declared\<close> and \<open>no_key\<close> are the closed keyspace's verdicts (the second with its reason when
  a name is no key), \<open>set_reason\<close> the set door's; \<open>other_text\<close> is \<open>str()\<close> of a float, a list
  or a table.
\<close>

record expander =
  snapshot :: keystore
  ctx :: resolve_ctx
  foundation :: "(pystr \<times> pystr) list"
  collect_errors :: bool
  derive :: "(pystr \<Rightarrow> derivation) option"
  declared :: "pystr \<Rightarrow> bool"
  no_key :: "pystr \<Rightarrow> pystr option"
  set_reason :: "pystr \<Rightarrow> pystr option"
  other_text :: "store_value \<Rightarrow> pystr"

section \<open>Refusals\<close>

text \<open>
  \<open>Grammar\<close> is \<open>ExprSyntaxError\<close> with what \<open>naming\<close> gave it; \<open>Defect\<close> is \<open>_LenientDefect\<close>,
  with its blindness; \<open>Shape\<close> is \<open>_ExpandedShapeError\<close>. \<open>OutOfFuel\<close> is no exception of the
  code.
\<close>

datatype shape_fault =
    TwoBindings pystr pystr | NoDestination pystr bool | NotAPath pystr pystr | RelativeSource pystr pystr pystr

datatype expand_fault =
    Grammar expr_error "(pystr \<times> pystr list \<times> pystr option) option"
  | Refused expr_error
  | Shape shape_fault
  | NoKey pystr pystr pystr pystr
  | PrefReference pystr
  | ReservedName key_error
  | Defect expand_fault
  | Dangling pystr "pystr option"
  | InTable pystr pystr expand_fault
  | OutOfFuel

text \<open>Which refusals of an expression are \<open>ExprSyntaxError\<close>.\<close>

fun is_syntax :: "expr_error \<Rightarrow> bool" where
  "is_syntax (UnpairedOpen _) = True"
| "is_syntax (UnpairedClose _) = True"
| "is_syntax (EmptyReference _) = True"
| "is_syntax (MalformedReference _ _) = True"
| "is_syntax (IllegalEscape _ _) = True"
| "is_syntax (OldReference _ _) = True"
| "is_syntax _ = False"

definition expr_fault :: "expr_error \<Rightarrow> expand_fault" where
  "expr_fault e = (if is_syntax e then Grammar e None else Refused e)"

fun is_grammar :: "expand_fault \<Rightarrow> bool" where
  "is_grammar (Grammar _ _) = True"
| "is_grammar _ = False"

text \<open>\<open>ExprSyntaxError.naming\<close>: the first name given stands.\<close>

fun naming :: "pystr \<Rightarrow> pystr list \<Rightarrow> pystr option \<Rightarrow> expand_fault \<Rightarrow> expand_fault" where
  "naming entry chain from_leaf (Grammar e None) = Grammar e (Some (entry, chain, from_leaf))"
| "naming entry chain from_leaf e = e"

text \<open>A lenient leaf catches \<open>SettingsError\<close> and \<open>_LenientDefect\<close>; a reserved key name is neither.\<close>

definition caught :: "expand_fault \<Rightarrow> bool" where
  "caught e \<longleftrightarrow> e \<noteq> OutOfFuel \<and> (case e of ReservedName _ \<Rightarrow> False | _ \<Rightarrow> True)"

text \<open>
  \<open>Defect (Dangling name None)\<close>: declared, but not in this cascade. A record of it, or of a
  table's record of it, is blindness alone.
\<close>

fun is_blind :: "expand_fault \<Rightarrow> bool" where
  "is_blind (Defect e) = is_blind e"
| "is_blind (Dangling _ None) = True"
| "is_blind (InTable _ _ e) = is_blind e"
| "is_blind _ = False"

fun defect_reason :: "expand_fault \<Rightarrow> expand_fault" where
  "defect_reason (Defect e) = e"
| "defect_reason e = e"

section \<open>The state of a pass\<close>

text \<open>
  \<open>memo\<close> holds a resolved key's value, \<open>None\<close> for \<open>_ABSENT\<close>; \<open>reading\<close>, \<open>reach\<close> and
  \<open>leaf_labels\<close> are stacks, innermost first.
\<close>

record pass =
  memo :: "(pystr \<times> store_value option) list"
  deps :: "(pystr \<times> pystr set) list"
  height :: "(pystr \<times> nat) list"
  reading :: "pystr set list"
  reach :: "nat list"
  leaf_labels :: "pystr list"
  table_chain :: "pystr list"
  blind_absent :: bool
  errors :: "(pystr \<times> expand_fault) list"
  null_sources :: "(pystr list \<times> pystr list) list"
  refs_read :: "(pystr list \<times> pystr set) list"
  dest_keys :: "(pystr list \<times> pystr) list"

definition init_pass :: pass where
  "init_pass = \<lparr>memo = [], deps = [], height = [], reading = [], reach = [], leaf_labels = [],
     table_chain = [], blind_absent = False, errors = [], null_sources = [], refs_read = [], dest_keys = []\<rparr>"

type_synonym 'a xrun = "(pass, expand_fault, 'a) xact"

text \<open>The resolver of a reference: its key, the chain that ends in it, and \<open>absent_ok\<close>.\<close>

type_synonym resolver = "pystr \<Rightarrow> pystr list \<Rightarrow> bool \<Rightarrow> store_value option xrun"

abbreviation none_value :: "store_value option" where
  "none_value \<equiv> Some (SLeaf LNone)"

definition leaf_label :: "pystr list \<Rightarrow> pystr" where
  "leaf_label path = (if length path < 2 then join_char dot path
     else entry_label (join_char dot (butlast path)) (last path))"

section \<open>Strings\<close>

text \<open>\<open>match_braced\<close> is asked at index 0, whatever stands there.\<close>

definition whole_braced :: "token_kind \<Rightarrow> pystr \<Rightarrow> pystr option" where
  "whole_braced kind value =
     (case match_braced value of
        None \<Rightarrow> None
      | Some (k, name, len) \<Rightarrow> if k = kind \<and> len = length value then Some name else None)"

definition is_whole_value_ref :: "pystr \<Rightarrow> pystr option" where
  "is_whole_value_ref value = whole_braced TRef value"

definition is_whole_value_var :: "pystr \<Rightarrow> pystr option" where
  "is_whole_value_var value = whole_braced TVar value"

definition int_text :: "int \<Rightarrow> pystr" where
  "int_text i = (if i < 0 then 45 # decimal (nat (- i)) else decimal (nat i))"

text \<open>What an embedded reference substitutes; the flag says the referent was a present \<open>None\<close>.\<close>

definition value_text :: "(store_value \<Rightarrow> pystr) \<Rightarrow> store_value option \<Rightarrow> pystr" where
  "value_text other r = (case r of
     None \<Rightarrow> []
   | Some (SNode ks) \<Rightarrow> other (SNode ks)
   | Some (SLeaf l) \<Rightarrow>
       (case l of
          LNone \<Rightarrow> []
        | LStr s \<Rightarrow> s
        | LInt i \<Rightarrow> int_text i
        | LBool b \<Rightarrow> (if b then u ''True'' else u ''False'')
        | LBind h b opts \<Rightarrow> h
        | LEntry s opts \<Rightarrow> s
        | _ \<Rightarrow> other (SLeaf l)))"

definition lookup_str :: "resolver \<Rightarrow> expander \<Rightarrow> pystr \<Rightarrow> pystr list \<Rightarrow> (pystr \<times> pystr list) xrun" where
  "lookup_str res x name chain = bindA (res name chain False) (\<lambda>r.
     ret (value_text (other_text x) r, if r = none_value then [name] else []))"

definition settle_expr :: "expr_error + 'a \<Rightarrow> 'a xrun" where
  "settle_expr r = (case r of Inl e \<Rightarrow> raise (expr_fault e) | Inr y \<Rightarrow> ret y)"

text \<open>
  One token of \<open>expand_expr\<close> with this resolver as its lookup: a reference is guarded against
  the chain and looked up, every other token is a matter of the context alone.
\<close>

definition embed_token ::
  "resolver \<Rightarrow> expander \<Rightarrow> bool \<Rightarrow> pystr list \<Rightarrow> pystr \<Rightarrow> expr_token \<Rightarrow> (pystr \<times> pystr list) xrun" where
  "embed_token res x defer chain value tok =
     (if tkind tok = TRef then
        bindA (settle_expr (guard_ref (tvalue tok) chain (length chain))) (\<lambda>_.
        bindA (lookup_str res x (tvalue tok) (chain @ [tvalue tok])) (\<lambda>(text', nones).
          ret (if defer then literal_expr text' else text', nones)))
      else bindA (settle_expr (expand_token HostSpace (ctx x) (\<lambda>_ _. Inr []) chain defer value tok))
             (\<lambda>text'. ret (text', [])))"

definition expand_embedded ::
  "resolver \<Rightarrow> expander \<Rightarrow> bool \<Rightarrow> pystr list \<Rightarrow> pystr \<Rightarrow> (pystr \<times> pystr list) xrun" where
  "expand_embedded res x defer chain value =
     (case iter_expr_tokens (declared x) True value of (toks, refusal) \<Rightarrow>
        bindA (mapA (embed_token res x defer chain value) toks) (\<lambda>parts.
          case refusal of
            None \<Rightarrow> ret (concat (map fst parts), concat (map snd parts))
          | Some e \<Rightarrow> raise (expr_fault e)))"

definition resolve_whole_value_var :: "expander \<Rightarrow> pystr \<Rightarrow> store_value option xrun" where
  "resolve_whole_value_var x name =
     bindA (settle_expr (resolve_var (ctx x) name)) (\<lambda>v. ret (map_option (\<lambda>t. SLeaf (LStr t)) v))"

text \<open>A string in the host's space, or deferred; with the references that made it \<open>None\<close>.\<close>

definition expand_str ::
  "resolver \<Rightarrow> expander \<Rightarrow> bool \<Rightarrow> pystr list \<Rightarrow> pystr \<Rightarrow> (store_value option \<times> pystr list) xrun" where
  "expand_str res x defer chain value =
     (case is_whole_value_ref value of
        Some name \<Rightarrow>
          bindA (res name (chain @ [name]) False) (\<lambda>r.
            ret (case r of
                   Some (SLeaf (LStr s)) \<Rightarrow> Some (SLeaf (LStr (if defer then literal_expr s else s)))
                 | _ \<Rightarrow> r,
                 if r = none_value then [name] else []))
      | None \<Rightarrow>
          (case if defer then None else is_whole_value_var value of
             Some name \<Rightarrow> bindA (resolve_whole_value_var x name) (\<lambda>r. ret (r, []))
           | None \<Rightarrow>
               bindA (expand_embedded res x defer chain value) (\<lambda>(text', nones).
                 ret (if nones = [] then Some (SLeaf (LStr text')) else none_value, nones))))"

section \<open>Leaves\<close>

text \<open>An expansion that leaves nothing to point at.\<close>

abbreviation pathless :: "store_value option \<Rightarrow> bool" where
  "pathless r \<equiv> r = None \<or> r = none_value"

definition require_path :: "pystr list \<Rightarrow> pystr \<Rightarrow> store_value option \<Rightarrow> pystr xrun" where
  "require_path chain raw got = (case got of
     Some (SLeaf (LStr s)) \<Rightarrow> ret s
   | _ \<Rightarrow> raise (Shape (NotAPath (hd chain) raw)))"

definition refuse_relative_host_src :: "pystr list \<Rightarrow> pystr \<Rightarrow> pystr \<Rightarrow> unit xrun" where
  "refuse_relative_host_src chain raw expanded =
     (if expanded = [] \<or> hd expanded = slash then ret ()
      else raise (Shape (RelativeSource (hd chain) raw expanded)))"

definition expand_bind ::
  "resolver \<Rightarrow> expander \<Rightarrow> pystr list \<Rightarrow> pystr \<Rightarrow> pystr \<Rightarrow> pystr option \<Rightarrow> store_value option xrun" where
  "expand_bind res x chain host box opts =
     bindA (expand_str res x False chain host) (\<lambda>(h, _).
       if pathless h then ret h
       else bindA (expand_str res x True chain box) (\<lambda>(b, _).
         if pathless b then raise (Shape (NoDestination box (b = None)))
         else bindA (require_path chain host h) (\<lambda>h'.
              bindA (require_path chain box b) (\<lambda>b'.
              bindA (refuse_relative_host_src chain host h') (\<lambda>_.
              ret (Some (SLeaf (LBind h' b' opts))))))))"

text \<open>An entry, with the references that made its source \<open>None\<close>.\<close>

definition expand_bind_entry ::
  "resolver \<Rightarrow> expander \<Rightarrow> pystr list \<Rightarrow> pystr \<Rightarrow> pystr option \<Rightarrow> (store_value option \<times> pystr list) xrun" where
  "expand_bind_entry res x chain src opts =
     bindA (expand_str res x False chain src) (\<lambda>(s, nones).
       if pathless s then ret (s, nones)
       else bindA (require_path chain src s) (\<lambda>s'.
            bindA (refuse_relative_host_src chain src s') (\<lambda>_.
            ret (Some (SLeaf (LEntry s' opts)), nones))))"

definition expand_leaf :: "resolver \<Rightarrow> expander \<Rightarrow> pystr list \<Rightarrow> leaf \<Rightarrow> store_value option xrun" where
  "expand_leaf res x path value =
     (case value of
        LBind host box opts \<Rightarrow> expand_bind res x [join_char dot path] host box opts
      | LEntry src opts \<Rightarrow>
          bindA (expand_bind_entry res x [join_char dot path] src opts) (\<lambda>(entry, nones).
            bindA (whenA (entry = none_value \<and> nones \<noteq> [])
                     (change (\<lambda>s. s\<lparr>null_sources := dict_set path nones (null_sources s)\<rparr>)))
              (\<lambda>_. ret entry))
      | LStr s \<Rightarrow>
          if is_verbatim_text path then ret (Some (SLeaf (LStr s)))
          else bindA (expand_str res x False [join_char dot path] s) (\<lambda>(r, _). ret r)
      | _ \<Rightarrow> ret (Some (SLeaf value)))"

text \<open>The key a leaf is filed under; \<open>None\<close> skips a seeded layer.\<close>

definition expand_dest_key ::
  "resolver \<Rightarrow> expander \<Rightarrow> pystr list \<Rightarrow> bool \<Rightarrow> pystr \<Rightarrow> leaf \<Rightarrow> pystr option xrun" where
  "expand_dest_key res x path seed key value =
     (case value of
        LEntry _ _ \<Rightarrow>
          bindA (expand_str res x True [join_char dot path] key) (\<lambda>(dest, _).
            if dest = none_value \<and> seed then ret None
            else if pathless dest then raise (Shape (NoDestination key (dest = None)))
            else bindA (require_path [join_char dot path] key dest) (\<lambda>d. ret (Some d)))
      | _ \<Rightarrow> ret (Some key))"

section \<open>The walk\<close>

text \<open>
  A leaf's own frame: what is read while it is expanded, and its label for messages. Popped
  whether or not the leaf was refused.
\<close>

definition leaf_frame :: "pystr list \<Rightarrow> 'a xrun \<Rightarrow> ('a \<times> pystr set) xrun" where
  "leaf_frame path m = (\<lambda>s.
     case m (s\<lparr>reading := {} # reading s, leaf_labels := leaf_label path # leaf_labels s\<rparr>) of
       (r, t) \<Rightarrow>
         (case r of Inl e \<Rightarrow> Inl e | Inr y \<Rightarrow> Inr (y, hd (reading t)),
          t\<lparr>reading := tl (reading t), leaf_labels := tl (leaf_labels t)\<rparr>))"

text \<open>The key and value of one leaf; \<open>None\<close> when its layer is skipped.\<close>

definition leaf_entry ::
  "resolver \<Rightarrow> expander \<Rightarrow> pystr list \<Rightarrow> bool \<Rightarrow> pystr \<Rightarrow> leaf \<Rightarrow> (pystr \<times> store_value option) option xrun" where
  "leaf_entry res x path seed key value =
     bindA (expand_dest_key res x path seed key value) (\<lambda>out_key.
       case out_key of
         None \<Rightarrow> ret None
       | Some k \<Rightarrow> bindA (expand_leaf res x path value) (\<lambda>r. ret (Some (k, r))))"

text \<open>
  \<open>_defect_past_blindness\<close>: the leaf once more with blind referents taken as absent, for the
  refusal behind the blindness; all the tables of the pass are put back.
\<close>

definition defect_past_blindness ::
  "resolver \<Rightarrow> expander \<Rightarrow> pystr list \<Rightarrow> bool \<Rightarrow> pystr \<Rightarrow> leaf \<Rightarrow> expand_fault option xrun" where
  "defect_past_blindness res x path seed key value = (\<lambda>s.
     case leaf_entry res x path seed key value (s\<lparr>blind_absent := True\<rparr>) of (r, t) \<Rightarrow>
       let back = t\<lparr>blind_absent := False, memo := memo s, deps := deps s, height := height s,
                    errors := errors s, null_sources := null_sources s, refs_read := refs_read s,
                    dest_keys := dest_keys s, reading := reading s\<rparr>
       in case r of
            Inr _ \<Rightarrow> (Inr None, back)
          | Inl e \<Rightarrow>
              if \<not> caught e then (Inl e, back)
              else (Inr (case e of Shape _ \<Rightarrow> None | _ \<Rightarrow> Some (defect_reason e)), back))"

text \<open>
  The leaf in its mode: strict names a refusal of the grammar and raises it, lenient records
  every refusal and leaves the leaf out.
\<close>

definition guarded_leaf ::
  "resolver \<Rightarrow> expander \<Rightarrow> pystr list \<Rightarrow> bool \<Rightarrow> pystr \<Rightarrow> leaf \<Rightarrow> (pystr \<times> store_value option) option xrun" where
  "guarded_leaf res x path seed key value =
     (if collect_errors x then
        catch caught (leaf_entry res x path seed key value) (\<lambda>e.
          bindA (case e of
                   Defect (Dangling _ None) \<Rightarrow>
                     bindA (defect_past_blindness res x path seed key value)
                       (\<lambda>d. ret (case d of None \<Rightarrow> defect_reason e | Some d' \<Rightarrow> d'))
                 | _ \<Rightarrow> ret (defect_reason e)) (\<lambda>reason.
          bindA (change (\<lambda>s. s\<lparr>errors := dict_set (join_char dot path) reason (errors s)\<rparr>)) (\<lambda>_.
          ret None)))
      else catch is_grammar (leaf_entry res x path seed key value)
             (\<lambda>e. raise (naming (leaf_label path) path None e)))"

definition is_entry :: "leaf \<Rightarrow> bool" where
  "is_entry l \<longleftrightarrow> (case l of LEntry _ _ \<Rightarrow> True | _ \<Rightarrow> False)"

definition put_item :: "keystore \<Rightarrow> pystr \<Rightarrow> store_value \<Rightarrow> keystore xrun" where
  "put_item out key v = (case set_item out key v of Inl e \<Rightarrow> raise (ReservedName e) | Inr ks \<Rightarrow> ret ks)"

text \<open>One leaf of a node: its record in the side tables, and its place in the fresh node.\<close>

definition place_leaf ::
  "resolver \<Rightarrow> expander \<Rightarrow> pystr list \<Rightarrow> pystr \<Rightarrow> leaf \<Rightarrow> keystore \<Rightarrow> keystore xrun" where
  "place_leaf res x path key value out =
     bindA (leaf_frame (path @ [key])
              (guarded_leaf res x (path @ [key]) (path \<noteq> [] \<and> last path = u ''seeded'') key value))
       (\<lambda>(got, read).
          case got of
            None \<Rightarrow> ret out
          | Some (out_key, r) \<Rightarrow>
              bindA (whenA (read \<noteq> {})
                       (change (\<lambda>s. s\<lparr>refs_read := dict_set (path @ [out_key]) read (refs_read s)\<rparr>))) (\<lambda>_.
              bindA (whenA (is_entry value)
                       (change (\<lambda>s. s\<lparr>dest_keys := dict_set (path @ [key]) out_key (dest_keys s)\<rparr>))) (\<lambda>_.
              case r of
                None \<Rightarrow> ret out
              | Some v \<Rightarrow>
                  if is_entry value \<and> map_of out out_key \<noteq> None
                  then raise (Shape (TwoBindings out_key key))
                  else put_item out out_key v)))"

text \<open>The fresh node is filled in the order of the old one.\<close>

fun expand_items :: "resolver \<Rightarrow> expander \<Rightarrow> pystr list \<Rightarrow> keystore \<Rightarrow> keystore \<Rightarrow> keystore xrun" where
  "expand_items res x path [] out = ret out"
| "expand_items res x path ((key, SNode sub) # items) out =
     (if path = [] \<and> key = PREF_ROOT
      then bindA (put_item out key (SNode (clone_store sub))) (expand_items res x path items)
      else bindA (expand_items res x (path @ [key]) sub []) (\<lambda>sub'.
           bindA (put_item out key (SNode sub')) (expand_items res x path items)))"
| "expand_items res x path ((key, SLeaf value) # items) out =
     bindA (place_leaf res x path key value out) (expand_items res x path items)"

definition expand_node :: "resolver \<Rightarrow> expander \<Rightarrow> pystr list \<Rightarrow> keystore \<Rightarrow> keystore xrun" where
  "expand_node res x path tree = expand_items res x path tree []"

section \<open>References\<close>

definition lookup_raw :: "expander \<Rightarrow> pystr \<Rightarrow> store_value option xrun" where
  "lookup_raw x name =
     (if name = PREF_ROOT \<or> prefix (PREF_ROOT @ [dot]) name then raise (PrefReference name)
      else if prefix (u ''config.'') name
      then ret (map_option (\<lambda>t. SLeaf (LStr t)) (map_of (foundation x) name))
      else ret (ks_lookup (snapshot x) (split_char dot name)))"

text \<open>\<open>_pop_reach\<close>: the innermost frame closes, its deepest chain goes to the frame above.\<close>

definition pop_reach :: "nat list \<Rightarrow> nat list" where
  "pop_reach rs = (case rs of r # r' # rest \<Rightarrow> max r' r # rest | _ \<Rightarrow> tl rs)"

text \<open>A resolution's frame: what it reads and how deep its chains go; popped in every case.\<close>

definition ref_frame :: "pystr list \<Rightarrow> 'a xrun \<Rightarrow> ('a \<times> pystr set \<times> nat) xrun" where
  "ref_frame chain m = (\<lambda>s.
     case m (s\<lparr>reading := {} # reading s, reach := length chain # reach s\<rparr>) of
       (r, t) \<Rightarrow>
         (case r of Inl e \<Rightarrow> Inl e | Inr y \<Rightarrow> Inr (y, hd (reading t), hd (reach t)),
          t\<lparr>reading := tl (reading t), reach := pop_reach (reach t)\<rparr>))"

definition settle :: "pystr \<Rightarrow> store_value option \<Rightarrow> pystr set \<Rightarrow> nat \<Rightarrow> store_value option xrun" where
  "settle name resolved read h =
     bindA (change (\<lambda>s. s\<lparr>deps := dict_set name read (deps s), reading := map (\<lambda>r. r \<union> read) (reading s),
                          height := dict_set name h (height s), memo := dict_set name resolved (memo s)\<rparr>))
       (\<lambda>_. ret resolved)"

text \<open>
  The table a reference names: its leaves start chains of their own, under the guard of the
  chain that led here. Lenient: the first refusal in it that is not blindness is the
  referring key's too.
\<close>

definition expand_table :: "resolver \<Rightarrow> expander \<Rightarrow> pystr list \<Rightarrow> pystr \<Rightarrow> keystore \<Rightarrow> store_value option xrun" where
  "expand_table res x chain name raw = (\<lambda>s.
     case expand_node res x (split_char dot name) raw
            (s\<lparr>reach := [], table_chain := table_chain s @ chain, errors := []\<rparr>) of
       (r, t) \<Rightarrow>
         let back = t\<lparr>reach := reach s, table_chain := table_chain s,
                      errors := fold (\<lambda>(k, e). dict_set k e) (errors t) (errors s)\<rparr>
         in case r of
              Inl e \<Rightarrow> (Inl e, back)
            | Inr tree \<Rightarrow>
                (case find (\<lambda>(_, e). \<not> is_blind e) (errors t) of
                   Some (l, e) \<Rightarrow> (Inl (Defect (InTable l name e)), back)
                 | None \<Rightarrow> (Inr (Some (SNode tree)), back)))"

primrec run_derivation :: "resolver \<Rightarrow> pystr list \<Rightarrow> derivation \<Rightarrow> store_value option xrun" where
  "run_derivation res chain Underivable = ret None"
| "run_derivation res chain (Derived v) = ret (Some v)"
| "run_derivation res chain (DerivationError msg) = raise (Refused (Other msg))"
| "run_derivation res chain (ReadKey key k) =
     bindA (res key (chain @ [key]) True) (\<lambda>got. run_derivation res chain (k got))"

definition derived :: "resolver \<Rightarrow> (pystr \<Rightarrow> derivation) \<Rightarrow> pystr list \<Rightarrow> pystr \<Rightarrow> store_value option xrun" where
  "derived res d chain name =
     bindA (ref_frame chain (run_derivation res chain (d name))) (\<lambda>(got, read, r).
       case got of None \<Rightarrow> ret None | Some v \<Rightarrow> settle name (Some v) read (r - length chain))"

text \<open>A referent's value, resolved as the leaf it is.\<close>

definition expand_referent ::
  "resolver \<Rightarrow> expander \<Rightarrow> pystr list \<Rightarrow> pystr \<Rightarrow> store_value \<Rightarrow> store_value option xrun" where
  "expand_referent res x chain name raw =
     (case raw of
        SNode ks \<Rightarrow> expand_table res x chain name ks
      | SLeaf (LBind host box opts) \<Rightarrow> expand_bind res x chain host box opts
      | SLeaf (LEntry src opts) \<Rightarrow> bindA (expand_bind_entry res x chain src opts) (\<lambda>(r, _). ret r)
      | SLeaf (LStr s) \<Rightarrow>
          if is_verbatim_text (split_char dot name) then ret (Some raw)
          else bindA (expand_str res x False chain s) (\<lambda>(r, _). ret r)
      | _ \<Rightarrow> ret (Some raw))"

text \<open>What a reference to nothing is.\<close>

definition absent_key :: "expander \<Rightarrow> pystr list \<Rightarrow> pystr \<Rightarrow> bool \<Rightarrow> store_value option xrun" where
  "absent_key x chain name absent_ok = (\<lambda>s.
     let dangling = collect_errors x \<and> \<not> absent_ok;
         leaf = (case leaf_labels s of [] \<Rightarrow> hd chain | l # _ \<Rightarrow> l);
         holder = (if length chain = 2 then leaf else last (butlast chain))
     in if dangling \<and> set_reason x name \<noteq> None
        then (Inl (Defect (Dangling name (set_reason x name))), s)
        else if dangling \<and> \<not> blind_absent s then (Inl (Defect (Dangling name None)), s)
        else (case no_key x name of
                Some reason \<Rightarrow> (Inl (NoKey holder name reason leaf), s)
              | None \<Rightarrow>
                  (Inr None, if collect_errors x then s else s\<lparr>memo := dict_set name None (memo s)\<rparr>)))"

text \<open>The name a refusal of the grammar in a referent's own value is given.\<close>

definition name_referent :: "pystr \<Rightarrow> expand_fault \<Rightarrow> 'a xrun" where
  "name_referent name e = (\<lambda>s.
     let leaf = (case leaf_labels s of [] \<Rightarrow> name | l # _ \<Rightarrow> l)
     in (Inl (naming name (split_char dot name) (if leaf = name then None else Some leaf) e), s))"

text \<open>
  \<open>_resolve_ref\<close> up to its answer from the memo: the guard, on the depth the remembered key
  would add, and the record of what was read.
\<close>

definition ref_reach :: "pass \<Rightarrow> pystr \<Rightarrow> pystr list \<Rightarrow> nat" where
  "ref_reach s name chain = length chain +
     (if map_of (memo s) name = None then 0
      else case map_of (height s) name of None \<Rightarrow> 0 | Some h \<Rightarrow> h)"

definition enter_ref :: "expander \<Rightarrow> pystr \<Rightarrow> pystr list \<Rightarrow> unit xrun" where
  "enter_ref x name chain = (\<lambda>s.
     case guard_ref name (table_chain s @ butlast chain) (ref_reach s name chain - 1) of
       Inl e \<Rightarrow> (Inl (if collect_errors x then Defect (Refused e) else Refused e), s)
     | Inr _ \<Rightarrow>
         let read = insert name (case map_of (deps s) name of None \<Rightarrow> {} | Some d \<Rightarrow> d)
         in (Inr (), s\<lparr>reading := map (\<lambda>r. r \<union> read) (reading s),
                       reach := (case reach s of [] \<Rightarrow> [] | r # rs \<Rightarrow> max r (ref_reach s name chain) # rs)\<rparr>))"

definition resolve_found ::
  "resolver \<Rightarrow> expander \<Rightarrow> pystr list \<Rightarrow> pystr \<Rightarrow> store_value \<Rightarrow> store_value option xrun" where
  "resolve_found res x chain name raw =
     bindA (catch is_grammar (ref_frame chain (expand_referent res x chain name raw)) (name_referent name))
       (\<lambda>(r, read, h). settle name r read (h - length chain))"

definition resolve_missing ::
  "resolver \<Rightarrow> expander \<Rightarrow> pystr list \<Rightarrow> pystr \<Rightarrow> bool \<Rightarrow> store_value option xrun" where
  "resolve_missing res x chain name absent_ok =
     bindA (case derive x of None \<Rightarrow> ret None | Some d \<Rightarrow> derived res d chain name) (\<lambda>got.
       case got of Some v \<Rightarrow> ret (Some v) | None \<Rightarrow> absent_key x chain name absent_ok)"

definition resolve_step :: "resolver \<Rightarrow> expander \<Rightarrow> resolver" where
  "resolve_step res x name chain absent_ok =
     bindA (enter_ref x name chain) (\<lambda>_.
     bindA (gets (\<lambda>s. map_of (memo s) name)) (\<lambda>hit.
       case hit of
         Some r \<Rightarrow> ret r
       | None \<Rightarrow>
           bindA (lookup_raw x name) (\<lambda>raw.
             case raw of
               Some v \<Rightarrow> resolve_found res x chain name v
             | None \<Rightarrow> resolve_missing res x chain name absent_ok)))"

fun resolve_ref :: "nat \<Rightarrow> expander \<Rightarrow> resolver" where
  "resolve_ref 0 x = (\<lambda>_ _ _. raise OutOfFuel)"
| "resolve_ref (Suc n) x = resolve_step (resolve_ref n x) x"

section \<open>The pass\<close>

text \<open>
  A chain has at most \<open>MAX_REF_DEPTH\<close> references below its leaf, and chains nest at most once
  per table of the snapshot.
\<close>

definition expand_fuel :: "expander \<Rightarrow> nat" where
  "expand_fuel x = (MAX_REF_DEPTH + 2) * Suc (weight (snapshot x))"

definition expand_with :: "nat \<Rightarrow> expander \<Rightarrow> (expand_fault + keystore) \<times> pass" where
  "expand_with fuel x = expand_node (resolve_ref fuel x) x [] (snapshot x) init_pass"

definition expand :: "expander \<Rightarrow> (expand_fault + keystore) \<times> pass" where
  "expand x = expand_with (expand_fuel x) x"

end
