(* ===== verification/ExpandTotal.thy ===== *)
theory ExpandTotal imports Expand begin

text \<open>
  The expansion ends: within \<open>expand_fuel\<close> every reference is resolved or refused, whatever the
  store, the mode and the caller's derivations. The guard is what bounds it: along a chain the
  references are at most \<open>MAX_REF_DEPTH\<close>, and a table is never entered from within itself.
\<close>

section \<open>Two runs that agree\<close>

text \<open>
  Under the table chain \<open>tc\<close>: the two programs do the same, leave the table chain as it was, and
  do not run out of fuel.
\<close>

definition agree :: "pystr list \<Rightarrow> 'a xrun \<Rightarrow> 'a xrun \<Rightarrow> bool" where
  "agree tc m m' \<longleftrightarrow> (\<forall>s. table_chain s = tc \<longrightarrow>
     m s = m' s \<and> table_chain (snd (m s)) = tc \<and> fst (m s) \<noteq> Inl OutOfFuel)"

named_theorems agree_intros "programs that agree when their parts do"

lemma agreeD:
  assumes "agree tc m m'" "table_chain s = tc"
  shows "m' s = m s" "table_chain (snd (m s)) = tc" "fst (m s) \<noteq> Inl OutOfFuel"
  using assms by (simp add: agree_def, metis agree_def, metis agree_def)

lemma agree_ret [agree_intros]: "agree tc (ret y) (ret y)"
  by (simp add: agree_def ret_def)

lemma agree_raise [agree_intros]: "e \<noteq> OutOfFuel \<Longrightarrow> agree tc (raise e) (raise e)"
  by (simp add: agree_def raise_def)

lemma agree_gets [agree_intros]: "agree tc (gets f) (gets f)"
  by (simp add: agree_def gets_def)

lemma agree_change [agree_intros]: "(\<And>s. table_chain (f s) = table_chain s) \<Longrightarrow> agree tc (change f) (change f)"
  by (simp add: agree_def change_def)

lemma agree_bind_result:
  "agree tc m m' \<Longrightarrow> (\<And>y s t. m s = (Inr y, t) \<Longrightarrow> agree tc (f y) (f' y)) \<Longrightarrow>
   agree tc (bindA m f) (bindA m' f')"
  unfolding agree_def bindA_def
  by (auto split: prod.splits sum.splits) (metis fst_conv snd_conv)+

lemma agree_bind [agree_intros]:
  "agree tc m m' \<Longrightarrow> (\<And>y. agree tc (f y) (f' y)) \<Longrightarrow> agree tc (bindA m f) (bindA m' f')"
  by (rule agree_bind_result)

lemma agree_catch [agree_intros]:
  "agree tc m m' \<Longrightarrow> (\<And>e. p e \<Longrightarrow> agree tc (h e) (h' e)) \<Longrightarrow> agree tc (catch p m h) (catch p m' h')"
  unfolding agree_def catch_def
  by (auto split: prod.splits sum.splits) (metis fst_conv snd_conv)+

lemma agree_when [agree_intros]: "agree tc m m' \<Longrightarrow> agree tc (whenA b m) (whenA b m')"
  by (simp add: whenA_def agree_ret)

lemma agree_mapA [agree_intros]:
  "(\<And>y. y \<in> set ys \<Longrightarrow> agree tc (f y) (f' y)) \<Longrightarrow> agree tc (mapA f ys) (mapA f' ys)"
  by (induction ys) (auto intro!: agree_intros)

lemma agree_option [agree_intros]:
  "agree tc m m' \<Longrightarrow> (\<And>y. agree tc (f y) (f' y)) \<Longrightarrow>
   agree tc (case r of None \<Rightarrow> m | Some y \<Rightarrow> f y) (case r of None \<Rightarrow> m' | Some y \<Rightarrow> f' y)"
  by (cases r) auto

lemma agree_if [agree_intros]:
  "(b \<Longrightarrow> agree tc m m') \<Longrightarrow> (\<not> b \<Longrightarrow> agree tc n n') \<Longrightarrow> agree tc (if b then m else n) (if b then m' else n')"
  by simp

lemma agree_pair [agree_intros]:
  "(\<And>a b. agree tc (f a b) (f' a b)) \<Longrightarrow> agree tc (case p of (a, b) \<Rightarrow> f a b) (case p of (a, b) \<Rightarrow> f' a b)"
  by (cases p) simp

section \<open>The code between two references\<close>

lemma agree_settle_expr [agree_intros]: "agree tc (settle_expr r) (settle_expr r)"
  by (auto simp: settle_expr_def expr_fault_def agree_def ret_def raise_def split: sum.splits)

lemma agree_require_path [agree_intros]: "agree tc (require_path c raw got) (require_path c raw got)"
  by (auto simp: require_path_def intro!: agree_intros split: option.splits store_value.splits leaf.splits)

lemma agree_relative [agree_intros]:
  "agree tc (refuse_relative_host_src c raw e) (refuse_relative_host_src c raw e)"
  by (auto simp: refuse_relative_host_src_def intro!: agree_intros)

lemma agree_put_item [agree_intros]: "agree tc (put_item out k v) (put_item out k v)"
  by (auto simp: put_item_def intro!: agree_intros split: sum.splits)

text \<open>Two resolvers that agree on every reference from this chain.\<close>

definition chain_agrees :: "pystr list \<Rightarrow> pystr list \<Rightarrow> resolver \<Rightarrow> resolver \<Rightarrow> bool" where
  "chain_agrees tc chain res res' \<longleftrightarrow>
     (\<forall>name ok. agree tc (res name (chain @ [name]) ok) (res' name (chain @ [name]) ok))"

lemma chain_agreesD: "chain_agrees tc chain res res' \<Longrightarrow>
    agree tc (res name (chain @ [name]) ok) (res' name (chain @ [name]) ok)"
  by (simp add: chain_agrees_def)

lemma agree_expr_fault [agree_intros]: "agree tc (raise (expr_fault e)) (raise (expr_fault e))"
  by (rule agree_raise) (simp add: expr_fault_def)

lemma agree_whole_var [agree_intros]: "agree tc (resolve_whole_value_var x n) (resolve_whole_value_var x n)"
  by (auto simp: resolve_whole_value_var_def intro!: agree_intros)

lemma agree_embedded:
  assumes "chain_agrees tc chain res res'"
  shows "agree tc (expand_embedded res x defer chain v) (expand_embedded res' x defer chain v)"
proof -
  have "agree tc (embed_token res x defer chain v tok) (embed_token res' x defer chain v tok)" for tok
    unfolding embed_token_def lookup_str_def by (intro agree_intros chain_agreesD [OF assms])
  then show ?thesis
    unfolding expand_embedded_def by (auto intro!: agree_intros)
qed

lemma agree_expand_str:
  assumes "chain_agrees tc chain res res'"
  shows "agree tc (expand_str res x defer chain v) (expand_str res' x defer chain v)"
  unfolding expand_str_def by (intro agree_intros agree_embedded [OF assms] chain_agreesD [OF assms])

lemma agree_expand_bind:
  "chain_agrees tc chain res res' \<Longrightarrow>
   agree tc (expand_bind res x chain h b opts) (expand_bind res' x chain h b opts)"
  unfolding expand_bind_def by (auto intro!: agree_intros agree_expand_str)

lemma agree_expand_bind_entry:
  "chain_agrees tc chain res res' \<Longrightarrow>
   agree tc (expand_bind_entry res x chain s opts) (expand_bind_entry res' x chain s opts)"
  unfolding expand_bind_entry_def by (auto intro!: agree_intros agree_expand_str)

lemma agree_expand_leaf:
  "chain_agrees tc [join_char dot path] res res' \<Longrightarrow>
   agree tc (expand_leaf res x path v) (expand_leaf res' x path v)"
  unfolding expand_leaf_def
  by (cases v) (auto intro!: agree_intros agree_expand_str agree_expand_bind agree_expand_bind_entry)

lemma agree_expand_dest_key:
  "chain_agrees tc [join_char dot path] res res' \<Longrightarrow>
   agree tc (expand_dest_key res x path seed k v) (expand_dest_key res' x path seed k v)"
  unfolding expand_dest_key_def
  by (cases v) (auto intro!: agree_intros agree_expand_str)

lemma agree_leaf_entry:
  "chain_agrees tc [join_char dot path] res res' \<Longrightarrow>
   agree tc (leaf_entry res x path seed k v) (leaf_entry res' x path seed k v)"
  unfolding leaf_entry_def
  by (auto intro!: agree_intros agree_expand_leaf agree_expand_dest_key)

lemma agree_leaf_frame [agree_intros]: "agree tc m m' \<Longrightarrow> agree tc (leaf_frame p m) (leaf_frame p m')"
  unfolding agree_def leaf_frame_def
  by (auto split: prod.splits sum.splits) (metis (mono_tags, lifting) fst_conv pass.simps(7) pass.surjective
      pass.update_convs snd_conv)+


text \<open>The second walk of a leaf and the lenient record.\<close>

lemma agree_past_blindness:
  assumes "chain_agrees tc [join_char dot path] res res'"
  shows "agree tc (defect_past_blindness res x path seed k v) (defect_past_blindness res' x path seed k v)"
  unfolding agree_def
proof (intro allI impI)
  fix s :: pass
  assume s: "table_chain s = tc"
  obtain r t where m: "leaf_entry res x path seed k v (s\<lparr>blind_absent := True\<rparr>) = (r, t)" by fastforce
  have "table_chain (s\<lparr>blind_absent := True\<rparr>) = tc" using s by simp
  from agreeD [OF agree_leaf_entry [OF assms] this, of x seed k v] m
  have "leaf_entry res' x path seed k v (s\<lparr>blind_absent := True\<rparr>) = (r, t)" "table_chain t = tc"
    "r \<noteq> Inl OutOfFuel" by auto
  with m show "defect_past_blindness res x path seed k v s = defect_past_blindness res' x path seed k v s \<and>
      table_chain (snd (defect_past_blindness res x path seed k v s)) = tc \<and>
      fst (defect_past_blindness res x path seed k v s) \<noteq> Inl OutOfFuel"
    by (auto simp: defect_past_blindness_def Let_def split: sum.splits)
qed

lemma naming_fuel: "is_grammar f \<Longrightarrow> naming e p l f \<noteq> OutOfFuel"
  by (cases "(e, p, l, f)" rule: naming.cases) auto

lemma agree_guarded_leaf:
  assumes "chain_agrees tc [join_char dot path] res res'"
  shows "agree tc (guarded_leaf res x path seed k v) (guarded_leaf res' x path seed k v)"
proof -
  have handler: "agree tc
      (case e of Defect (Dangling _ None) \<Rightarrow>
           bindA (defect_past_blindness res x path seed k v) (\<lambda>d. ret (case d of None \<Rightarrow> defect_reason e | Some d' \<Rightarrow> d'))
         | _ \<Rightarrow> ret (defect_reason e))
      (case e of Defect (Dangling _ None) \<Rightarrow>
           bindA (defect_past_blindness res' x path seed k v) (\<lambda>d. ret (case d of None \<Rightarrow> defect_reason e | Some d' \<Rightarrow> d'))
         | _ \<Rightarrow> ret (defect_reason e))" for e
    by (auto intro!: agree_intros agree_past_blindness [OF assms] split: expand_fault.splits option.splits)
  show ?thesis
    unfolding guarded_leaf_def
    by (intro agree_intros agree_leaf_entry [OF assms] handler naming_fuel) simp_all
qed

lemma agree_place_leaf:
  assumes "\<And>leaf. chain_agrees tc [leaf] res res'"
  shows "agree tc (place_leaf res x path k v out) (place_leaf res' x path k v out)"
  unfolding place_leaf_def
  by (intro agree_intros agree_guarded_leaf assms) simp_all

lemma agree_expand_items:
  assumes "\<And>leaf. chain_agrees tc [leaf] res res'"
  shows "agree tc (expand_items res x path items out) (expand_items res' x path items out)"
  using assms
proof (induction res x path items out rule: expand_items.induct)
  case (2 res x path key sub items out)
  then show ?case by (auto intro!: agree_intros)
next
  case (3 res x path key v items out)
  then show ?case by (auto intro!: agree_intros agree_place_leaf)
qed (auto intro: agree_intros)

section \<open>A reference\<close>

lemma agree_ref_frame [agree_intros]:
  assumes "agree tc m m'"
  shows "agree tc (ref_frame c m) (ref_frame c m')"
  unfolding agree_def
proof (intro allI impI)
  fix s :: pass
  assume "table_chain s = tc"
  then have "table_chain (s\<lparr>reading := {} # reading s, reach := length c # reach s\<rparr>) = tc" by simp
  from agreeD [OF assms this]
  show "ref_frame c m s = ref_frame c m' s \<and> table_chain (snd (ref_frame c m s)) = tc \<and>
      fst (ref_frame c m s) \<noteq> Inl OutOfFuel"
    by (cases "m (s\<lparr>reading := {} # reading s, reach := length c # reach s\<rparr>)")
      (auto simp: ref_frame_def split: sum.splits)
qed

lemma agree_settle [agree_intros]: "agree tc (settle n r d h) (settle n r d h)"
  unfolding settle_def by (intro agree_intros) simp

lemma agree_lookup_raw [agree_intros]: "agree tc (lookup_raw x n) (lookup_raw x n)"
  unfolding lookup_raw_def by (intro agree_intros) simp

lemma agree_absent_key [agree_intros]: "agree tc (absent_key x c n ok) (absent_key x c n ok)"
  by (auto simp: agree_def absent_key_def Let_def split: option.splits)

lemma agree_name_referent [agree_intros]: "is_grammar e \<Longrightarrow> agree tc (name_referent n e) (name_referent n e)"
  by (auto simp: agree_def name_referent_def Let_def naming_fuel)

lemma agree_enter_ref [agree_intros]: "agree tc (enter_ref x n c) (enter_ref x n c)"
  by (auto simp: agree_def enter_ref_def Let_def split: sum.splits)

lemma agree_run_derivation:
  "chain_agrees tc chain res res' \<Longrightarrow> agree tc (run_derivation res chain d) (run_derivation res' chain d)"
proof (induction d)
  case (ReadKey key k)
  show ?case
    by (simp, intro agree_bind chain_agreesD [OF ReadKey.prems] ReadKey.IH [OF rangeI ReadKey.prems])
qed (simp_all add: agree_intros)

lemma agree_derived:
  "chain_agrees tc chain res res' \<Longrightarrow> agree tc (derived res d chain n) (derived res' d chain n)"
  unfolding derived_def by (intro agree_intros agree_run_derivation)

lemma agree_expand_table:
  assumes "\<And>leaf. chain_agrees (tc @ chain) [leaf] res res'"
  shows "agree tc (expand_table res x chain n raw) (expand_table res' x chain n raw)"
  unfolding agree_def
proof (intro allI impI)
  fix s :: pass
  assume s: "table_chain s = tc"
  let ?s = "s\<lparr>reach := [], table_chain := table_chain s @ chain, errors := []\<rparr>"
  have "table_chain ?s = tc @ chain" using s by simp
  from agreeD [OF agree_expand_items [OF assms] this, of x "split_char dot n" raw "[]"]
  have "expand_node res' x (split_char dot n) raw ?s = expand_node res x (split_char dot n) raw ?s"
    "fst (expand_node res x (split_char dot n) raw ?s) \<noteq> Inl OutOfFuel"
    by (simp_all add: expand_node_def)
  then show "expand_table res x chain n raw s = expand_table res' x chain n raw s \<and>
      table_chain (snd (expand_table res x chain n raw s)) = tc \<and>
      fst (expand_table res x chain n raw s) \<noteq> Inl OutOfFuel"
    using s by (auto simp: expand_table_def Let_def split: prod.splits sum.splits option.splits)
qed

lemma agree_expand_referent:
  assumes "chain_agrees tc chain res res'"
    and "\<And>ks leaf. v = SNode ks \<Longrightarrow> chain_agrees (tc @ chain) [leaf] res res'"
  shows "agree tc (expand_referent res x chain n v) (expand_referent res' x chain n v)"
  using assms unfolding expand_referent_def
  by (auto intro!: agree_intros agree_expand_table agree_expand_bind agree_expand_bind_entry agree_expand_str
      split: store_value.splits leaf.splits)

text \<open>Nothing past the guard runs when the guard refuses.\<close>

lemma enter_ref_passes:
  assumes "enter_ref x n c s = (Inr y, t)"
  shows "n \<notin> set (table_chain s @ butlast c)" "length c \<le> MAX_REF_DEPTH"
    "table_chain t = table_chain s" "memo t = memo s"
  using assms
  by (auto simp: enter_ref_def guard_ref_def ref_reach_def Let_def result_simps split: sum.splits if_splits)

lemma agree_bind_enter:
  assumes "n \<notin> set (tc @ butlast c) \<Longrightarrow> length c \<le> MAX_REF_DEPTH \<Longrightarrow> agree tc m m'"
  shows "agree tc (bindA (enter_ref x n c) (\<lambda>_. m)) (bindA (enter_ref x n c) (\<lambda>_. m'))"
proof (cases "n \<notin> set (tc @ butlast c) \<and> length c \<le> MAX_REF_DEPTH")
  case True
  then show ?thesis using assms by (intro agree_intros) simp
next
  case False
  show ?thesis
    unfolding agree_def
  proof (intro allI impI)
    fix s :: pass
    assume s: "table_chain s = tc"
    obtain r t where r: "enter_ref x n c s = (r, t)" by fastforce
    have "\<nexists>y. r = Inr y" using enter_ref_passes(1,2) [of x n c s _ t] False s r by auto
    then obtain e where e: "r = Inl e" by (cases r) auto
    then show "bindA (enter_ref x n c) (\<lambda>_. m) s = bindA (enter_ref x n c) (\<lambda>_. m') s \<and>
      table_chain (snd (bindA (enter_ref x n c) (\<lambda>_. m) s)) = tc \<and>
      fst (bindA (enter_ref x n c) (\<lambda>_. m) s) \<noteq> Inl OutOfFuel"
      using agreeD(2,3) [OF agree_enter_ref s, of x n c] r by (simp add: bindA_def)
  qed
qed

section \<open>The tables of a store\<close>

fun node_paths :: "keystore \<Rightarrow> pystr list list" where
  "node_paths ks = concat (map (\<lambda>(k, v). case v of
     SNode sub \<Rightarrow> [k] # map ((#) k) (node_paths sub) | SLeaf l \<Rightarrow> []) ks)"

declare node_paths.simps [simp del]

lemma length_node_paths: "length (node_paths ks) < weight ks"
proof (induction ks rule: node_paths.induct)
  case (1 ks)
  have "length (node_paths ks) \<le> sum_list (map (\<lambda>(k, v). case v of SNode sub \<Rightarrow> weight sub | SLeaf l \<Rightarrow> 0) ks)"
    unfolding node_paths.simps [of ks] length_concat map_map
    by (rule sum_list_mono) (use 1 in \<open>force simp: Suc_le_eq split: store_value.splits prod.splits\<close>)
  then show ?case by (simp add: weight.simps [of ks])
qed

lemma lookup_node_path:
  "ks_lookup ks p = Some (SNode t) \<Longrightarrow> p \<noteq> [] \<Longrightarrow> p \<in> set (node_paths ks)"
proof (induction ks p rule: ks_lookup.induct)
  case (2 ks seg)
  then have "(seg, SNode t) \<in> set ks" by (simp add: map_of_SomeD)
  then show ?case by (subst node_paths.simps) force
next
  case (3 ks seg seg' rest)
  then obtain sub where sub: "map_of ks seg = Some (SNode sub)" "ks_lookup sub (seg' # rest) = Some (SNode t)"
    by (auto split: option.splits store_value.splits)
  then have "(seg, SNode sub) \<in> set ks" "seg' # rest \<in> set (node_paths sub)"
    using "3.IH" by (auto simp: map_of_SomeD)
  then show ?case by (subst node_paths.simps) force
qed simp

definition tables :: "expander \<Rightarrow> pystr set" where
  "tables x = {n. \<exists>ks. ks_lookup (snapshot x) (split_char dot n) = Some (SNode ks)}"

lemma tables_bounded: "finite (tables x)" "card (tables x) < weight (snapshot x)"
proof -
  have sub: "split_char dot ` tables x \<subseteq> set (node_paths (snapshot x))"
    by (auto simp: tables_def split_char_nonempty intro: lookup_node_path)
  have inj: "inj_on (split_char dot) (tables x)"
    by (metis inj_onI join_split_char)
  show fin: "finite (tables x)"
    using sub inj by (meson List.finite_set finite_imageD finite_subset)
  have "card (tables x) \<le> card (set (node_paths (snapshot x)))"
    using card_mono [OF List.finite_set sub] card_image [OF inj] by simp
  then show "card (tables x) < weight (snapshot x)"
    using card_length length_node_paths order.strict_trans1 by (metis order.trans)
qed

lemma tables_room:
  assumes "n \<in> tables x" "n \<notin> set tc" "n \<in> set chain"
  shows "card (tables x - set (tc @ chain)) < card (tables x - set tc)"
  using assms tables_bounded(1) by (intro psubset_card_mono) auto

section \<open>The expansion ends\<close>

lemma lookup_raw_table: "lookup_raw x n s = (Inr (Some (SNode ks)), t) \<Longrightarrow> n \<in> tables x"
  by (auto simp: lookup_raw_def tables_def ret_def raise_def split: if_splits)

lemma agree_resolve_found:
  "agree tc (expand_referent res x chain n v) (expand_referent res' x chain n v) \<Longrightarrow>
   agree tc (resolve_found res x chain n v) (resolve_found res' x chain n v)"
  unfolding resolve_found_def by (intro agree_intros)

lemma agree_resolve_missing:
  "chain_agrees tc chain res res' \<Longrightarrow>
   agree tc (resolve_missing res x chain n ok) (resolve_missing res' x chain n ok)"
  unfolding resolve_missing_def by (intro agree_intros agree_derived)

lemma agree_resolve_step:
  assumes "name \<notin> set (tc @ butlast chain) \<Longrightarrow> length chain \<le> MAX_REF_DEPTH \<Longrightarrow>
      chain_agrees tc chain res res'"
    and "\<And>leaf. name \<notin> set (tc @ butlast chain) \<Longrightarrow> length chain \<le> MAX_REF_DEPTH \<Longrightarrow> name \<in> tables x \<Longrightarrow>
      chain_agrees (tc @ chain) [leaf] res res'"
  shows "agree tc (resolve_step res x name chain ok) (resolve_step res' x name chain ok)"
  unfolding resolve_step_def
proof (rule agree_bind_enter)
  assume fresh: "name \<notin> set (tc @ butlast chain)" and deep: "length chain \<le> MAX_REF_DEPTH"
  note same = assms(1) [OF fresh deep]
  have raw: "agree tc (case raw of Some v \<Rightarrow> resolve_found res x chain name v | None \<Rightarrow> resolve_missing res x chain name ok)
      (case raw of Some v \<Rightarrow> resolve_found res' x chain name v | None \<Rightarrow> resolve_missing res' x chain name ok)"
    if "lookup_raw x name s = (Inr raw, t)" for raw s t
    using that lookup_raw_table
    by (cases raw) (auto intro!: agree_resolve_found agree_resolve_missing agree_expand_referent same
        assms(2) [OF fresh deep])
  show "agree tc
      (bindA (gets (\<lambda>s. map_of (memo s) name)) (\<lambda>hit. case hit of Some r \<Rightarrow> ret r | None \<Rightarrow>
        bindA (lookup_raw x name) (\<lambda>raw. case raw of Some v \<Rightarrow> resolve_found res x chain name v
                                            | None \<Rightarrow> resolve_missing res x chain name ok)))
      (bindA (gets (\<lambda>s. map_of (memo s) name)) (\<lambda>hit. case hit of Some r \<Rightarrow> ret r | None \<Rightarrow>
        bindA (lookup_raw x name) (\<lambda>raw. case raw of Some v \<Rightarrow> resolve_found res' x chain name v
                                            | None \<Rightarrow> resolve_missing res' x chain name ok)))"
    by (rule agree_bind [OF agree_gets], rule agree_option [OF _ agree_ret],
        rule agree_bind_result [OF agree_lookup_raw raw])
qed

text \<open>The fuel a reference needs: its place in the chain, and the tables not entered yet.\<close>

definition fuel_for :: "expander \<Rightarrow> pystr list \<Rightarrow> pystr list \<Rightarrow> nat" where
  "fuel_for x tc chain =
     (MAX_REF_DEPTH + 2) * card (tables x - set tc) + (MAX_REF_DEPTH + 2 - length chain)"

lemma fuel_for_step: "length chain \<le> MAX_REF_DEPTH \<Longrightarrow> fuel_for x tc (chain @ [n]) < fuel_for x tc chain"
  by (simp add: fuel_for_def)

lemma fuel_for_table:
  assumes "name \<in> tables x" "name \<notin> set tc" "name \<in> set chain" "length chain \<le> MAX_REF_DEPTH"
  shows "fuel_for x (tc @ chain) [leaf, n] < fuel_for x tc chain"
proof -
  have "(MAX_REF_DEPTH + 2) * Suc (card (tables x - set (tc @ chain)))
      \<le> (MAX_REF_DEPTH + 2) * card (tables x - set tc)"
    using tables_room [OF assms(1-3)] by (intro mult_le_mono) simp_all
  then show ?thesis using assms(4) by (simp add: fuel_for_def)
qed

lemma resolve_ref_agrees:
  assumes "fuel_for x tc (c @ [name]) \<le> n" "fuel_for x tc (c @ [name]) \<le> m"
    "length c \<le> MAX_REF_DEPTH"
  shows "agree tc (resolve_ref n x name (c @ [name]) ok) (resolve_ref m x name (c @ [name]) ok)"
  using assms
proof (induction n arbitrary: m tc c name ok)
  case 0
  then show ?case by (simp add: fuel_for_def)
next
  case (Suc n)
  then obtain m' where m: "m = Suc m'" by (cases m) (auto simp: fuel_for_def)
  note bounds = Suc.prems(1,2) [unfolded m]
  show ?case
    unfolding m resolve_ref.simps
  proof (rule agree_resolve_step)
    assume "length (c @ [name]) \<le> MAX_REF_DEPTH"
    with fuel_for_step [OF this, of x tc] bounds
    show "chain_agrees tc (c @ [name]) (resolve_ref n x) (resolve_ref m' x)"
      unfolding chain_agrees_def
      by (intro allI Suc.IH) (meson less_Suc_eq_le order_less_le_trans)+
  next
    fix leaf
    assume "name \<notin> set (tc @ butlast (c @ [name]))" "length (c @ [name]) \<le> MAX_REF_DEPTH" "name \<in> tables x"
    then have "fuel_for x (tc @ c @ [name]) ([leaf] @ [nm]) < fuel_for x tc (c @ [name])" for nm
      using fuel_for_table [of name x tc "c @ [name]" leaf nm] by simp
    with bounds show "chain_agrees (tc @ c @ [name]) [leaf] (resolve_ref n x) (resolve_ref m' x)"
      unfolding chain_agrees_def
      by (intro allI Suc.IH) (meson less_Suc_eq_le order_less_le_trans, meson less_Suc_eq_le order_less_le_trans,
          simp add: MAX_REF_DEPTH_def)
  qed
qed

lemma expand_fuel_suffices: "fuel_for x [] [leaf, n] \<le> expand_fuel x"
proof -
  have "(MAX_REF_DEPTH + 2) * Suc (card (tables x)) \<le> (MAX_REF_DEPTH + 2) * Suc (weight (snapshot x))"
    using tables_bounded(2) [of x] by (intro mult_le_mono) simp_all
  then show ?thesis by (simp add: fuel_for_def expand_fuel_def)
qed

lemma expand_ends:
  assumes "expand_fuel x \<le> fuel"
  shows "expand_with fuel x = expand x \<and> fst (expand x) \<noteq> Inl OutOfFuel"
proof -
  have "chain_agrees [] [leaf] (resolve_ref (expand_fuel x) x) (resolve_ref fuel x)" for leaf
    unfolding chain_agrees_def
  proof (intro allI resolve_ref_agrees)
    fix name
    show "fuel_for x [] ([leaf] @ [name]) \<le> expand_fuel x" "fuel_for x [] ([leaf] @ [name]) \<le> fuel"
      using expand_fuel_suffices [of x leaf name] assms by simp_all
  qed (simp add: MAX_REF_DEPTH_def)
  from agreeD [OF agree_expand_items [OF this], of init_pass x "[]" "snapshot x" "[]"]
  show ?thesis by (simp add: expand_def expand_with_def expand_node_def init_pass_def)
qed

text \<open>
  C11. The expansion always ends: it gives a store or raises one of the code's own refusals, and
  more fuel than \<open>expand_fuel\<close> changes neither the result nor any table of the pass.
\<close>

theorem expand_terminates:
  assumes "expand_fuel x \<le> fuel"
  shows "expand_with fuel x = expand x \<and> fst (expand x) \<noteq> Inl OutOfFuel"
  by (rule expand_ends [OF assms])

text \<open>A small pass for examples: a store, no context, no derivation, every name declared.\<close>

definition sample_expander :: "keystore \<Rightarrow> expander" where
  "sample_expander ks = \<lparr>snapshot = ks,
     ctx = \<lparr>agent_name = None, workset_name = None, host_home = u ''/h'', xdg = [], term_var = u ''xterm'', colorterm = None\<rparr>,
     foundation = [], collect_errors = False, derive = None, declared = (\<lambda>_. False), no_key = (\<lambda>_. None),
     set_reason = (\<lambda>_. None), other_text = (\<lambda>_. [])\<rparr>"

lemma expand_terminates_witness:
  "fst (expand_with 300 (sample_expander [(u ''a'', SLeaf (LStr (u ''{b}''))), (u ''b'', SLeaf (LStr (u ''x{a}'')))]))
    \<noteq> Inl OutOfFuel"
proof -
  have "expand_fuel (sample_expander [(u ''a'', SLeaf (LStr (u ''{b}''))), (u ''b'', SLeaf (LStr (u ''x{a}'')))]) \<le> 300"
    by code_simp
  from expand_terminates [OF this] show ?thesis by simp
qed

end
