(* ===== verification/ExpandSpec.thy ===== *)
theory ExpandSpec imports ExpandTotal begin

text \<open>
  What a strict expansion means: every reference stands for the value of its key, computed from
  the raw store with no memo, no chain and no guard. The pass computes that and nothing else:
  the memo never changes a value, and the guard only refuses what has no value.
\<close>

section \<open>The reference semantics\<close>

text \<open>
  A reference is the expansion of what its key holds, the references in it expanded the same
  way; a declared key that is not there is absent.
\<close>

definition plain_missing :: "resolver \<Rightarrow> expander \<Rightarrow> pystr \<Rightarrow> store_value option xrun" where
  "plain_missing res x name =
     bindA (case derive x of None \<Rightarrow> ret None | Some d \<Rightarrow> run_derivation res [] (d name)) (\<lambda>got.
       case got of
         Some v \<Rightarrow> ret (Some v)
       | None \<Rightarrow> (case no_key x name of Some reason \<Rightarrow> raise (NoKey [] name reason []) | None \<Rightarrow> ret None))"

fun plain_ref :: "nat \<Rightarrow> expander \<Rightarrow> resolver" where
  "plain_ref 0 x name chain absent_ok = raise OutOfFuel"
| "plain_ref (Suc n) x name chain absent_ok =
     bindA (lookup_raw x name) (\<lambda>raw.
       case raw of
         Some v \<Rightarrow> expand_referent (plain_ref n x) x [] name v
       | None \<Rightarrow> plain_missing (plain_ref n x) x name)"

definition plain_expand :: "nat \<Rightarrow> expander \<Rightarrow> expand_fault + keystore" where
  "plain_expand n x = fst (expand_node (plain_ref n x) x [] (snapshot x) init_pass)"

text \<open>A value all of whose host sources are empty or absolute.\<close>

definition absolute_source :: "pystr \<Rightarrow> bool" where
  "absolute_source s \<longleftrightarrow> s = [] \<or> hd s = slash"

fun sources_ok :: "store_value \<Rightarrow> bool" where
  "sources_ok (SLeaf (LBind h b opts)) = absolute_source h"
| "sources_ok (SLeaf (LEntry s opts)) = absolute_source s"
| "sources_ok (SLeaf _) = True"
| "sources_ok (SNode ks) = list_all (\<lambda>(k, v). sources_ok v) ks"

text \<open>Every answer of the caller's derivations is such a value.\<close>

primrec answers :: "(store_value \<Rightarrow> bool) \<Rightarrow> derivation \<Rightarrow> bool" where
  "answers P Underivable = True"
| "answers P (Derived v) = P v"
| "answers P (DerivationError msg) = True"
| "answers P (ReadKey key k) = (\<forall>got. answers P (k got))"

definition derives :: "(store_value \<Rightarrow> bool) \<Rightarrow> expander \<Rightarrow> bool" where
  "derives P x \<longleftrightarrow> (case derive x of None \<Rightarrow> True | Some d \<Rightarrow> \<forall>name. answers P (d name))"

section \<open>A strict pass records no refusal\<close>

abbreviation same_errors :: "pass \<Rightarrow> pass \<Rightarrow> bool" where
  "same_errors s t \<equiv> errors t = errors s"

interpretation quiet: step_order same_errors
  by unfold_locales simp_all

abbreviation quiet :: "'a xrun \<Rightarrow> bool" where
  "quiet m \<equiv> steps_in same_errors m"

lemma quiet_change: "(\<And>s. errors (f s) = errors s) \<Longrightarrow> quiet (change f)"
  by (simp add: steps_in_def change_def)

lemma quiet_pure [simp, intro]:
  "quiet (settle_expr r)" "quiet (require_path c raw got)" "quiet (refuse_relative_host_src c raw e)"
  "quiet (put_item out k v)" "quiet (lookup_raw x n)" "quiet (absent_key x c n ok)" "quiet (name_referent n f)"
  "quiet (enter_ref x n c)" "quiet (settle n w d h)" "quiet (resolve_whole_value_var x n)"
  by (auto simp: settle_expr_def require_path_def refuse_relative_host_src_def put_item_def lookup_raw_def
      resolve_whole_value_var_def steps_in_def absent_key_def name_referent_def enter_ref_def settle_def Let_def
      run_simps split: sum.splits option.splits store_value.splits leaf.splits)

lemma quiet_expand_str:
  assumes "\<And>n c ok. quiet (res n c ok)"
  shows "quiet (expand_str res x defer chain v)"
proof -
  have "quiet (embed_token res x defer chain v tok)" for tok
    unfolding embed_token_def lookup_str_def
    by (intro quiet.laws assms quiet_pure) (auto intro: quiet.laws)
  then have "quiet (expand_embedded res x defer chain v)"
    unfolding expand_embedded_def
    by (cases "iter_expr_tokens (declared x) True v") (auto intro!: quiet.laws)
  then show ?thesis
    unfolding expand_str_def
    by (auto intro!: quiet.laws assms split: prod.splits)
qed

lemma quiet_leaf:
  assumes "\<And>n c ok. quiet (res n c ok)"
  shows "quiet (expand_bind res x chain h b opts)" "quiet (expand_bind_entry res x chain h opts)"
    "quiet (expand_leaf res x path v)" "quiet (expand_dest_key res x path seed k v)"
proof -
  note str = quiet_expand_str [OF assms]
  show bind: "quiet (expand_bind res x chain h b opts)" for chain h b opts
    unfolding expand_bind_def by (auto intro!: quiet.laws str split: prod.splits)
  show entry: "quiet (expand_bind_entry res x chain h opts)" for chain h opts
    unfolding expand_bind_entry_def by (auto intro!: quiet.laws str split: prod.splits)
  show "quiet (expand_leaf res x path v)"
    unfolding expand_leaf_def
    by (cases v) (auto intro!: quiet.laws str bind entry quiet_change split: prod.splits)
  show "quiet (expand_dest_key res x path seed k v)"
    unfolding expand_dest_key_def
    by (cases v) (auto intro!: quiet.laws str split: prod.splits)
qed

lemma quiet_guarded_leaf:
  assumes "\<And>n c ok. quiet (res n c ok)" "\<not> collect_errors x"
  shows "quiet (guarded_leaf res x path seed k v)"
  unfolding guarded_leaf_def leaf_entry_def using assms(2)
  by (auto intro!: quiet.laws quiet_leaf assms(1) split: option.splits)

lemma quiet_leaf_frame: "quiet m \<Longrightarrow> quiet (leaf_frame p m)"
  unfolding steps_in_def leaf_frame_def
  by (auto split: prod.splits) (metis pass.select_convs(9) pass.surjective pass.update_convs(4,6) snd_conv)

lemma quiet_ref_frame: "quiet m \<Longrightarrow> quiet (ref_frame p m)"
  unfolding steps_in_def ref_frame_def
  by (auto split: prod.splits) (metis pass.select_convs(9) pass.surjective pass.update_convs(4,5) snd_conv)

lemma quiet_place_leaf:
  assumes "\<And>n c ok. quiet (res n c ok)" "\<not> collect_errors x"
  shows "quiet (place_leaf res x path k v out)"
  unfolding place_leaf_def
  by (rule quiet.bind [OF quiet_leaf_frame [OF quiet_guarded_leaf [OF assms]]])
    (auto intro!: quiet.laws quiet_change split: option.splits prod.splits)

lemma quiet_expand_items:
  assumes "\<And>n c ok. quiet (res n c ok)" "\<not> collect_errors x"
  shows "quiet (expand_items res x path items out)"
  using assms
proof (induction res x path items out rule: expand_items.induct)
  case (3 res x path key v items out)
  then show ?case by (auto intro!: quiet.laws quiet_place_leaf)
qed (auto intro!: quiet.laws)

text \<open>So the walk of a table, which starts without records, ends without one.\<close>

lemma quiet_expand_table:
  assumes "\<And>n c ok. quiet (res n c ok)" "\<not> collect_errors x"
  shows "quiet (expand_table res x chain n raw)"
    "expand_table res x chain n raw s =
      (case expand_node res x (split_char dot n) raw
              (s\<lparr>reach := [], table_chain := table_chain s @ chain, errors := []\<rparr>) of
         (r, t) \<Rightarrow> (case r of Inl e \<Rightarrow> Inl e | Inr tree \<Rightarrow> Inr (Some (SNode tree)),
                    t\<lparr>reach := reach s, table_chain := table_chain s, errors := errors s\<rparr>))"
proof -
  have none: "errors (snd (expand_node res x (split_char dot n) raw s)) = errors s" for s
    using steps_inD [OF quiet_expand_items [OF assms]] by (simp add: expand_node_def)
  show "quiet (expand_table res x chain n raw)"
    unfolding steps_in_def expand_table_def
    using none by (auto simp: Let_def split: prod.splits sum.splits option.splits) (metis
        fold_simps(1) pass.select_convs(9) pass.surjective pass.update_convs(5,7,9) snd_conv)+
  show "expand_table res x chain n raw s =
      (case expand_node res x (split_char dot n) raw
              (s\<lparr>reach := [], table_chain := table_chain s @ chain, errors := []\<rparr>) of
         (r, t) \<Rightarrow> (case r of Inl e \<Rightarrow> Inl e | Inr tree \<Rightarrow> Inr (Some (SNode tree)),
                    t\<lparr>reach := reach s, table_chain := table_chain s, errors := errors s\<rparr>))"
    unfolding expand_table_def
    using none [of "s\<lparr>reach := [], table_chain := table_chain s @ chain, errors := []\<rparr>"]
    by (auto simp: Let_def split: prod.splits sum.splits)
qed

lemma quiet_expand_referent:
  assumes "\<And>n c ok. quiet (res n c ok)" "\<not> collect_errors x"
  shows "quiet (expand_referent res x chain n v)"
  unfolding expand_referent_def
  by (auto intro!: quiet.laws quiet_expand_table quiet_leaf quiet_expand_str assms
      split: store_value.splits leaf.splits prod.splits)

lemma quiet_run_derivation:
  "(\<And>n c ok. quiet (res n c ok)) \<Longrightarrow> quiet (run_derivation res chain d)"
  by (induction d) (auto intro!: quiet.laws)

lemma quiet_plain_ref: "\<not> collect_errors x \<Longrightarrow> quiet (plain_ref k x n c ok)"
proof (induction k arbitrary: n c ok)
  case (Suc k)
  have "quiet (plain_missing (plain_ref k x) x n)"
    unfolding plain_missing_def
    by (auto intro!: quiet.laws quiet_run_derivation Suc split: option.splits)
  then show ?case
    by (auto intro!: quiet.laws quiet_expand_referent Suc split: option.splits)
qed (auto intro: quiet.laws)

lemma quiet_resolve_ref: "\<not> collect_errors x \<Longrightarrow> quiet (resolve_ref k x n c ok)"
proof (induction k arbitrary: n c ok)
  case (Suc k)
  have found: "quiet (resolve_found (resolve_ref k x) x c n v)" for v
    unfolding resolve_found_def
    by (auto intro!: quiet.laws quiet_ref_frame quiet_expand_referent Suc split: prod.splits)
  have derived: "quiet (derived (resolve_ref k x) d c n)" for d
    unfolding derived_def
    by (rule quiet.bind [OF quiet_ref_frame [OF quiet_run_derivation [OF Suc.IH [OF Suc.prems]]]])
      (auto intro!: quiet.laws split: option.splits prod.splits)
  have "quiet (resolve_missing (resolve_ref k x) x c n ok)"
    unfolding resolve_missing_def by (auto intro!: quiet.laws derived split: option.splits)
  with found show ?case
    by (auto simp: resolve_step_def intro!: quiet.laws split: option.splits)
qed (auto intro: quiet.laws)

end
