(* ===== verification/ExpandSound.thy ===== *)
theory ExpandSound imports ExpandSpec begin

text \<open>
  A strict pass computes the reference semantics: what it gives, the memo-free expansion gives
  too, at every fuel from some point on.
\<close>

section \<open>Following the reference semantics\<close>

text \<open>
  While \<open>I\<close> holds, whatever \<open>m\<close> gives is \<open>V\<close> and is what \<open>p\<close> gives from any state, with enough
  fuel.
\<close>

definition tracks :: "(pass \<Rightarrow> bool) \<Rightarrow> ('a \<Rightarrow> bool) \<Rightarrow> 'a xrun \<Rightarrow> (nat \<Rightarrow> 'a xrun) \<Rightarrow> bool" where
  "tracks I V m p \<longleftrightarrow> (\<forall>s. I s \<longrightarrow> I (snd (m s)) \<and>
     (\<forall>y. fst (m s) = Inr y \<longrightarrow> V y \<and> (\<exists>n0. \<forall>n\<ge>n0. \<forall>s'. fst (p n s') = Inr y)))"

named_theorems tracks_intros "programs that track when their parts do"

lemma fst_run:
  "fst (m s) = Inr y \<Longrightarrow> fst (bindA m f s) = fst (f y (snd (m s)))"
  "fst (m s) = Inr y \<Longrightarrow> fst (catch q m h s) = Inr y"
  by (cases "m s"; simp add: bindA_def catch_def)+

lemma tracksI:
  assumes "\<And>s. I s \<Longrightarrow> I (snd (m s))"
    and "\<And>s y t. I s \<Longrightarrow> m s = (Inr y, t) \<Longrightarrow> V y \<and> (\<exists>n0. \<forall>n\<ge>n0. \<forall>s'. fst (p n s') = Inr y)"
  shows "tracks I V m p"
  using assms unfolding tracks_def by (metis prod.collapse)

lemma tracksD:
  assumes "tracks I V m p" "I s" "m s = (r, t)"
  shows "I t" "r = Inr y \<Longrightarrow> V y" "r = Inr y \<Longrightarrow> \<exists>n0. \<forall>n\<ge>n0. \<forall>s'. fst (p n s') = Inr y"
  using assms unfolding tracks_def by (metis fst_conv snd_conv)+

lemma tracks_ret [tracks_intros]: "V y \<Longrightarrow> tracks I V (ret y) (\<lambda>_. ret y)"
  by (rule tracksI) (auto simp: ret_def)

lemma tracks_raise [tracks_intros]: "tracks I V (raise e) p"
  by (rule tracksI) (auto simp: raise_def)

lemma tracks_weaken: "tracks I V m p \<Longrightarrow> (\<And>y. V y \<Longrightarrow> W y) \<Longrightarrow> tracks I W m p"
  by (auto simp: tracks_def)

lemma tracks_bind [tracks_intros]:
  assumes m: "tracks I V m p" and f: "\<And>y. V y \<Longrightarrow> tracks I W (f y) (\<lambda>n. g n y)"
  shows "tracks I W (bindA m f) (\<lambda>n. bindA (p n) (g n))"
proof (rule tracksI)
  fix s
  assume s: "I s"
  obtain r t where r: "m s = (r, t)" by fastforce
  note m' = tracksD [OF m s r]
  show "I (snd (bindA m f s))"
    using m' r by (cases r) (auto simp: bindA_def, metis f tracksD(1) prod.collapse)
next
  fix s z t'
  assume s: "I s" and z: "bindA m f s = (Inr z, t')"
  then obtain y t where y: "m s = (Inr y, t)" "f y t = (Inr z, t')"
    by (auto simp: bindA_def split: prod.splits sum.splits)
  from tracksD [OF m s y(1)] have t: "I t" "V y" by simp_all
  obtain n1 where n1: "\<forall>n\<ge>n1. \<forall>s'. fst (p n s') = Inr y" using tracksD(3) [OF m s y(1) refl] ..
  obtain n2 where n2: "\<forall>n\<ge>n2. \<forall>s'. fst (g n y s') = Inr z" using tracksD(3) [OF f [OF t(2)] t(1) y(2) refl] ..
  have "fst (bindA (p n) (g n) s') = Inr z" if "n \<ge> max n1 n2" for n s'
    using n1 n2 that by (simp add: fst_run(1) [of _ _ y])
  with tracksD(2) [OF f [OF t(2)] t(1) y(2)] show "W z \<and> (\<exists>n0. \<forall>n\<ge>n0. \<forall>s'. fst (bindA (p n) (g n) s') = Inr z)"
    by blast
qed

lemma tracks_change [tracks_intros]:
  "(\<And>s. I s \<Longrightarrow> I (f s)) \<Longrightarrow> tracks I (\<lambda>_. True) (change f) (\<lambda>_. change g)"
  by (rule tracksI) (auto simp: change_def)

lemma tracks_when [tracks_intros]:
  "tracks I (\<lambda>_. True) m p \<Longrightarrow> tracks I (\<lambda>_. True) (whenA b m) (\<lambda>n. whenA b (p n))"
  by (simp add: whenA_def tracks_ret)

lemma tracks_if [tracks_intros]:
  "(b \<Longrightarrow> tracks I V m p) \<Longrightarrow> (\<not> b \<Longrightarrow> tracks I V m' p') \<Longrightarrow>
   tracks I V (if b then m else m') (\<lambda>n. if b then p n else p' n)"
  by simp

lemma tracks_mapA [tracks_intros]:
  "(\<And>y. y \<in> set ys \<Longrightarrow> tracks I (\<lambda>_. True) (f y) (\<lambda>n. g n y)) \<Longrightarrow>
   tracks I (\<lambda>_. True) (mapA f ys) (\<lambda>n. mapA (g n) ys)"
  by (induction ys) (auto intro!: tracks_intros)

lemma tracks_catch_raise:
  assumes "tracks I V m p" "\<And>e. \<exists>f. h e = raise f"
  shows "tracks I V (catch q m h) (\<lambda>n. catch q (p n) h')"
proof (rule tracksI)
  fix s assume s: "I s"
  obtain r t where r: "m s = (r, t)" by fastforce
  have "snd (catch q m h s) = t"
    using r assms(2) by (cases r) (auto simp: catch_def, metis raise_def snd_conv)
  then show "I (snd (catch q m h s))" using tracksD(1) [OF assms(1) s r] by simp
next
  fix s y t
  assume s: "I s" and c: "catch q m h s = (Inr y, t)"
  obtain r t' where r: "m s = (r, t')" by fastforce
  have y: "m s = (Inr y, t)"
  proof (cases r)
    case (Inl e)
    obtain f where "h e = raise f" using assms(2) by blast
    with c r Inl show ?thesis by (simp add: catch_def raise_def split: if_splits)
  next
    case (Inr z)
    with c r show ?thesis by (simp add: catch_def)
  qed
  obtain n0 where "\<forall>n\<ge>n0. \<forall>s'. fst (p n s') = Inr y" using tracksD(3) [OF assms(1) s y refl] ..
  then have "\<forall>n\<ge>n0. \<forall>s'. fst (catch q (p n) h' s') = Inr y" by (simp add: fst_run(2))
  then show "V y \<and> (\<exists>n0. \<forall>n\<ge>n0. \<forall>s'. fst (catch q (p n) h' s') = Inr y)"
    using tracksD(2) [OF assms(1) s y refl] by blast
qed

section \<open>What the memo holds\<close>

abbreviation value_ok :: "store_value option \<Rightarrow> bool" where
  "value_ok r \<equiv> pred_option sources_ok r"

text \<open>The value of a key in the reference semantics.\<close>

definition denotes :: "expander \<Rightarrow> pystr \<Rightarrow> store_value option \<Rightarrow> bool" where
  "denotes x name r \<longleftrightarrow>
     value_ok r \<and> (\<exists>n0. \<forall>n\<ge>n0. \<forall>chain ok s'. fst (plain_ref n x name chain ok s') = Inr r)"

text \<open>Every remembered value is the reference semantics of its key.\<close>

definition settled :: "expander \<Rightarrow> pass \<Rightarrow> bool" where
  "settled x s \<longleftrightarrow> (\<forall>name r. map_of (memo s) name = Some r \<longrightarrow> denotes x name r)"

lemma settled_memo: "memo t = memo s \<Longrightarrow> settled x s \<Longrightarrow> settled x t"
  by (simp add: settled_def)

definition follows :: "expander \<Rightarrow> resolver \<Rightarrow> bool" where
  "follows x res \<longleftrightarrow> (\<forall>name chain chain' ok ok'.
     tracks (settled x) value_ok (res name chain ok) (\<lambda>n. plain_ref n x name chain' ok'))"

lemma followsD: "follows x res \<Longrightarrow>
    tracks (settled x) value_ok (res name chain ok) (\<lambda>n. plain_ref n x name chain' ok')"
  by (simp add: follows_def)

section \<open>The code between two references\<close>

text \<open>The reference semantics of a referent starts no chain; that of a leaf starts the leaf's own.\<close>

abbreviation shorter :: "pystr list \<Rightarrow> pystr list \<Rightarrow> bool" where
  "shorter chain' chain \<equiv> chain' = chain \<or> chain' = []"

lemma tracks_settle_expr [tracks_intros]: "tracks I (\<lambda>_. True) (settle_expr r) (\<lambda>_. settle_expr r)"
  by (cases r) (auto simp: settle_expr_def intro!: tracks_intros)

lemma tracks_guard:
  assumes "shorter chain' chain"
  shows "tracks I (\<lambda>_. True) (settle_expr (guard_ref n chain (length chain)))
     (\<lambda>_. settle_expr (guard_ref n chain' (length chain')))"
proof (cases "guard_ref n chain (length chain)")
  case (Inl e)
  then show ?thesis by (simp add: settle_expr_def tracks_raise)
next
  case (Inr y)
  then have "guard_ref n chain' (length chain') = Inr y"
    using assms by (auto simp: guard_ref_def MAX_REF_DEPTH_def result_simps refuse_if_def split: if_splits)
  with Inr show ?thesis by (simp add: settle_expr_def tracks_ret)
qed

lemma tracks_require_path [tracks_intros]:
  "tracks I (\<lambda>_. True) (require_path c raw got) (\<lambda>_. require_path c' raw got)"
  by (auto simp: require_path_def intro!: tracks_intros split: option.splits store_value.splits leaf.splits)

lemma tracks_relative [tracks_intros]:
  "tracks I (\<lambda>_. absolute_source h) (refuse_relative_host_src c raw h) (\<lambda>_. refuse_relative_host_src c' raw h)"
  by (auto simp: refuse_relative_host_src_def absolute_source_def intro!: tracks_intros)

lemma tracks_put_item [tracks_intros]:
  "(\<And>ks. set_item out k v = Inr ks \<Longrightarrow> V ks) \<Longrightarrow> tracks I V (put_item out k v) (\<lambda>_. put_item out k v)"
  by (auto simp: put_item_def intro!: tracks_intros split: sum.splits)

lemma tracks_whole_var [tracks_intros]:
  "tracks I value_ok (resolve_whole_value_var x n) (\<lambda>_. resolve_whole_value_var x n)"
  unfolding resolve_whole_value_var_def
  by (rule tracks_bind [OF tracks_settle_expr]) (auto intro!: tracks_intros simp: option.pred_map option.pred_True comp_def)

lemma expand_token_chain:
  "tkind tok \<noteq> TRef \<Longrightarrow> expand_token sp c look chain' defer v tok = expand_token sp c look chain defer v tok"
  by (cases "tkind tok") (auto simp: expand_token_def)

lemma tracks_embedded:
  assumes "follows x res" "shorter chain' chain"
  shows "tracks (settled x) (\<lambda>_. True) (expand_embedded res x defer chain v)
    (\<lambda>n. expand_embedded (plain_ref n x) x defer chain' v)"
proof -
  have look: "tracks (settled x) (\<lambda>_. True) (lookup_str res x name c)
      (\<lambda>n. lookup_str (plain_ref n x) x name c')" for name c c'
    unfolding lookup_str_def by (rule tracks_bind [OF followsD [OF assms(1)]]) (rule tracks_ret, simp)
  have "tracks (settled x) (\<lambda>_. True) (embed_token res x defer chain v tok)
      (\<lambda>n. embed_token (plain_ref n x) x defer chain' v tok)" for tok
  proof (cases "tkind tok = TRef")
    case True
    then show ?thesis
      unfolding embed_token_def
      by (auto intro!: tracks_bind [OF tracks_guard [OF assms(2)]] tracks_bind [OF look] tracks_ret split: prod.splits)
  next
    case False
    then show ?thesis
      unfolding embed_token_def
      by (auto intro!: tracks_intros simp: expand_token_chain [OF False, of _ _ _ chain' _ _ chain])
  qed
  then show ?thesis
    unfolding expand_embedded_def
    by (cases "iter_expr_tokens (declared x) True v") (auto intro!: tracks_intros split: option.splits)
qed

lemma tracks_expand_str:
  assumes "follows x res" "shorter chain' chain"
  shows "tracks (settled x) (\<lambda>(r, _). value_ok r) (expand_str res x defer chain v)
    (\<lambda>n. expand_str (plain_ref n x) x defer chain' v)"
proof (cases "is_whole_value_ref v")
  case None
  then show ?thesis
    unfolding expand_str_def
    by (auto intro!: tracks_bind [OF tracks_embedded [OF assms]] tracks_bind [OF tracks_whole_var] tracks_ret
        split: option.splits prod.splits)
next
  case (Some name)
  show ?thesis
    unfolding expand_str_def Some option.case
    by (rule tracks_bind [OF followsD [OF assms(1)]], rule tracks_ret)
      (auto split: option.splits store_value.splits leaf.splits)
qed

lemma tracks_pathless_bind:
  assumes "follows x res" "shorter chain' chain"
    and "\<And>r nones. value_ok r \<Longrightarrow> tracks (settled x) W (f (r, nones)) (\<lambda>n. g n (r, nones))"
  shows "tracks (settled x) W (bindA (expand_str res x defer chain v) f)
    (\<lambda>n. bindA (expand_str (plain_ref n x) x defer chain' v) (g n))"
  by (rule tracks_bind [OF tracks_expand_str [OF assms(1,2)]]) (use assms(3) in auto)

lemma tracks_expand_bind:
  assumes "follows x res" "shorter chain' chain"
  shows "tracks (settled x) value_ok (expand_bind res x chain h b opts)
    (\<lambda>n. expand_bind (plain_ref n x) x chain' h b opts)"
  unfolding expand_bind_def
  by (rule tracks_pathless_bind [OF assms], unfold prod.case, rule tracks_if, erule tracks_ret,
      rule tracks_pathless_bind [OF assms], unfold prod.case, rule tracks_if, rule tracks_raise,
      rule tracks_bind [OF tracks_require_path], rule tracks_bind [OF tracks_require_path],
      rule tracks_bind [OF tracks_relative], rule tracks_ret) simp

lemma tracks_expand_bind_entry:
  assumes "follows x res" "shorter chain' chain"
  shows "tracks (settled x) (\<lambda>(r, _). value_ok r) (expand_bind_entry res x chain h opts)
    (\<lambda>n. expand_bind_entry (plain_ref n x) x chain' h opts)"
  unfolding expand_bind_entry_def
  by (rule tracks_pathless_bind [OF assms], unfold prod.case, rule tracks_if, rule tracks_ret, simp,
      rule tracks_bind [OF tracks_require_path], rule tracks_bind [OF tracks_relative], rule tracks_ret) simp

lemma tracks_expand_leaf:
  assumes "follows x res"
  shows "tracks (settled x) value_ok (expand_leaf res x path v) (\<lambda>n. expand_leaf (plain_ref n x) x path v)"
proof (cases v)
  case (LStr s)
  have "tracks (settled x) value_ok (bindA (expand_str res x False [join_char dot path] s) (\<lambda>(r, _). ret r))
      (\<lambda>n. bindA (expand_str (plain_ref n x) x False [join_char dot path] s) (\<lambda>(r, _). ret r))"
    by (rule tracks_pathless_bind [OF assms]) (auto intro: tracks_ret)
  then show ?thesis by (simp add: expand_leaf_def LStr tracks_ret)
next
  case (LEntry s opts)
  have set: "tracks (settled x) (\<lambda>_. True)
      (change (\<lambda>s. s\<lparr>null_sources := dict_set path nones (null_sources s)\<rparr>))
      (\<lambda>_. change (\<lambda>s. s\<lparr>null_sources := dict_set path nones (null_sources s)\<rparr>))" for nones
    by (rule tracks_change) (simp add: settled_def)
  show ?thesis
    unfolding expand_leaf_def LEntry leaf.case
    by (rule tracks_bind [OF tracks_expand_bind_entry [OF assms]])
      (auto intro!: tracks_bind [OF tracks_when [OF set]] tracks_ret)
qed (auto simp: expand_leaf_def intro!: tracks_ret tracks_expand_bind [OF assms])

lemma tracks_expand_dest_key:
  assumes "follows x res"
  shows "tracks (settled x) (\<lambda>_. True) (expand_dest_key res x path seed k v)
    (\<lambda>n. expand_dest_key (plain_ref n x) x path seed k v)"
proof (cases v)
  case (LEntry s opts)
  show ?thesis
    unfolding expand_dest_key_def LEntry leaf.case
    by (rule tracks_pathless_bind [OF assms]) (auto intro!: tracks_intros)
qed (auto simp: expand_dest_key_def intro!: tracks_ret)

abbreviation placed_ok :: "(pystr \<times> store_value option) option \<Rightarrow> bool" where
  "placed_ok got \<equiv> (case got of None \<Rightarrow> True | Some (k, r) \<Rightarrow> value_ok r)"

lemma tracks_guarded_leaf:
  assumes "follows x res" "\<not> collect_errors x"
  shows "tracks (settled x) placed_ok (guarded_leaf res x path seed k v)
    (\<lambda>n. guarded_leaf (plain_ref n x) x path seed k v)"
proof -
  have "tracks (settled x) placed_ok (leaf_entry res x path seed k v)
      (\<lambda>n. leaf_entry (plain_ref n x) x path seed k v)"
    unfolding leaf_entry_def
    by (rule tracks_bind [OF tracks_expand_dest_key [OF assms(1)]])
      (auto intro!: tracks_bind [OF tracks_expand_leaf [OF assms(1)]] tracks_ret split: option.splits)
  then show ?thesis
    using assms(2) unfolding guarded_leaf_def by (auto intro!: tracks_catch_raise)
qed

text \<open>What becomes of an expanded leaf is a matter of its key and value alone.\<close>

definition placed :: "leaf \<Rightarrow> pystr \<Rightarrow> keystore \<Rightarrow> (pystr \<times> store_value option) option \<Rightarrow> expand_fault + keystore" where
  "placed value key out got = (case got of
     Some (k, Some v) \<Rightarrow>
       if is_entry value \<and> map_of out k \<noteq> None then Inl (Shape (TwoBindings k key))
       else (case set_item out k v of Inl e \<Rightarrow> Inl (ReservedName e) | Inr ks \<Rightarrow> Inr ks)
   | _ \<Rightarrow> Inr out)"

abbreviation framed :: "pystr list \<Rightarrow> pass \<Rightarrow> pass" where
  "framed path s \<equiv> s\<lparr>reading := {} # reading s, leaf_labels := leaf_label path # leaf_labels s\<rparr>"

lemma place_leaf_run:
  assumes "guarded_leaf res x (path @ [key]) (path \<noteq> [] \<and> last path = u ''seeded'') key value
      (framed (path @ [key]) s) = (r, t)"
  shows "fst (place_leaf res x path key value out s) = bindE r (placed value key out)"
    "memo (snd (place_leaf res x path key value out s)) = memo t"
proof -
  have "fst (place_leaf res x path key value out s) = bindE r (placed value key out) \<and>
      memo (snd (place_leaf res x path key value out s)) = memo t"
  proof (cases r)
    case (Inl e)
    then show ?thesis using assms by (simp add: place_leaf_def leaf_frame_def bindA_def)
  next
    case (Inr got)
    then show ?thesis
      using assms
      by (auto simp: place_leaf_def leaf_frame_def placed_def put_item_def run_simps
          split: option.splits prod.splits sum.splits)
  qed
  then show "fst (place_leaf res x path key value out s) = bindE r (placed value key out)"
    "memo (snd (place_leaf res x path key value out s)) = memo t" by auto
qed

section \<open>The walk\<close>

text \<open>The requests under \<open>pref\<close> are carried as they stand; everything else is expanded.\<close>

definition store_ok :: "pystr list \<Rightarrow> keystore \<Rightarrow> bool" where
  "store_ok path ks \<longleftrightarrow> list_all (\<lambda>(k, v). path = [] \<and> k = PREF_ROOT \<or> sources_ok v) ks"

lemma list_all_dict_set:
  "list_all P d \<Longrightarrow> P (k, v) \<Longrightarrow> list_all P (dict_set k v d)"
  by (induction k v d rule: dict_set.induct) auto

lemma store_ok_set:
  "store_ok path out \<Longrightarrow> path = [] \<and> k = PREF_ROOT \<or> sources_ok v \<Longrightarrow> set_item out k v = Inr ks \<Longrightarrow> store_ok path ks"
  unfolding store_ok_def set_item_def check_key_name_def
  by (auto simp: result_simps intro!: list_all_dict_set split: if_splits)

lemma store_ok_node: "path \<noteq> [] \<Longrightarrow> store_ok path ks \<Longrightarrow> sources_ok (SNode ks)"
  by (auto simp: store_ok_def)

lemma placed_store_ok:
  "placed value key out got = Inr ks \<Longrightarrow> placed_ok got \<Longrightarrow> store_ok path out \<Longrightarrow> store_ok path ks"
  by (auto simp: placed_def intro: store_ok_set split: option.splits if_splits sum.splits)

lemma tracks_place_leaf:
  assumes "follows x res" "\<not> collect_errors x" "store_ok path out"
  shows "tracks (settled x) (store_ok path) (place_leaf res x path key value out)
    (\<lambda>n. place_leaf (plain_ref n x) x path key value out)"
proof (rule tracksI)
  let ?leaf = "\<lambda>res. guarded_leaf res x (path @ [key]) (path \<noteq> [] \<and> last path = u ''seeded'') key value"
  fix s
  assume "settled x s"
  then have s: "settled x (framed (path @ [key]) s)" by (rule settled_memo [rotated]) simp
  obtain r t where r: "?leaf res (framed (path @ [key]) s) = (r, t)" by fastforce
  note run = tracksD [OF tracks_guarded_leaf [OF assms(1,2)] s r]
  note real = place_leaf_run [OF r, of out]
  show "settled x (snd (place_leaf res x path key value out s))"
    using run(1) real(2) by (rule settled_memo [rotated])
  fix ks t'
  assume "place_leaf res x path key value out s = (Inr ks, t')"
  with real(1) have "bindE r (placed value key out) = Inr ks" by simp
  then obtain got where got: "r = Inr got" "placed value key out got = Inr ks"
    by (auto simp: bindE_Inr_iff)
  obtain n0 where n0: "\<forall>n\<ge>n0. \<forall>s'. fst (?leaf (plain_ref n x) s') = Inr got" using run(3) [OF got(1)] ..
  have "fst (place_leaf (plain_ref n x) x path key value out s') = Inr ks" if "n \<ge> n0" for n s'
  proof -
    obtain r' t' where r': "?leaf (plain_ref n x) (framed (path @ [key]) s') = (r', t')" by fastforce
    with n0 that have "r' = Inr got" by (metis fst_conv)
    with place_leaf_run(1) [OF r'] got(2) show ?thesis by simp
  qed
  then show "store_ok path ks \<and>
      (\<exists>n0. \<forall>n\<ge>n0. \<forall>s'. fst (place_leaf (plain_ref n x) x path key value out s') = Inr ks)"
    using placed_store_ok [OF got(2) run(2) [OF got(1)] assms(3)] by blast
qed

lemma tracks_expand_items:
  assumes "follows x res" "\<not> collect_errors x" "store_ok path out"
  shows "tracks (settled x) (store_ok path) (expand_items res x path items out)
    (\<lambda>n. expand_items (plain_ref n x) x path items out)"
  using assms
proof (induction res x path items out rule: expand_items.induct)
  case (1 res x path out)
  then show ?case by (simp add: tracks_ret)
next
  case (2 res x path key sub items out)
  note put = tracks_bind [OF tracks_put_item]
  show ?case
  proof (cases "path = [] \<and> key = PREF_ROOT")
    case True
    show ?thesis
      unfolding expand_items.simps if_P [OF True]
      by (rule put, rule store_ok_set [OF "2.prems"(3)], rule disjI1 [OF True], assumption)
        (rule "2.IH"(1) [OF True "2.prems"(1,2)])
  next
    case False
    have sub: "tracks (settled x) (\<lambda>ks. sources_ok (SNode ks)) (expand_items res x (path @ [key]) sub [])
        (\<lambda>n. expand_items (plain_ref n x) x (path @ [key]) sub [])"
      by (rule tracks_weaken [OF "2.IH"(2) [OF False "2.prems"(1,2)]])
        (auto simp: store_ok_def)
    show ?thesis
      unfolding expand_items.simps if_not_P [OF False]
      by (rule tracks_bind [OF sub], rule put, rule store_ok_set [OF "2.prems"(3)], rule disjI2, assumption+,
          rule "2.IH"(3) [OF False "2.prems"(1,2)])
  qed
next
  case (3 res x path key v items out)
  then show ?case
    by (auto intro!: tracks_bind [OF tracks_place_leaf])
qed

lemma tracks_expand_table:
  assumes "follows x res" "\<not> collect_errors x" "\<And>n c ok. quiet (res n c ok)"
  shows "tracks (settled x) value_ok (expand_table res x chain name raw)
    (\<lambda>n. expand_table (plain_ref n x) x chain' name raw)"
proof (rule tracksI)
  let ?in = "\<lambda>chain s. s\<lparr>reach := [], table_chain := table_chain s @ chain, errors := []\<rparr>"
  fix s
  assume "settled x s"
  then have s: "settled x (?in chain s)" by (rule settled_memo [rotated]) simp
  obtain r t where r: "expand_items res x (split_char dot name) raw [] (?in chain s) = (r, t)" by fastforce
  have "store_ok (split_char dot name) []" by (simp add: store_ok_def)
  note run = tracksD [OF tracks_expand_items [OF assms(1,2) this] s r]
  note real = quiet_expand_table(2) [OF assms(3,2), where chain = chain and n = name and raw = raw and s = s]
  have "memo (snd (expand_table res x chain name raw s)) = memo t"
    using r by (simp add: real expand_node_def)
  then show "settled x (snd (expand_table res x chain name raw s))"
    using run(1) by (rule settled_memo)
  fix v t'
  assume "expand_table res x chain name raw s = (Inr v, t')"
  with real r obtain ks where ks: "r = Inr ks" "v = Some (SNode ks)"
    by (auto simp: expand_node_def split: sum.splits)
  obtain n0 where n0: "\<forall>n\<ge>n0. \<forall>s'. fst (expand_items (plain_ref n x) x (split_char dot name) raw [] s') = Inr ks"
    using run(3) [OF ks(1)] ..
  have "fst (expand_table (plain_ref n x) x chain' name raw s') = Inr v" if "n \<ge> n0" for n s'
    using n0 that quiet_expand_table(2) [where res = "plain_ref n x" and chain = chain' and n = name and raw = raw and s = s',
        OF quiet_plain_ref [OF assms(2)] assms(2)] ks(2)
    by (auto simp: expand_node_def split: prod.splits sum.splits) (metis fst_conv sum.distinct(1), metis fst_conv sum.inject(2))
  moreover have "sources_ok (SNode ks)"
    using run(2) [OF ks(1)] by (rule store_ok_node [OF split_char_nonempty])
  ultimately show "value_ok v \<and> (\<exists>n0. \<forall>n\<ge>n0. \<forall>s'. fst (expand_table (plain_ref n x) x chain' name raw s') = Inr v)"
    using ks(2) by auto
qed

lemma tracks_expand_referent:
  assumes "follows x res" "\<not> collect_errors x" "\<And>n c ok. quiet (res n c ok)"
  shows "tracks (settled x) value_ok (expand_referent res x chain name v)
    (\<lambda>n. expand_referent (plain_ref n x) x [] name v)"
proof (cases v)
  case (SNode ks)
  then show ?thesis by (simp add: expand_referent_def tracks_expand_table [OF assms])
next
  case (SLeaf l)
  have str: "tracks (settled x) value_ok (bindA (expand_str res x False chain s) (\<lambda>(r, _). ret r))
      (\<lambda>n. bindA (expand_str (plain_ref n x) x False [] s) (\<lambda>(r, _). ret r))" for s
    by (rule tracks_pathless_bind [OF assms(1)]) (auto intro: tracks_ret)
  have entry: "tracks (settled x) value_ok (bindA (expand_bind_entry res x chain s opts) (\<lambda>(r, _). ret r))
      (\<lambda>n. bindA (expand_bind_entry (plain_ref n x) x [] s opts) (\<lambda>(r, _). ret r))" for s opts
    by (rule tracks_bind [OF tracks_expand_bind_entry [OF assms(1)]]) (auto intro: tracks_ret)
  show ?thesis
    using SLeaf str entry
    by (cases l) (auto simp: expand_referent_def intro!: tracks_ret tracks_expand_bind [OF assms(1)])
qed

lemma tracks_run_derivation:
  "follows x res \<Longrightarrow> answers sources_ok d \<Longrightarrow>
   tracks (settled x) value_ok (run_derivation res chain d) (\<lambda>n. run_derivation (plain_ref n x) [] d)"
proof (induction d)
  case (ReadKey key k)
  show ?case
    by (simp, rule tracks_bind [OF followsD [OF ReadKey.prems(1)]], rule ReadKey.IH)
      (use ReadKey.prems in auto)
qed (auto intro!: tracks_intros)

section \<open>The memo\<close>

text \<open>What a part of the resolver gives, in every state whose memo is settled.\<close>

definition gives :: "expander \<Rightarrow> ('a \<Rightarrow> bool) \<Rightarrow> 'a xrun \<Rightarrow> bool" where
  "gives x V m \<longleftrightarrow> (\<forall>s. settled x s \<longrightarrow> settled x (snd (m s)) \<and> (\<forall>y. fst (m s) = Inr y \<longrightarrow> V y))"

lemma gives_bind:
  assumes m: "gives x V m" and f: "\<And>y. V y \<Longrightarrow> gives x W (f y)"
  shows "gives x W (bindA m f)"
  unfolding gives_def
proof (intro allI impI)
  fix s
  assume s: "settled x s"
  obtain r t where r: "m s = (r, t)" by fastforce
  with m s have t: "settled x t" "\<And>y. r = Inr y \<Longrightarrow> V y" by (auto simp: gives_def)
  show "settled x (snd (bindA m f s)) \<and> (\<forall>z. fst (bindA m f s) = Inr z \<longrightarrow> W z)"
    using r t f by (cases r) (auto simp: bindA_def gives_def)
qed

lemma gives_ret: "V y \<Longrightarrow> gives x V (ret y)"
  by (simp add: gives_def ret_def)

lemma gives_tracks:
  "tracks (settled x) V m p \<Longrightarrow> gives x (\<lambda>y. V y \<and> (\<exists>n0. \<forall>n\<ge>n0. \<forall>s'. fst (p n s') = Inr y)) m"
  by (simp add: tracks_def gives_def)

lemma gives_enter_ref: "gives x (\<lambda>_. True) (enter_ref x n c)"
  by (auto simp: gives_def enter_ref_def settled_def Let_def split: sum.splits)

lemma gives_memo: "gives x (\<lambda>hit. case hit of None \<Rightarrow> True | Some r \<Rightarrow> denotes x n r) (gets (\<lambda>s. map_of (memo s) n))"
  by (auto simp: gives_def gets_def settled_def split: option.splits)

lemma lookup_raw_run: "lookup_raw x n s = (fst (lookup_raw x n s'), s)"
  by (simp add: lookup_raw_def ret_def raise_def)

lemma gives_lookup_raw: "gives x (\<lambda>raw. \<forall>s. lookup_raw x n s = (Inr raw, s)) (lookup_raw x n)"
  unfolding gives_def by (metis lookup_raw_run snd_conv)

lemma gives_ref_frame:
  assumes "gives x V m"
  shows "gives x (\<lambda>(y, _). V y) (ref_frame c m)"
  unfolding gives_def
proof (intro allI impI)
  fix s :: pass
  let ?s = "s\<lparr>reading := {} # reading s, reach := length c # reach s\<rparr>"
  assume "settled x s"
  then have "settled x ?s" by (rule settled_memo [rotated]) simp
  with assms have t: "settled x (snd (m ?s))" "\<And>y. fst (m ?s) = Inr y \<Longrightarrow> V y" by (auto simp: gives_def)
  have "memo (snd (ref_frame c m s)) = memo (snd (m ?s))"
    by (simp add: ref_frame_def split: prod.splits)
  from settled_memo [OF this t(1)]
  show "settled x (snd (ref_frame c m s)) \<and> (\<forall>y. fst (ref_frame c m s) = Inr y \<longrightarrow> (case y of (y, _) \<Rightarrow> V y))"
    using t(2) by (auto simp: ref_frame_def split: prod.splits sum.splits)
qed

lemma gives_renamed: "gives x V m \<Longrightarrow> gives x V (catch q m (name_referent n))"
  by (auto simp: gives_def catch_def name_referent_def Let_def split: prod.splits sum.splits)

lemma gives_settle: "denotes x n r \<Longrightarrow> gives x (denotes x n) (settle n r d h)"
  by (auto simp: gives_def settle_def settled_def run_simps map_of_dict_set)

lemma gives_absent_key:
  "\<not> collect_errors x \<Longrightarrow> (no_key x n = None \<Longrightarrow> denotes x n None) \<Longrightarrow>
   gives x (denotes x n) (absent_key x c n ok)"
  by (auto simp: gives_def absent_key_def settled_def Let_def map_of_dict_set split: option.splits)

section \<open>Every resolution gives what its key denotes\<close>

lemma denotes_found:
  assumes "\<forall>s. lookup_raw x name s = (Inr (Some v), s)" "value_ok y"
    and "\<exists>n0. \<forall>n\<ge>n0. \<forall>s'. fst (expand_referent (plain_ref n x) x [] name v s') = Inr y"
  shows "denotes x name y"
proof -
  from assms(3) obtain n0 where n0: "\<forall>n\<ge>n0. \<forall>s'. fst (expand_referent (plain_ref n x) x [] name v s') = Inr y" ..
  have "fst (plain_ref n x name chain ok s') = Inr y" if "n \<ge> Suc n0" for n chain ok s'
    using that n0 assms(1) by (cases n) (auto simp: bindA_def)
  then show ?thesis unfolding denotes_def using assms(2) by blast
qed

lemma denotes_missing:
  assumes "\<forall>s. lookup_raw x name s = (Inr None, s)" "value_ok y"
    and "\<exists>n0. \<forall>n\<ge>n0. \<forall>s'. fst (plain_missing (plain_ref n x) x name s') = Inr y"
  shows "denotes x name y"
proof -
  from assms(3) obtain n0 where n0: "\<forall>n\<ge>n0. \<forall>s'. fst (plain_missing (plain_ref n x) x name s') = Inr y" ..
  have "fst (plain_ref n x name chain ok s') = Inr y" if "n \<ge> Suc n0" for n chain ok s'
    using that n0 assms(1) by (cases n) (auto simp: bindA_def)
  then show ?thesis unfolding denotes_def using assms(2) by blast
qed

lemma gives_resolve_found:
  assumes "follows x res" "\<not> collect_errors x" "\<And>n c ok. quiet (res n c ok)"
    and "\<forall>s. lookup_raw x name s = (Inr (Some v), s)"
  shows "gives x (denotes x name) (resolve_found res x chain name v)"
  unfolding resolve_found_def
  by (rule gives_bind [OF gives_renamed [OF gives_ref_frame [OF gives_tracks [OF tracks_expand_referent [OF assms(1-3)]]]]])
    (auto intro!: gives_settle denotes_found [OF assms(4)])

text \<open>What the caller's derivation answers for a missing key, or else its absence.\<close>

abbreviation answered :: "expander \<Rightarrow> pystr \<Rightarrow> store_value option \<Rightarrow> bool" where
  "answered x name got \<equiv> (case got of
     Some v \<Rightarrow> denotes x name got | None \<Rightarrow> no_key x name = None \<longrightarrow> denotes x name None)"

lemma answered_derivation:
  assumes "\<forall>s. lookup_raw x name s = (Inr None, s)" "derive x = Some d" "value_ok got"
    and "\<exists>n0. \<forall>n\<ge>n0. \<forall>s'. fst (run_derivation (plain_ref n x) [] (d name) s') = Inr got"
  shows "answered x name got"
proof -
  from assms(4) obtain n0 where n0: "\<forall>n\<ge>n0. \<forall>s'. fst (run_derivation (plain_ref n x) [] (d name) s') = Inr got" ..
  show ?thesis
  proof (cases got)
    case None
    have "denotes x name None" if "no_key x name = None"
      by (rule denotes_missing [OF assms(1)], simp, intro exI [of _ n0])
        (use n0 None assms(2) that in \<open>simp add: plain_missing_def fst_run(1) ret_def\<close>)
    then show ?thesis by (simp add: None)
  next
    case (Some v)
    have "denotes x name got"
      by (rule denotes_missing [OF assms(1,3)], intro exI [of _ n0])
        (use n0 Some assms(2) in \<open>simp add: plain_missing_def fst_run(1) ret_def\<close>)
    then show ?thesis by (simp add: Some)
  qed
qed

lemma gives_resolve_missing:
  assumes "follows x res" "\<not> collect_errors x" "derives sources_ok x"
    and "\<forall>s. lookup_raw x name s = (Inr None, s)"
  shows "gives x (denotes x name) (resolve_missing res x chain name ok)"
proof -
  have derived: "gives x (answered x name) (case derive x of None \<Rightarrow> ret None | Some d \<Rightarrow> derived res d chain name)"
  proof (cases "derive x")
    case None
    have "denotes x name None" if "no_key x name = None"
    proof (rule denotes_missing [OF assms(4)])
      have "plain_missing (plain_ref n x) x name = ret None" for n
        by (simp add: plain_missing_def None that)
      then show "\<exists>n0. \<forall>n\<ge>n0. \<forall>s'. fst (plain_missing (plain_ref n x) x name s') = Inr None"
        by (simp add: ret_def)
    qed simp
    then show ?thesis by (simp add: None gives_ret)
  next
    case (Some d)
    then have "answers sources_ok (d name)" using assms(3) by (simp add: derives_def)
    note run = gives_ref_frame [OF gives_tracks [OF tracks_run_derivation [OF assms(1) this]], of chain chain]
    have settled: "gives x (answered x name) (settle name (Some v) read h)"
      if "denotes x name (Some v)" for v read h
    proof -
      have "gives x (\<lambda>y. y = Some v) (settle name (Some v) read h)"
        using gives_settle [OF that, of read h]
        by (auto simp: gives_def settle_def run_simps)
      with that show ?thesis by (auto simp: gives_def)
    qed
    show ?thesis
      unfolding Some option.case derived_def
    proof (rule gives_bind [OF run], unfold split_def, goal_cases)
      case (1 y)
      then have "answered x name (fst y)"
        by (intro answered_derivation [OF assms(4) Some]) (auto simp: split_def)
      then show ?case
        by (cases "fst y") (auto intro!: gives_ret settled)
    qed
  qed
  show ?thesis
    unfolding resolve_missing_def
    by (rule gives_bind [OF derived]) (auto intro!: gives_ret gives_absent_key [OF assms(2)] split: option.splits)
qed

lemma follows_resolve_ref:
  assumes "\<not> collect_errors x" "derives sources_ok x"
  shows "follows x (resolve_ref k x)"
proof (induction k)
  case 0
  then show ?case by (simp add: follows_def tracks_raise)
next
  case (Suc k)
  have "gives x (denotes x name) (resolve_ref (Suc k) x name chain ok)" for name chain ok
    unfolding resolve_ref.simps resolve_step_def
    by (rule gives_bind [OF gives_enter_ref], rule gives_bind [OF gives_memo [of x name]])
      (auto intro!: gives_ret gives_bind [OF gives_lookup_raw] gives_resolve_found [OF Suc assms(1)]
        gives_resolve_missing [OF Suc assms] quiet_resolve_ref assms(1) split: option.splits)
  then show ?case
    unfolding follows_def tracks_def gives_def denotes_def by blast
qed

lemma settled_init: "settled x init_pass"
  by (simp add: settled_def init_pass_def)

lemma strict_expand_tracks:
  assumes "\<not> collect_errors x" "derives sources_ok x" "fst (expand x) = Inr out"
  shows "store_ok [] out" "\<exists>n0. \<forall>n\<ge>n0. \<forall>s. fst (expand_node (plain_ref n x) x [] (snapshot x) s) = Inr out"
proof -
  obtain t where t: "expand_items (resolve_ref (expand_fuel x) x) x [] (snapshot x) [] init_pass = (Inr out, t)"
    using assms(3) by (metis expand_def expand_node_def expand_with_def prod.collapse)
  have "store_ok [] []" by (simp add: store_ok_def)
  note run = tracksD [OF tracks_expand_items [OF follows_resolve_ref [OF assms(1,2)] assms(1) this] settled_init t]
  from run(2,3) [OF refl]
  show "store_ok [] out" "\<exists>n0. \<forall>n\<ge>n0. \<forall>s. fst (expand_node (plain_ref n x) x [] (snapshot x) s) = Inr out"
    by (simp_all add: expand_node_def)
qed


definition sample_bindings :: keystore where
  "sample_bindings = [(u ''a'', SLeaf (LStr (u ''~/d''))),
     (u ''bindings'', SNode [(u ''/x'', SLeaf (LEntry (u ''{a}/s'') None))])]"

lemma sample_expansion:
  "fst (expand (sample_expander sample_bindings)) =
    Inr [(u ''a'', SLeaf (LStr (u ''/h/d''))), (u ''bindings'', SNode [(u ''/x'', SLeaf (LEntry (u ''/h/d/s'') None))])]"
  by code_simp

lemma sample_strict: "\<not> collect_errors (sample_expander ks)" "derives P (sample_expander ks)"
  by (simp_all add: sample_expander_def derives_def)




end
