(* ===== verification/ExpandCycles.thy ===== *)
theory ExpandCycles imports ExpandSound begin

text \<open>
  References that run in a circle have no value, so a strict expansion that meets them is
  refused; and what the walk makes of a value that only looks like a reference.
\<close>

section \<open>Values that name each other\<close>

text \<open>The references a string in the host's space is made of.\<close>

definition mentions :: "expander \<Rightarrow> pystr \<Rightarrow> pystr \<Rightarrow> bool" where
  "mentions x v b \<longleftrightarrow>
     (case is_whole_value_ref v of
        Some name \<Rightarrow> name = b
      | None \<Rightarrow> is_whole_value_var v = None \<and>
          list_ex (\<lambda>tok. tkind tok = TRef \<and> tvalue tok = b) (fst (iter_expr_tokens (declared x) True v)))"

text \<open>The key \<open>a\<close> holds a string that references the key \<open>b\<close>.\<close>

definition hop :: "expander \<Rightarrow> pystr \<Rightarrow> pystr \<Rightarrow> bool" where
  "hop x a b \<longleftrightarrow>
     (case fst (lookup_raw x a init_pass) of
        Inr (Some (SLeaf (LStr v))) \<Rightarrow> \<not> is_verbatim_text (split_char dot a) \<and> mentions x v b
      | _ \<Rightarrow> False)"

text \<open>Keys of which each references the next, and the last the first.\<close>

fun hops :: "expander \<Rightarrow> pystr list \<Rightarrow> bool" where
  "hops x (a # b # rest) \<longleftrightarrow> hop x a b \<and> hops x (b # rest)"
| "hops x _ \<longleftrightarrow> True"

definition circle :: "expander \<Rightarrow> pystr list \<Rightarrow> bool" where
  "circle x c \<longleftrightarrow> c \<noteq> [] \<and> hops x (c @ [hd c])"

lemma hops_next: "hops x (c @ [d]) \<Longrightarrow> a \<in> set c \<Longrightarrow> \<exists>b \<in> set c \<union> {d}. hop x a b"
proof (induction c)
  case (Cons e c)
  then show ?case by (cases c) auto
qed simp

lemma circle_next:
  assumes "circle x c" "a \<in> set c"
  shows "\<exists>b \<in> set c. hop x a b"
proof -
  have "\<exists>b \<in> set c \<union> {hd c}. hop x a b" using assms hops_next by (auto simp: circle_def)
  then show ?thesis using assms(1) by (auto simp: circle_def)
qed

section \<open>What has to succeed\<close>

definition succeeds :: "'a xrun \<Rightarrow> bool" where
  "succeeds m \<longleftrightarrow> (\<exists>s y t. m s = (Inr y, t))"

lemma succeeds_bind:
  assumes "succeeds (bindA m f)"
  shows "succeeds m \<and> (\<exists>y. succeeds (f y))"
proof -
  from assms obtain s z t where z: "bindA m f s = (Inr z, t)" by (auto simp: succeeds_def)
  then obtain y t' where "m s = (Inr y, t')" by (cases "m s"; cases "fst (m s)") (auto simp: bindA_def)
  with z show ?thesis unfolding succeeds_def by (auto simp: bindA_def)
qed

lemma succeeds_catch:
  assumes "succeeds (catch q m (\<lambda>e. raise (h e)))"
  shows "succeeds m"
proof -
  from assms obtain s z t where z: "catch q m (\<lambda>e. raise (h e)) s = (Inr z, t)" by (auto simp: succeeds_def)
  then obtain y t' where "m s = (Inr y, t')"
    by (cases "m s"; cases "fst (m s)") (auto simp: catch_def raise_def split: if_splits)
  then show ?thesis by (auto simp: succeeds_def)
qed

lemma succeeds_mapA: "succeeds (mapA f ys) \<Longrightarrow> y \<in> set ys \<Longrightarrow> succeeds (f y)"
proof (induction ys)
  case (Cons z ys)
  from succeeds_bind [OF Cons.prems(1) [unfolded mapA.simps]]
  obtain y' where "succeeds (f z)" "succeeds (bindA (mapA f ys) (\<lambda>ys. ret (y' # ys)))" by auto
  with succeeds_bind [of "mapA f ys"] Cons show ?case by auto
qed simp

lemma succeeds_frame:
  assumes "succeeds (leaf_frame p m)"
  shows "succeeds m"
proof -
  from assms obtain s z t where z: "leaf_frame p m s = (Inr z, t)" by (auto simp: succeeds_def)
  then obtain y t' where "m (framed p s) = (Inr y, t')"
    by (cases "m (framed p s)"; cases "fst (m (framed p s))") (auto simp: leaf_frame_def)
  then show ?thesis by (auto simp: succeeds_def)
qed

lemma expand_str_mentions:
  assumes "succeeds (expand_str res x False chain v)" "mentions x v b"
  shows "\<exists>chain ok. succeeds (res b chain ok)"
proof (cases "is_whole_value_ref v")
  case (Some name)
  then show ?thesis
    using assms succeeds_bind unfolding expand_str_def mentions_def by fastforce
next
  case None
  with assms(2) obtain toks refusal tok
    where v: "is_whole_value_var v = None" "iter_expr_tokens (declared x) True v = (toks, refusal)"
      "tok \<in> set toks" "tkind tok = TRef" "tvalue tok = b"
    by (auto simp: mentions_def list_ex_iff) (metis prod.collapse)
  with None assms(1) have "succeeds (expand_embedded res x False chain v)"
    unfolding expand_str_def using succeeds_bind by fastforce
  then have "succeeds (mapA (embed_token res x False chain v) toks)"
    unfolding expand_embedded_def v(2) prod.case using succeeds_bind by blast
  then have "succeeds (embed_token res x False chain v tok)" using v(3) by (rule succeeds_mapA)
  then have "succeeds (bindA (lookup_str res x b (chain @ [b])) (\<lambda>(t, nones). ret (t, nones)))"
    unfolding embed_token_def using v(4,5) by (auto dest: succeeds_bind)
  then have "succeeds (lookup_str res x b (chain @ [b]))" using succeeds_bind by blast
  then show ?thesis unfolding lookup_str_def using succeeds_bind by blast
qed

text \<open>The walk expands every leaf of the store.\<close>

lemma ks_lookup_Cons:
  "ks_lookup ((k, v) # items) (seg # rest) =
     (if k = seg then (case rest of [] \<Rightarrow> Some v | _ \<Rightarrow> (case v of SNode sub \<Rightarrow> ks_lookup sub rest | SLeaf _ \<Rightarrow> None))
      else ks_lookup items (seg # rest))"
  by (cases rest) auto

lemma walk_expands:
  assumes "succeeds (expand_items res x path items out)" "\<not> collect_errors x"
    and "ks_lookup items q = Some (SLeaf (LStr v))" "q \<noteq> []" "path = [] \<Longrightarrow> hd q \<noteq> PREF_ROOT"
  shows "succeeds (expand_leaf res x (path @ q) (LStr v))"
  using assms
proof (induction res x path items out arbitrary: q rule: expand_items.induct)
  case (1 res x path out)
  then obtain seg rest where "q = seg # rest" by (cases q) auto
  with "1.prems"(3) show ?case by (cases rest) auto
next
  case (2 res x path key sub items out)
  then obtain seg rest where q: "q = seg # rest" by (cases q) auto
  show ?case
  proof (cases "key = seg")
    case False
    then have "ks_lookup items q = Some (SLeaf (LStr v))"
      using "2.prems"(3) by (simp add: q ks_lookup_Cons)
    note go = this "2.prems"(4,5)
    show ?thesis
    proof (cases "path = [] \<and> key = PREF_ROOT")
      case True
      from succeeds_bind [OF "2.prems"(1) [unfolded expand_items.simps if_P [OF True]]]
      obtain out' where "succeeds (expand_items res x path items out')" by blast
      then show ?thesis by (rule "2.IH"(1) [OF True _ "2.prems"(2) go])
    next
      case no: False
      from succeeds_bind [OF "2.prems"(1) [unfolded expand_items.simps if_not_P [OF no]]]
      obtain sub' where "succeeds (bindA (put_item out key (SNode sub')) (expand_items res x path items))" by blast
      from succeeds_bind [OF this] obtain out' where "succeeds (expand_items res x path items out')" by blast
      then show ?thesis by (rule "2.IH"(3) [OF no _ "2.prems"(2) go])
    qed
  next
    case True
    then have not_pref: "\<not> (path = [] \<and> key = PREF_ROOT)" using "2.prems"(5) q by auto
    from True "2.prems"(3) have rest: "rest \<noteq> []" "ks_lookup sub rest = Some (SLeaf (LStr v))"
      by (auto simp: q ks_lookup_Cons split: list.splits)
    have "succeeds (expand_items res x (path @ [key]) sub [])"
      using "2.prems"(1) succeeds_bind unfolding expand_items.simps if_not_P [OF not_pref] by blast
    from "2.IH"(2) [OF not_pref this "2.prems"(2) rest(2,1)] show ?thesis by (simp add: q True)
  qed
next
  case (3 res x path key w items out)
  then obtain seg rest where q: "q = seg # rest" by (cases q) auto
  note parts = succeeds_bind [OF "3.prems"(1) [unfolded expand_items.simps]]
  show ?case
  proof (cases "key = seg")
    case False
    then show ?thesis using parts "3.IH" "3.prems" by (auto simp: q ks_lookup_Cons)
  next
    case True
    with "3.prems"(3) have w: "rest = []" "w = LStr v" by (auto simp: q ks_lookup_Cons split: list.splits)
    let ?path = "path @ [key]"
    have "succeeds (guarded_leaf res x ?path (path \<noteq> [] \<and> last path = u ''seeded'') key w)"
      using parts succeeds_bind succeeds_frame unfolding place_leaf_def by blast
    then have "succeeds (leaf_entry res x ?path (path \<noteq> [] \<and> last path = u ''seeded'') key w)"
      using "3.prems"(2) succeeds_catch unfolding guarded_leaf_def by (simp only: if_False) blast
    then have "succeeds (bindA (expand_leaf res x ?path w) (\<lambda>r. ret (Some (key, r))))"
      unfolding leaf_entry_def expand_dest_key_def w(2) leaf.case ret_bind option.case .
    then show ?thesis using succeeds_bind True w by (auto simp: q)
  qed
qed

section \<open>A circle has no value\<close>

lemma plain_ref_hop:
  assumes "succeeds (plain_ref (Suc n) x a chain ok)" "hop x a b"
  shows "\<exists>chain ok. succeeds (plain_ref n x b chain ok)"
proof -
  obtain v where v: "fst (lookup_raw x a init_pass) = Inr (Some (SLeaf (LStr v)))"
      "\<not> is_verbatim_text (split_char dot a)" "mentions x v b"
    using assms(2) by (auto simp: hop_def split: sum.splits option.splits store_value.splits leaf.splits)
  have raw: "lookup_raw x a s = (Inr (Some (SLeaf (LStr v))), s)" for s
    by (subst lookup_raw_run [of x a s init_pass]) (simp add: v)
  have "plain_ref (Suc n) x a chain ok = bindA (expand_str (plain_ref n x) x False [] v) (\<lambda>(r, _). ret r)"
    unfolding plain_ref.simps bindA_def raw prod.case sum.case option.case expand_referent_def
      store_value.case leaf.case if_not_P [OF v(2)] ..
  with assms(1) have "succeeds (expand_str (plain_ref n x) x False [] v)"
    using succeeds_bind by metis
  then show ?thesis using v(3) by (rule expand_str_mentions)
qed

lemma circle_has_no_value:
  assumes "circle x c" "a \<in> set c"
  shows "\<not> succeeds (plain_ref n x a chain ok)"
  using assms(2)
proof (induction n arbitrary: a chain ok)
  case 0
  show ?case by (simp add: succeeds_def raise_def)
next
  case (Suc n)
  from circle_next [OF assms(1) Suc.prems] obtain b where "b \<in> set c" "hop x a b" ..
  with Suc.IH plain_ref_hop show ?case by blast
qed



section \<open>A value that only looks like a reference\<close>

text \<open>
  The whole-value test asks the reference grammar at index 0 without looking at the character
  there: any first character will do. The tokenizer refuses such a value, so a value like
  \<open>xb}\<close>, an unpaired brace, is resolved as the reference \<open>{b}\<close>.
\<close>

lemma whole_value_first_character_unread:
  "is_whole_value_ref (c # s) = is_whole_value_ref (open_brace # s)"
  "is_whole_value_var (c # s) = is_whole_value_var (open_brace # s)"
proof -
  have "match_braced (c # s) = match_braced (open_brace # s)" by (simp add: match_braced_def)
  then show "is_whole_value_ref (c # s) = is_whole_value_ref (open_brace # s)"
    "is_whole_value_var (c # s) = is_whole_value_var (open_brace # s)"
    by (simp_all only: is_whole_value_ref_def is_whole_value_var_def whole_braced_def list.size)
qed

lemma unpaired_brace_resolved:
  "snd (iter_expr_tokens (\<lambda>_. False) True (u ''xb}'')) = Some (UnpairedClose (u ''}''))"
  "fst (expand (sample_expander [(u ''a'', SLeaf (LStr (u ''xb}''))), (u ''b'', SLeaf (LInt 3))])) =
    Inr [(u ''a'', SLeaf (LInt 3)), (u ''b'', SLeaf (LInt 3))]"
  by code_simp+

end
