(* ===== verification/Keys.thy ===== *)
theory Keys imports Categories Expr Keystore begin

text \<open>
  The closed keyspace (\<open>settings_keyspace.py\<close>): what a dotted path is to it, a key, a declared
  interior, or nothing. The vocabulary of the agents installed here is an argument; the prose
  of a refusal is not modelled.
\<close>

section \<open>The declared names\<close>

definition DECLARED_CONFIG_LEAVES :: "pystr list" where
  "DECLARED_CONFIG_LEAVES =
     [u ''data'', u ''settings'', u ''agents'', u ''primary_workset'', u ''registry'', u ''journal'']"

definition DECLARED_SYSTEM_LEAVES :: "pystr list" where
  "DECLARED_SYSTEM_LEAVES =
     [u ''channelroot'', u ''template'', u ''canon'', u ''backup'', u ''cache'', u ''state'', u ''runtime'',
      u ''agent'', u ''setup_completed'']"

definition DECLARED_SYSTEM_CHANNEL_LEAVES :: "pystr list" where
  "DECLARED_SYSTEM_CHANNEL_LEAVES = [u ''common'', u ''chat'', u ''broadcast'', u ''mailboxes'', u ''share'']"

definition DECLARED_SYSTEM_HELPERS_LEAVES :: "pystr list" where
  "DECLARED_SYSTEM_HELPERS_LEAVES = [u ''depth'', u ''breadth'']"

definition DECLARED_SYSTEM_AUTH_LEAVES :: "pystr list" where
  "DECLARED_SYSTEM_AUTH_LEAVES = [u ''share_allowed'']"

definition DECLARED_BOX_LEAVES :: "pystr list" where
  "DECLARED_BOX_LEAVES =
     [u ''image'', u ''share_images'', u ''images_store'', u ''canon'', u ''shell'', u ''enable_vault'']"

definition DECLARED_BOX_AUTH_LEAVES :: "pystr list" where
  "DECLARED_BOX_AUTH_LEAVES = [u ''global_enabled'', u ''workset_enabled'']"

definition DECLARED_WORKSET_LEAVES :: "pystr list" where
  "DECLARED_WORKSET_LEAVES =
     [u ''workspaces'', u ''boxes'', u ''logs'', u ''template'', u ''canon'', u ''kuid'', u ''skip_kuid_check'',
      u ''vault_ro'', u ''vault_rw'', u ''channelroot'']"

definition DECLARED_WORKSET_AUTH_LEAVES :: "pystr list" where
  "DECLARED_WORKSET_AUTH_LEAVES = [u ''share_allowed'', u ''global_sync'', u ''path'']"

definition DECLARED_WORKSET_CHANNEL_LEAVES :: "pystr list" where
  "DECLARED_WORKSET_CHANNEL_LEAVES =
     [u ''common'', u ''chat'', u ''broadcast'', u ''share'', u ''mailboxes'', u ''share_global'']"

definition DECLARED_AGENT_LEAVES :: "pystr list" where
  "DECLARED_AGENT_LEAVES =
     [u ''label'', u ''access'', u ''allow_helpers'', u ''continue_mode'', u ''bootstrap'', u ''model'',
      u ''run_args'', u ''transform'', u ''transform_settings'', u ''endpoint'', u ''template'', u ''canon'']"

definition BIND_CATEGORIES :: "pystr list" where
  "BIND_CATEGORIES =
     [u ''bindings.ro'', u ''bindings.rw'', u ''caches'', u ''seeded'', u ''common'', u ''synced'']"

definition BIND_LEAF_CATEGORIES :: "pystr list" where
  "BIND_LEAF_CATEGORIES = filter (\<lambda>c. dot \<notin> set c) BIND_CATEGORIES"

text \<open>The first segment of each category family.\<close>

definition CATEGORY_FAMILY_ROOTS :: "pystr list" where
  "CATEGORY_FAMILY_ROOTS = map (\<lambda>(c, _). takeWhile (\<lambda>x. x \<noteq> dot) c) DELIVERY"

definition VAR_KEYED_CATEGORIES :: "pystr list" where
  "VAR_KEYED_CATEGORIES = filter (\<lambda>c. c \<notin> set (map hd TERMINAL_CATEGORY_TAILS)) CATEGORY_FAMILY_ROOTS"

definition DECLARED_META_RUNTIME_LEAVES :: "pystr list" where
  "DECLARED_META_RUNTIME_LEAVES = [u ''ws_root'', u ''ws_name'', u ''project_type'']"

definition DECLARED_META_RUNTIME_USER_LEAVES :: "pystr list" where
  "DECLARED_META_RUNTIME_USER_LEAVES = [u ''config'']"

definition DECLARED_META_RUNTIME_ADMIN_LEAVES :: "pystr list" where
  "DECLARED_META_RUNTIME_ADMIN_LEAVES = [u ''config'', u ''settings'']"

definition DECLARED_META_ASSEMBLY_LEAVES :: "pystr list" where
  "DECLARED_META_ASSEMBLY_LEAVES = [u ''bindings'', u ''seeded'', u ''synced'', u ''env'']"

definition DECLARED_META_WORKSET_LEAVES :: "pystr list" where
  "DECLARED_META_WORKSET_LEAVES = [u ''path'', u ''name'', u ''settings'', u ''registry'']"

definition DECLARED_META_BOX_LEAVES :: "pystr list" where
  "DECLARED_META_BOX_LEAVES =
     [u ''path'', u ''name'', u ''mode'', u ''workspace'', u ''settings'', u ''inbox'', u ''share_global'',
      u ''share_workset'', u ''home'', u ''container'', u ''helper_num'']"

definition DECLARED_META_BOX_AUTH_LEAVES :: "pystr list" where
  "DECLARED_META_BOX_AUTH_LEAVES = [u ''workset_path'', u ''global_active'', u ''workset_active'']"

definition DECLARED_META_WORKSET_AUTH_LEAVES :: "pystr list" where
  "DECLARED_META_WORKSET_AUTH_LEAVES = [u ''global_active'']"

definition DECLARED_META_AGENT_LEAVES :: "pystr list" where
  "DECLARED_META_AGENT_LEAVES = [u ''name'', u ''path'', u ''settings'', u ''mode'', u ''exec'']"

definition DECLARED_META_AGENT_AUTH_LEAVES :: "pystr list" where
  "DECLARED_META_AGENT_AUTH_LEAVES = [u ''share_support'']"

text \<open>A pseudo-agent's own block is complete: a leaf it does not list is no key there.\<close>

record pseudo_agent_fence =
  fence_leaves :: "pystr list"
  meta_leaves :: "pystr list"
  meta_auth_leaves :: "pystr list"

definition PSEUDO_AGENT_FENCES :: "(pystr \<times> pseudo_agent_fence) list" where
  "PSEUDO_AGENT_FENCES =
     [(u ''default'', \<lparr>fence_leaves = DECLARED_AGENT_LEAVES, meta_leaves = [], meta_auth_leaves = []\<rparr>),
      (u ''shell'', \<lparr>fence_leaves = DECLARED_AGENT_LEAVES,
         meta_leaves = [u ''name'', u ''path'', u ''settings'', u ''mode'', u ''exec''],
         meta_auth_leaves = [u ''share_support'']\<rparr>)]"

definition pseudo_agent_fence :: "pystr \<Rightarrow> pseudo_agent_fence option" where
  "pseudo_agent_fence name = map_of PSEUDO_AGENT_FENCES name"

section \<open>Reserved leaf names\<close>

text \<open>A regular expression's \<open>$\<close> also matches before a newline that ends the string.\<close>

definition chomp :: "pystr \<Rightarrow> pystr" where
  "chomp s = (if s \<noteq> [] \<and> last s = 10 then butlast s else s)"

definition dunder :: "pystr \<Rightarrow> bool" where
  "dunder s \<longleftrightarrow> (let t = chomp s in
     4 \<le> length t \<and> prefix (u ''__'') t \<and> suffix (u ''__'') t \<and> 10 \<notin> set t)"

definition env_var_name :: "pystr \<Rightarrow> bool" where
  "env_var_name s \<longleftrightarrow> (case chomp s of [] \<Rightarrow> False | c # t \<Rightarrow> var_start c \<and> list_all var_char t)"

definition leaf_name_refused :: "pystr \<Rightarrow> bool" where
  "leaf_name_refused leaf \<longleftrightarrow> leaf \<in> set RESERVED_KEY_NAMES \<or> dunder leaf"

section \<open>Globs and requests\<close>

definition PREF_ALLOWLIST :: "pystr list" where
  "PREF_ALLOWLIST = [u ''system.agent'', u ''agent.*.**'']"

fun glob_loop :: "pystr list \<Rightarrow> pystr list \<Rightarrow> bool" where
  "glob_loop [] seg = (seg = [])"
| "glob_loop (token # pat) seg =
     (if token = u ''**'' then seg \<noteq> []
      else (case seg of
          [] \<Rightarrow> False
        | s # segs \<Rightarrow> (token = u ''*'' \<or> token = s) \<and> glob_loop pat segs))"

definition glob_match :: "pystr \<Rightarrow> pystr \<Rightarrow> bool" where
  "glob_match pattern key =
     (let seg = split_char dot key in [] \<notin> set seg \<and> glob_loop (split_char dot pattern) seg)"

definition pref_allowlist_entry :: "pystr \<Rightarrow> pystr option" where
  "pref_allowlist_entry target = find (\<lambda>pattern. glob_match pattern target) PREF_ALLOWLIST"

definition is_pref_interior :: "pystr list \<Rightarrow> bool" where
  "is_pref_interior segments =
     list_ex (\<lambda>pattern. let tokens = split_char dot pattern in
         length segments < length tokens \<and>
         list_all (\<lambda>(tok, seg). tok \<noteq> u ''**'' \<and> (tok = u ''*'' \<or> tok = seg)) (zip tokens segments))
       PREF_ALLOWLIST"

section \<open>The agents installed here\<close>

text \<open>
  Each harness with the leaves its plugin declares; a conceding map also says which harnesses it
  could not read, a plain mapping concedes nothing.
\<close>

record leaf_map =
  harness_leaves :: "(pystr \<times> pystr list) list"
  conceded :: "(pystr \<Rightarrow> bool) option"

text \<open>\<open>valid_agent\<close> is membership in the injected names.\<close>

record key_oracle =
  unicode_tables :: unicode
  valid_agent :: "pystr \<Rightarrow> bool"
  agent_leaf_map :: "leaf_map option"

definition is_valid_agent_segment :: "key_oracle \<Rightarrow> pystr \<Rightarrow> bool" where
  "is_valid_agent_segment w segment \<longleftrightarrow>
     segment \<in> set PSEUDO_AGENT_NAMES \<or> valid_agent w segment \<or>
     (case canonicalize_agent_ref (unicode_tables w) (PyStr segment) of
        Inl _ \<Rightarrow> False | Inr nd \<Rightarrow> valid_agent w (harness_of nd))"

definition is_category_token :: "pystr \<Rightarrow> bool" where
  "is_category_token token \<longleftrightarrow> token \<in> set CATEGORY_FAMILY_ROOTS"

definition could_name_an_agent :: "pystr \<Rightarrow> bool" where
  "could_name_an_agent segment \<longleftrightarrow> segment \<notin> set PSEUDO_AGENT_NAMES \<and> \<not> is_category_token segment"

text \<open>\<open>None\<close> is the concession: this agent's vocabulary cannot be read here.\<close>

definition agent_declared_leaves :: "key_oracle \<Rightarrow> pystr \<Rightarrow> pystr list option" where
  "agent_declared_leaves w name =
     (case agent_leaf_map w of
        None \<Rightarrow> Some []
      | Some m \<Rightarrow>
          if \<not> could_name_an_agent name then Some []
          else (case canonicalize_agent_ref (unicode_tables w) (PyStr name) of
              Inl _ \<Rightarrow> Some []
            | Inr nd \<Rightarrow>
                (case map_of (harness_leaves m) (harness_of nd) of
                   Some ls \<Rightarrow> Some ls
                 | None \<Rightarrow>
                     (case conceded m of
                        None \<Rightarrow> Some []
                      | Some un \<Rightarrow> if un (harness_of nd) then None else Some []))))"

text \<open>\<open>unread_harnesses\<close>: a discovery result concedes every harness it did not read.\<close>

definition unread_harnesses :: "(pystr \<times> pystr list) list \<Rightarrow> pystr \<Rightarrow> bool" where
  "unread_harnesses read item \<longleftrightarrow> map_of read item = None"

text \<open>\<open>AgentVocabulary\<close>: the universal table, or the pseudo-agent's fence, then the agent's own.\<close>

definition vocabulary_contains :: "key_oracle \<Rightarrow> pystr \<Rightarrow> pystr \<Rightarrow> bool" where
  "vocabulary_contains w name item \<longleftrightarrow>
     item \<in> set (case pseudo_agent_fence name of None \<Rightarrow> DECLARED_AGENT_LEAVES | Some f \<Rightarrow> fence_leaves f) \<or>
     (case agent_declared_leaves w name of None \<Rightarrow> False | Some own \<Rightarrow> item \<in> set own)"

definition vocabulary_is_known :: "key_oracle \<Rightarrow> pystr \<Rightarrow> bool" where
  "vocabulary_is_known w name \<longleftrightarrow> agent_declared_leaves w name \<noteq> None"

definition agent_leaf_is_declared :: "key_oracle \<Rightarrow> pystr \<Rightarrow> pystr \<Rightarrow> bool" where
  "agent_leaf_is_declared w name leaf \<longleftrightarrow> vocabulary_contains w name leaf \<or> \<not> vocabulary_is_known w name"

text \<open>The union over every harness, for the one surface whose key names no agent.\<close>

definition effective_agent_leaves :: "key_oracle \<Rightarrow> pystr \<Rightarrow> bool" where
  "effective_agent_leaves w item \<longleftrightarrow> item \<in> set DECLARED_AGENT_LEAVES \<or>
     (case agent_leaf_map w of None \<Rightarrow> False | Some m \<Rightarrow> list_ex (\<lambda>(_, ls). item \<in> set ls) (harness_leaves m))"

section \<open>The class of a key\<close>

datatype key_class = KEY | NAMESPACE | UNDECLARED

text \<open>A declared leaf, under the floor of reserved names.\<close>

definition leaf_class :: "pystr \<Rightarrow> key_class" where
  "leaf_class leaf = (if leaf_name_refused leaf then UNDECLARED else KEY)"

text \<open>A tail that starts with a category token, after the scope.\<close>

definition category_class :: "pystr list \<Rightarrow> key_class" where
  "category_class rest =
     (case rest of
        [] \<Rightarrow> NAMESPACE
      | h # tail \<Rightarrow>
          if h = u ''masks'' then (if tail = [] then KEY else UNDECLARED)
          else if h \<in> set VAR_KEYED_CATEGORIES then
            (case tail of
               [] \<Rightarrow> NAMESPACE
             | [var] \<Rightarrow> if env_var_name var then leaf_class var else UNDECLARED
             | _ \<Rightarrow> UNDECLARED)
          else if h = u ''bindings'' then
            (case tail of
               [] \<Rightarrow> NAMESPACE
             | [arm] \<Rightarrow> if arm \<in> {u ''ro'', u ''rw''} then KEY else UNDECLARED
             | _ \<Rightarrow> UNDECLARED)
          else if h \<in> set BIND_LEAF_CATEGORIES then (if tail = [] then KEY else UNDECLARED)
          else UNDECLARED)"

definition looks_like_category :: "pystr list \<Rightarrow> bool" where
  "looks_like_category rest \<longleftrightarrow> rest \<noteq> [] \<and> is_category_token (hd rest)"

definition scope_class :: "pystr list \<Rightarrow> (pystr \<times> pystr list) list \<Rightarrow> pystr list \<Rightarrow> key_class" where
  "scope_class leaves sub_tables rest =
     (if rest = [] then NAMESPACE
      else if looks_like_category rest then category_class rest
      else (case rest of
          [l] \<Rightarrow> if l \<in> set leaves then leaf_class l
                 else if map_of sub_tables l \<noteq> None then NAMESPACE else UNDECLARED
        | [t, l] \<Rightarrow> (case map_of sub_tables t of
              None \<Rightarrow> UNDECLARED
            | Some table \<Rightarrow> if l \<in> set table then leaf_class l else UNDECLARED)
        | _ \<Rightarrow> UNDECLARED))"

text \<open>The tail of an agent key: its vocabulary, and whether it can be read here.\<close>

definition agent_tail_class :: "(pystr \<Rightarrow> bool) \<Rightarrow> bool \<Rightarrow> pystr list \<Rightarrow> key_class" where
  "agent_tail_class leaves leaves_known tail =
     (if tail = [] then NAMESPACE
      else if looks_like_category tail then category_class tail
      else (case tail of
          [l] \<Rightarrow> if leaves l \<or> \<not> leaves_known then leaf_class l else UNDECLARED
        | _ \<Rightarrow> UNDECLARED))"

definition meta_agent_class :: "key_oracle \<Rightarrow> pystr list \<Rightarrow> key_class" where
  "meta_agent_class w tail =
     (case tail of
        [] \<Rightarrow> NAMESPACE
      | name # sub \<Rightarrow>
          if \<not> is_valid_agent_segment w name then UNDECLARED
          else (let fence = pseudo_agent_fence name;
                    own = (case fence of None \<Rightarrow> DECLARED_META_AGENT_LEAVES | Some f \<Rightarrow> meta_leaves f);
                    auth = (case fence of None \<Rightarrow> DECLARED_META_AGENT_AUTH_LEAVES | Some f \<Rightarrow> meta_auth_leaves f)
                in if fence \<noteq> None \<and> own = [] \<and> auth = [] then UNDECLARED
                   else (case sub of
                       [] \<Rightarrow> NAMESPACE
                     | [l] \<Rightarrow> if l \<in> set own then KEY
                              else if l = u ''auth'' \<and> auth \<noteq> [] then NAMESPACE else UNDECLARED
                     | [t, l] \<Rightarrow> if t = u ''auth'' \<and> l \<in> set auth then KEY else UNDECLARED
                     | _ \<Rightarrow> UNDECLARED)))"

definition meta_box_class :: "key_oracle \<Rightarrow> pystr list \<Rightarrow> key_class" where
  "meta_box_class w tail =
     (case tail of
        [] \<Rightarrow> NAMESPACE
      | l # mirror \<Rightarrow>
          if mirror = [] \<and> l \<in> set DECLARED_META_BOX_LEAVES then KEY
          else if mirror = [] \<and> l = u ''auth'' then NAMESPACE
          else if length mirror = 1 \<and> l = u ''auth'' then
            (if hd mirror \<in> set DECLARED_META_BOX_AUTH_LEAVES then KEY else UNDECLARED)
          else if l = u ''agent'' then
            (if mirror = [u ''auth''] then NAMESPACE
             else if length mirror = 2 \<and> hd mirror = u ''auth'' then
               (if mirror ! 1 \<in> set DECLARED_META_AGENT_AUTH_LEAVES then KEY else UNDECLARED)
             else agent_tail_class (effective_agent_leaves w) True mirror)
          else UNDECLARED)"

definition meta_runtime_class :: "pystr list \<Rightarrow> key_class" where
  "meta_runtime_class tail =
     (case tail of
        [] \<Rightarrow> NAMESPACE
      | [l] \<Rightarrow> if l \<in> set DECLARED_META_RUNTIME_LEAVES then KEY
               else if l \<in> {u ''user'', u ''admin''} then NAMESPACE else UNDECLARED
      | [t, l] \<Rightarrow>
          if t = u ''user'' then (if l \<in> set DECLARED_META_RUNTIME_USER_LEAVES then KEY else UNDECLARED)
          else if t = u ''admin'' then (if l \<in> set DECLARED_META_RUNTIME_ADMIN_LEAVES then KEY else UNDECLARED)
          else UNDECLARED
      | _ \<Rightarrow> UNDECLARED)"

definition meta_workset_class :: "pystr list \<Rightarrow> key_class" where
  "meta_workset_class tail =
     (case tail of
        [] \<Rightarrow> NAMESPACE
      | [l] \<Rightarrow> if l \<in> set DECLARED_META_WORKSET_LEAVES then KEY
               else if l = u ''auth'' then NAMESPACE else UNDECLARED
      | [t, l] \<Rightarrow>
          if t = u ''auth'' \<and> l \<in> set DECLARED_META_WORKSET_AUTH_LEAVES then KEY else UNDECLARED
      | _ \<Rightarrow> UNDECLARED)"

definition meta_class :: "key_oracle \<Rightarrow> pystr list \<Rightarrow> key_class" where
  "meta_class w rest =
     (case rest of
        [] \<Rightarrow> NAMESPACE
      | grp # tail \<Rightarrow>
          if grp = u ''runtime'' then meta_runtime_class tail
          else if grp = u ''assembly'' then
            (case tail of
               [] \<Rightarrow> NAMESPACE
             | [l] \<Rightarrow> if l \<in> set DECLARED_META_ASSEMBLY_LEAVES then KEY else UNDECLARED
             | _ \<Rightarrow> UNDECLARED)
          else if grp = u ''workset'' then meta_workset_class tail
          else if grp = u ''box'' then meta_box_class w tail
          else if grp = u ''agent'' then meta_agent_class w tail
          else UNDECLARED)"

definition FILE_ALIAS :: pystr where "FILE_ALIAS = u ''self''"

definition agent_class :: "key_oracle \<Rightarrow> pystr list \<Rightarrow> key_class" where
  "agent_class w rest =
     (case rest of
        [] \<Rightarrow> NAMESPACE
      | name # tail \<Rightarrow>
          if name = FILE_ALIAS then UNDECLARED
          else if \<not> is_valid_agent_segment w name then UNDECLARED
          else agent_tail_class (vocabulary_contains w name) (vocabulary_is_known w name) tail)"

definition config_class :: "pystr list \<Rightarrow> key_class" where
  "config_class rest =
     (case rest of
        [] \<Rightarrow> NAMESPACE
      | [l] \<Rightarrow> if l \<in> set DECLARED_CONFIG_LEAVES then KEY else UNDECLARED
      | _ \<Rightarrow> UNDECLARED)"

text \<open>
  \<open>key_class\<close> on the segments of a key, none of them empty. A request \<open>pref.<target>\<close> takes its
  target's class, if the target is allowlisted or lies above one that is.
\<close>

fun segments_class :: "key_oracle \<Rightarrow> pystr list \<Rightarrow> key_class" where
  "segments_class w [] = UNDECLARED"
| "segments_class w (h # rest) =
     (if h = u ''config'' then config_class rest
      else if h = u ''meta'' then meta_class w rest
      else if h = u ''pref'' then
        (if rest = [] then NAMESPACE
         else if hd rest = u ''pref'' then UNDECLARED
         else if pref_allowlist_entry (join_char dot rest) = None \<and> \<not> is_pref_interior rest then UNDECLARED
         else if pref_allowlist_entry (join_char dot rest) = None then
           (if segments_class w rest = NAMESPACE then NAMESPACE else UNDECLARED)
         else segments_class w rest)
      else if h = u ''system'' then
        scope_class DECLARED_SYSTEM_LEAVES
          [(u ''channels'', DECLARED_SYSTEM_CHANNEL_LEAVES), (u ''helpers'', DECLARED_SYSTEM_HELPERS_LEAVES),
           (u ''auth'', DECLARED_SYSTEM_AUTH_LEAVES)] rest
      else if h = u ''workset'' then
        scope_class DECLARED_WORKSET_LEAVES
          [(u ''channels'', DECLARED_WORKSET_CHANNEL_LEAVES), (u ''auth'', DECLARED_WORKSET_AUTH_LEAVES)] rest
      else if h = u ''box'' then
        scope_class DECLARED_BOX_LEAVES [(u ''auth'', DECLARED_BOX_AUTH_LEAVES)] rest
      else if h = u ''agent'' then agent_class w rest
      else UNDECLARED)"

definition key_class :: "key_oracle \<Rightarrow> pystr \<Rightarrow> key_class" where
  "key_class w key = (if key = [] \<or> [] \<in> set (split_char dot key) then UNDECLARED
     else segments_class w (split_char dot key))"

definition key_validity :: "key_oracle \<Rightarrow> pystr \<Rightarrow> bool" where
  "key_validity w key \<longleftrightarrow> key_class w key = KEY"

section \<open>Every interior of a key is a namespace\<close>

text \<open>The interiors of \<open>rest\<close> under a class: what precedes a key is a namespace.\<close>

definition interiors :: "(pystr list \<Rightarrow> key_class) \<Rightarrow> bool" where
  "interiors cls \<longleftrightarrow> (\<forall>rest i. cls rest = KEY \<longrightarrow> i < length rest \<longrightarrow> cls (take i rest) = NAMESPACE)"

lemma interiorsI:
  assumes "\<And>rest i. cls rest = KEY \<Longrightarrow> i < length rest \<Longrightarrow> cls (take i rest) = NAMESPACE"
  shows "interiors cls"
  using assms by (simp add: interiors_def)

lemma interiorsD: "interiors cls \<Longrightarrow> cls rest = KEY \<Longrightarrow> i < length rest \<Longrightarrow> cls (take i rest) = NAMESPACE"
  by (simp add: interiors_def)

text \<open>Keys of at most two segments, as most tables hold.\<close>

lemma take_one_two:
  "i < length [a] \<Longrightarrow> take i [a] = []"
  "i < length [a, b] \<Longrightarrow> take i [a, b] = [] \<or> take i [a, b] = [a]"
  by (auto simp: less_Suc_eq take_Cons' split: nat.splits)

lemma interiors_category: "interiors category_class"
proof (rule interiorsI)
  fix rest i
  assume key: "category_class rest = KEY" and i: "i < length rest"
  then obtain h tail where rest: "rest = h # tail" by (cases rest) (auto simp: category_class_def)
  show "category_class (take i rest) = NAMESPACE"
  proof (cases tail)
    case Nil
    with i rest show ?thesis by (simp add: category_class_def)
  next
    case (Cons arm t)
    with key rest have "t = []" "h \<noteq> u ''masks''" "h \<in> set VAR_KEYED_CATEGORIES \<or> h = u ''bindings''"
      by (auto simp: category_class_def split: list.splits if_splits)
    with i rest Cons show ?thesis
      by (auto simp: category_class_def take_Cons' split: if_splits)
  qed
qed

lemma looks_like_category_take: "0 < i \<Longrightarrow> looks_like_category (take i rest) = looks_like_category rest"
  by (cases rest; cases i) (auto simp: looks_like_category_def)

lemma interiors_scope:
  assumes "list_all (\<lambda>(t, _). t \<notin> set leaves) sub_tables"
  shows "interiors (scope_class leaves sub_tables)"
proof (rule interiorsI)
  fix rest i
  assume key: "scope_class leaves sub_tables rest = KEY" and i: "i < length rest"
  show "scope_class leaves sub_tables (take i rest) = NAMESPACE"
  proof (cases "i = 0")
    case False
    then have l: "looks_like_category (take i rest) = looks_like_category rest" "take i rest \<noteq> []"
      using i by (auto simp: looks_like_category_take)
    show ?thesis
    proof (cases "looks_like_category rest")
      case True
      with key i have "category_class rest = KEY" by (auto simp: scope_class_def split: if_splits)
      with i l True show ?thesis by (simp add: scope_class_def interiorsD [OF interiors_category])
    next
      case no: False
      with key False i obtain t x where r: "rest = [t, x]" "map_of sub_tables t \<noteq> None"
        by (auto simp: scope_class_def split: list.splits if_splits option.splits)
      with False i have "take i rest = [t]" by (auto simp: take_Cons' less_Suc_eq)
      moreover have "t \<notin> set leaves"
        using assms r(2) by (auto simp: list_all_iff dest!: map_of_SomeD)
      ultimately show ?thesis using l(1) no r(2) by (simp add: scope_class_def)
    qed
  qed (simp add: scope_class_def)
qed

lemma interiors_agent_tail: "interiors (agent_tail_class leaves known)"
proof (rule interiorsI)
  fix rest i
  assume key: "agent_tail_class leaves known rest = KEY" and i: "i < length rest"
  show "agent_tail_class leaves known (take i rest) = NAMESPACE"
  proof (cases "i = 0")
    case False
    with i have l: "looks_like_category (take i rest) = looks_like_category rest" "take i rest \<noteq> []"
      by (auto simp: looks_like_category_take)
    have "looks_like_category rest"
      using key i False by (auto simp: agent_tail_class_def split: list.splits if_splits)
    with key i l show ?thesis
      by (auto simp: agent_tail_class_def interiorsD [OF interiors_category] split: if_splits)
  qed (simp add: agent_tail_class_def)
qed

lemma no_auth_leaf:
  "u ''auth'' \<notin> set DECLARED_META_BOX_LEAVES" "u ''agent'' \<notin> set DECLARED_META_BOX_LEAVES"
  "u ''auth'' \<notin> set DECLARED_META_WORKSET_LEAVES" "u ''auth'' \<notin> set DECLARED_META_AGENT_LEAVES"
  "u ''user'' \<notin> set DECLARED_META_RUNTIME_LEAVES" "u ''admin'' \<notin> set DECLARED_META_RUNTIME_LEAVES"
  "u ''auth'' \<noteq> u ''agent''" "\<not> is_category_token (u ''auth'')"
  by code_simp+

lemma fence_auth_leaf: "pseudo_agent_fence name = Some f \<Longrightarrow> u ''auth'' \<notin> set (meta_leaves f)"
  unfolding pseudo_agent_fence_def PSEUDO_AGENT_FENCES_def
  by (auto split: if_splits simp: pystr_simps)

lemma interiors_meta_box: "interiors (meta_box_class w)"
proof (rule interiorsI)
  fix tail i
  assume key: "meta_box_class w tail = KEY" and i: "i < length tail"
  then obtain l mirror where t: "tail = l # mirror" by (cases tail) auto
  show "meta_box_class w (take i tail) = NAMESPACE"
  proof (cases i)
    case 0
    then show ?thesis by (simp add: meta_box_class_def)
  next
    case (Suc j)
    with i t have j: "j < length mirror" by simp
    show ?thesis
    proof (cases "l = u ''auth''")
      case True
      with key t j have "length mirror = 1"
        using no_auth_leaf by (auto simp: meta_box_class_def split: if_splits)
      with j Suc t True show ?thesis using no_auth_leaf by (auto simp: meta_box_class_def)
    next
      case auth: False
      with key t j have l: "l = u ''agent''" by (auto simp: meta_box_class_def split: if_splits)
      show ?thesis
      proof (cases "length mirror = 2 \<and> hd mirror = u ''auth''")
        case True
        then obtain x where "mirror = [u ''auth'', x]" by (cases mirror; cases "tl mirror") auto
        with j have "take j mirror = [] \<or> take j mirror = [u ''auth'']" using take_one_two by simp
        then show ?thesis
          using Suc t l auth no_auth_leaf by (auto simp: meta_box_class_def agent_tail_class_def)
      next
        case False
        with key t l auth j have tailkey: "agent_tail_class (effective_agent_leaves w) True mirror = KEY"
          using no_auth_leaf by (auto simp: meta_box_class_def split: if_splits)
        have "\<not> (length (take j mirror) = 2 \<and> hd (take j mirror) = u ''auth'')"
        proof
          assume two: "length (take j mirror) = 2 \<and> hd (take j mirror) = u ''auth''"
          then have "hd mirror = u ''auth''" "2 < length mirror" using j by (cases j; cases mirror; auto)+
          then show False
            using tailkey no_auth_leaf(8)
            by (auto simp: agent_tail_class_def looks_like_category_def split: list.splits if_splits)
        qed
        with interiorsD [OF interiors_agent_tail tailkey j] Suc t l auth no_auth_leaf show ?thesis
          by (auto simp: meta_box_class_def)
      qed
    qed
  qed
qed

lemma interiors_small:
  assumes "\<And>rest. cls rest = KEY \<Longrightarrow> length rest \<le> 2" "cls [] = NAMESPACE"
    and "\<And>t l. cls [t, l] = KEY \<Longrightarrow> cls [t] = NAMESPACE"
  shows "interiors cls"
proof (rule interiorsI)
  fix rest i
  assume key: "cls rest = KEY" and i: "i < length rest"
  from assms(1) [OF key] have "length rest = 1 \<or> length rest = 2" using i by linarith
  then show "cls (take i rest) = NAMESPACE"
    using key i assms(2,3) by (auto simp: length_Suc_conv numeral_2_eq_2 less_Suc_eq)
qed

lemma interiors_meta_runtime: "interiors meta_runtime_class"
  by (rule interiors_small)
    (use no_auth_leaf in \<open>auto simp: meta_runtime_class_def split: list.splits if_splits\<close>)

lemma interiors_meta_workset: "interiors meta_workset_class"
  by (rule interiors_small)
    (use no_auth_leaf in \<open>auto simp: meta_workset_class_def split: list.splits if_splits\<close>)

lemma interiors_config: "interiors config_class"
  by (rule interiors_small) (auto simp: config_class_def split: list.splits if_splits)

lemma interiors_meta_agent: "interiors (meta_agent_class w)"
proof (rule interiorsI)
  fix tail i
  assume key: "meta_agent_class w tail = KEY" and i: "i < length tail"
  then obtain name sub where t: "tail = name # sub" by (cases tail) auto
  show "meta_agent_class w (take i tail) = NAMESPACE"
  proof (cases i)
    case 0
    then show ?thesis by (simp add: meta_agent_class_def)
  next
    case (Suc j)
    with i t have j: "j < length sub" by simp
    from key t have "length sub \<le> 2" by (auto simp: meta_agent_class_def Let_def split: list.splits if_splits)
    with j have "length sub = 1 \<or> length sub = 2" by linarith
    then show ?thesis
      using key t j Suc no_auth_leaf fence_auth_leaf
      by (cases "pseudo_agent_fence name")
        (auto simp: meta_agent_class_def Let_def length_Suc_conv numeral_2_eq_2 less_Suc_eq split: if_splits)
  qed
qed

lemma interiors_cons:
  assumes "\<And>h. interiors (sub h)" "cls [] = NAMESPACE"
    and "\<And>h rest. cls (h # rest) = KEY \<Longrightarrow> \<forall>q. cls (h # q) = sub h q"
  shows "interiors cls"
proof (rule interiorsI)
  fix rest i
  assume key: "cls rest = KEY" and i: "i < length rest"
  then obtain h q where r: "rest = h # q" by (cases rest) auto
  show "cls (take i rest) = NAMESPACE"
  proof (cases i)
    case (Suc j)
    with assms(3) [of h q] key r i show ?thesis
      by (simp add: interiorsD [OF assms(1) [of h]])
  qed (simp add: assms(2))
qed

lemma interiors_meta: "interiors (meta_class w)"
proof (rule interiorsI)
  fix rest i
  assume key: "meta_class w rest = KEY" and i: "i < length rest"
  then obtain g tail where r: "rest = g # tail" by (cases rest) auto
  have small: "interiors (\<lambda>tail. case tail of [] \<Rightarrow> NAMESPACE
      | [l] \<Rightarrow> if l \<in> set DECLARED_META_ASSEMBLY_LEAVES then KEY else UNDECLARED | _ \<Rightarrow> UNDECLARED)"
    by (rule interiors_small) (auto split: list.splits if_splits)
  show "meta_class w (take i rest) = NAMESPACE"
  proof (cases i)
    case (Suc j)
    with key r i show ?thesis
      by (auto simp: meta_class_def interiorsD [OF interiors_meta_runtime] interiorsD [OF interiors_meta_workset]
          interiorsD [OF interiors_meta_box] interiorsD [OF interiors_meta_agent] interiorsD [OF small]
          split: if_splits)
  qed (simp add: meta_class_def)
qed

lemma interiors_agent: "interiors (agent_class w)"
proof (rule interiorsI)
  fix rest i
  assume key: "agent_class w rest = KEY" and i: "i < length rest"
  then obtain name tail where r: "rest = name # tail" by (cases rest) auto
  show "agent_class w (take i rest) = NAMESPACE"
  proof (cases i)
    case (Suc j)
    with key r i show ?thesis
      by (auto simp: agent_class_def interiorsD [OF interiors_agent_tail] split: if_splits)
  qed (simp add: agent_class_def)
qed

lemma sub_tables_disjoint:
  "list_all (\<lambda>(t, _). t \<notin> set DECLARED_SYSTEM_LEAVES)
    [(u ''channels'', DECLARED_SYSTEM_CHANNEL_LEAVES), (u ''helpers'', DECLARED_SYSTEM_HELPERS_LEAVES),
     (u ''auth'', DECLARED_SYSTEM_AUTH_LEAVES)]"
  "list_all (\<lambda>(t, _). t \<notin> set DECLARED_WORKSET_LEAVES)
    [(u ''channels'', DECLARED_WORKSET_CHANNEL_LEAVES), (u ''auth'', DECLARED_WORKSET_AUTH_LEAVES)]"
  "list_all (\<lambda>(t, _). t \<notin> set DECLARED_BOX_LEAVES) [(u ''auth'', DECLARED_BOX_AUTH_LEAVES)]"
  by code_simp+

lemmas interiors_scopes =
  interiors_scope [OF sub_tables_disjoint(1)] interiors_scope [OF sub_tables_disjoint(2)]
  interiors_scope [OF sub_tables_disjoint(3)]

text \<open>The two entries of the allowlist, on segments.\<close>

definition key_segs :: "pystr list \<Rightarrow> bool" where
  "key_segs ss \<longleftrightarrow> ss \<noteq> [] \<and> [] \<notin> set ss \<and> list_all (\<lambda>s. dot \<notin> set s) ss"

lemma key_segs_split: "key_segs ss \<Longrightarrow> split_char dot (join_char dot ss) = ss"
  by (auto simp: key_segs_def list_all_iff intro: split_join_char)

lemma key_segs_take: "key_segs ss \<Longrightarrow> 0 < i \<Longrightarrow> key_segs (take i ss)"
  by (cases ss; cases i) (auto simp: key_segs_def list_all_iff dest: in_set_takeD)

lemma allowlist_segments:
  "split_char dot (u ''system.agent'') = [u ''system'', u ''agent'']"
  "split_char dot (u ''agent.*.**'') = [u ''agent'', u ''*'', u ''**'']"
  "u ''system'' \<noteq> u ''**''" "u ''system'' \<noteq> u ''*''" "u ''agent'' \<noteq> u ''**''" "u ''agent'' \<noteq> u ''*''"
  "u ''*'' \<noteq> u ''**''" "u ''system'' \<noteq> u ''agent''" "u ''system'' \<noteq> u ''pref''" "u ''agent'' \<noteq> u ''pref''"
  by code_simp+

lemma pref_allowlist_iff:
  assumes "key_segs rest"
  shows "pref_allowlist_entry (join_char dot rest) \<noteq> None \<longleftrightarrow>
    rest = [u ''system'', u ''agent''] \<or> (hd rest = u ''agent'' \<and> 2 < length rest)"
proof -
  have "glob_match p (join_char dot rest) = glob_loop (split_char dot p) rest" for p
    using assms key_segs_split [OF assms] by (simp add: glob_match_def key_segs_def)
  then show ?thesis
    using assms allowlist_segments
    by (auto simp: pref_allowlist_entry_def PREF_ALLOWLIST_def key_segs_def numeral_2_eq_2 split: list.splits)
qed

lemma is_pref_interior_iff:
  "is_pref_interior rest \<longleftrightarrow>
    rest = [] \<or> rest = [u ''system''] \<or> (rest \<noteq> [] \<and> hd rest = u ''agent'' \<and> length rest \<le> 2)"
  using allowlist_segments
  by (cases rest; cases "tl rest"; cases "tl (tl rest)") (auto simp: is_pref_interior_def PREF_ALLOWLIST_def)

lemma allowlisted_take:
  assumes "key_segs rest" "pref_allowlist_entry (join_char dot rest) \<noteq> None" "0 < j" "j < length rest"
  shows "pref_allowlist_entry (join_char dot (take j rest)) \<noteq> None \<or> is_pref_interior (take j rest)"
proof -
  have iff: "pref_allowlist_entry (join_char dot (take j rest)) \<noteq> None \<longleftrightarrow>
      take j rest = [u ''system'', u ''agent''] \<or> (hd (take j rest) = u ''agent'' \<and> 2 < length (take j rest))"
    using assms(1,3) by (intro pref_allowlist_iff key_segs_take)
  consider "rest = [u ''system'', u ''agent'']" | "hd rest = u ''agent''" "2 < length rest"
    using assms(1,2) pref_allowlist_iff by blast
  then have "take j rest = [u ''system''] \<or> (take j rest \<noteq> [] \<and> hd (take j rest) = u ''agent'')"
  proof cases
    case 1
    with assms(3,4) have "j = 1" by simp
    with 1 show ?thesis by simp
  next
    case 2
    with assms(3,4) show ?thesis by (cases rest) (simp_all add: hd_take)
  qed
  then show ?thesis unfolding iff is_pref_interior_iff by linarith
qed

lemma segments_interiors:
  assumes "key_segs ss" "segments_class w ss = KEY" "0 < i" "i < length ss"
  shows "segments_class w (take i ss) = NAMESPACE"
  using assms
proof (induction ss arbitrary: i)
  case (Cons h rest)
  then obtain j where i: "i = Suc j" "j < length rest" by (cases i) auto
  show ?case
  proof (cases "h = u ''pref''")
    case False
    with Cons.prems i show ?thesis
      by (auto simp: interiorsD [OF interiors_config] interiorsD [OF interiors_meta] interiorsD [OF interiors_agent]
          interiorsD [OF interiors_scopes(1)] interiorsD [OF interiors_scopes(2)]
          interiorsD [OF interiors_scopes(3)] simp del: pystr_simps split: if_splits)
  next
    case pref: True
    show ?thesis
    proof (cases "j = 0")
      case True
      with pref i show ?thesis by (simp add: pystr_simps)
    next
      case j: False
      have segs: "key_segs rest" "key_segs (take j rest)"
        using Cons.prems(1) i(2) j by (auto simp: key_segs_def list_all_iff dest: in_set_takeD)
      have target: "segments_class w rest = KEY" "hd rest \<noteq> u ''pref''"
          "pref_allowlist_entry (join_char dot rest) \<noteq> None"
        using Cons.prems(2) pref i(2) by (auto split: if_splits simp: pystr_simps)
      then have interior: "pref_allowlist_entry (join_char dot (take j rest)) \<noteq> None \<or> is_pref_interior (take j rest)"
        using j i(2) segs
        by (intro allowlisted_take) auto
      have "segments_class w (take j rest) = NAMESPACE"
        using Cons.IH [OF segs(1) target(1)] j i(2) by simp
      with interior target(2) pref i j show ?thesis by (auto simp: pystr_simps)
    qed
  qed
qed simp

lemma split_char_no_sep: "p \<in> set (split_char c s) \<Longrightarrow> c \<notin> set p"
  by (induction s arbitrary: p) (auto split: if_splits list.splits)

lemma split_of_segs: "[] \<notin> set (split_char dot key) \<Longrightarrow> key_segs (split_char dot key)"
  by (auto simp: key_segs_def list_all_iff dest: split_char_no_sep)

lemma key_class_join: "key_segs ss \<Longrightarrow> key_class w (join_char dot ss) = segments_class w ss"
  using key_segs_split [of ss] by (auto simp: key_class_def key_segs_def)

lemma key_class_segs:
  "key_class w key \<noteq> UNDECLARED \<Longrightarrow> key_segs (split_char dot key) \<and> key_class w key = segments_class w (split_char dot key)"
  using split_of_segs [of key] by (auto simp: key_class_def split: if_splits)

lemma pref_not_empty: "u ''pref'' \<noteq> []" "u ''pref'' @ dot # t \<noteq> []"
  by code_simp simp

lemma segments_pref: "segments_class w (u ''pref'' # rest) =
    (if rest = [] then NAMESPACE
     else if hd rest = u ''pref'' then UNDECLARED
     else if pref_allowlist_entry (join_char dot rest) = None \<and> \<not> is_pref_interior rest then UNDECLARED
     else if pref_allowlist_entry (join_char dot rest) = None then
       (if segments_class w rest = NAMESPACE then NAMESPACE else UNDECLARED)
     else segments_class w rest)"
proof -
  have "u ''pref'' \<noteq> u ''config''" "u ''pref'' \<noteq> u ''meta''" by code_simp+
  then show ?thesis by simp
qed

text \<open>The interiors of a key given by its segments, none of which holds a dot.\<close>

abbreviation dot_free :: "pystr list \<Rightarrow> bool" where
  "dot_free ss \<equiv> list_all (\<lambda>s. dot \<notin> set s) ss"

lemma split_join_dot_free: "ss \<noteq> [] \<Longrightarrow> dot_free ss \<Longrightarrow> split_char dot (join_char dot ss) = ss"
  by (rule split_join_char) (auto simp: list_all_iff)

lemma declared_segs:
  assumes "dot_free ss" "key_class w (join_char dot ss) \<noteq> UNDECLARED"
  shows "key_segs ss" "segments_class w ss = key_class w (join_char dot ss)"
proof -
  have "ss \<noteq> []" using assms(2) by (cases ss) (auto simp: key_class_def)
  then show "key_segs ss" "segments_class w ss = key_class w (join_char dot ss)"
    using key_class_segs [OF assms(2)] split_join_dot_free assms(1) by auto
qed

lemma interior_namespace:
  assumes "dot_free ss" "key_class w (join_char dot ss) = KEY" "0 < i" "i < length ss"
  shows "key_class w (join_char dot (take i ss)) = NAMESPACE"
proof -
  have segs: "key_segs ss" "segments_class w ss = KEY" using declared_segs [OF assms(1), of w] assms(2) by simp_all
  then show ?thesis
    using assms(3,4) segments_interiors [OF segs] key_class_join [OF key_segs_take [OF segs(1)]] by simp
qed

text \<open>
  C20. Every proper interior of a declared key is a declared namespace: cutting a key back at any
  of its dots never gives a key, and never a path the keyspace does not know.
\<close>

theorem key_interiors:
  assumes "key_class w key = KEY" "0 < i" "i < length (split_char dot key)"
  shows "key_class w (join_char dot (take i (split_char dot key))) = NAMESPACE"
  using assms
  by (intro interior_namespace) (auto simp: join_split_char list_all_iff dest: split_char_no_sep)

text \<open>No declared namespace is deep.\<close>

definition shallow :: "nat \<Rightarrow> (pystr list \<Rightarrow> key_class) \<Rightarrow> bool" where
  "shallow n cls \<longleftrightarrow> (\<forall>rest. cls rest = NAMESPACE \<longrightarrow> length rest \<le> n)"

lemma shallow_category: "shallow 1 category_class"
  by (auto simp: shallow_def category_class_def leaf_class_def split: list.splits if_splits)

lemma shallow_scope: "shallow 1 (scope_class leaves sub_tables)"
  using shallow_category
  by (auto simp: shallow_def scope_class_def leaf_class_def split: list.splits if_splits option.splits)

lemma shallow_agent_tail: "shallow 1 (agent_tail_class leaves known)"
  using shallow_category
  by (auto simp: shallow_def agent_tail_class_def leaf_class_def split: list.splits if_splits)

lemma shallow_meta_box: "shallow 2 (meta_box_class w)"
  using shallow_agent_tail
  by (auto simp: shallow_def meta_box_class_def split: list.splits if_splits)

lemma shallow_meta_small: "shallow 2 meta_runtime_class" "shallow 2 meta_workset_class"
  by (auto simp: shallow_def meta_runtime_class_def meta_workset_class_def split: list.splits if_splits)

lemma shallow_meta_agent: "shallow 2 (meta_agent_class w)"
  by (auto simp: shallow_def meta_agent_class_def Let_def split: list.splits if_splits)

lemma shallowD: "shallow n cls \<Longrightarrow> cls rest = NAMESPACE \<Longrightarrow> length rest \<le> n"
  by (simp add: shallow_def)

lemma shallow_meta: "shallow 3 (meta_class w)"
  unfolding shallow_def
proof (intro allI impI)
  fix rest
  assume ns: "meta_class w rest = NAMESPACE"
  show "length rest \<le> 3"
  proof (cases rest)
    case (Cons grp tail)
    with ns shallowD [OF shallow_meta_small(1), of tail] shallowD [OF shallow_meta_small(2), of tail]
      shallowD [OF shallow_meta_box, of w tail] shallowD [OF shallow_meta_agent, of w tail]
    show ?thesis by (auto simp: meta_class_def split: if_splits list.splits)
  qed simp
qed

lemma shallow_agent: "shallow 2 (agent_class w)"
  using shallow_agent_tail
  by (auto simp: shallow_def agent_class_def split: list.splits if_splits)

lemma shallow_segments: "segments_class w ss = NAMESPACE \<Longrightarrow> length ss \<le> (if hd ss = u ''pref'' then 5 else 4)"
proof (induction ss)
  case (Cons h rest)
  note tables = shallowD [OF shallow_scope, of _ _ rest] shallowD [OF shallow_meta, of w rest]
    shallowD [OF shallow_agent, of w rest]
  show ?case
  proof (cases "h = u ''pref''")
    case True
    with Cons show ?thesis by (auto simp: segments_pref simp del: segments_class.simps split: if_splits)
  next
    case False
    moreover have "length rest \<le> 1" if "config_class rest = NAMESPACE"
      using that by (auto simp: config_class_def split: list.splits if_splits)
    ultimately show ?thesis using Cons.prems tables by (auto split: if_splits dest!: tables)
  qed
qed simp

section \<open>Requests\<close>

text \<open>
  C21. A request \<open>pref.<target>\<close> is a key exactly when its target is a key the allowlist
  grants, whatever agents are installed.
\<close>

theorem pref_key_iff:
  "key_class w (u ''pref'' @ dot # target) = KEY \<longleftrightarrow>
    pref_allowlist_entry target \<noteq> None \<and> key_class w target = KEY"
proof -
  let ?segs = "split_char dot target"
  have parts: "split_char dot (u ''pref'' @ dot # target) = u ''pref'' # ?segs"
    by (rule split_char_append) code_simp
  have "hd ?segs \<noteq> u ''pref''" if "pref_allowlist_entry target \<noteq> None" "[] \<notin> set ?segs"
    using pref_allowlist_iff [OF split_of_segs [OF that(2)]] that(1) allowlist_segments(9,10)
    by (auto simp: join_split_char)
  moreover have "target \<noteq> []" if "[] \<notin> set ?segs" using that by (cases target) auto
  ultimately show ?thesis
    unfolding key_class_def parts by (auto simp: segments_pref join_split_char pref_not_empty pref_not_empty(1) [symmetric] simp del: segments_class.simps)
qed

section \<open>What the store can hold\<close>

text \<open>The last segment of every key under a class has passed the floor.\<close>

definition floored :: "(pystr list \<Rightarrow> key_class) \<Rightarrow> bool" where
  "floored cls \<longleftrightarrow> (\<forall>rest. cls rest = KEY \<longrightarrow> rest \<noteq> [] \<longrightarrow> \<not> leaf_name_refused (last rest))"

lemma flooredD: "floored cls \<Longrightarrow> cls rest = KEY \<Longrightarrow> rest \<noteq> [] \<Longrightarrow> \<not> leaf_name_refused (last rest)"
  by (simp add: floored_def)

lemma leaf_class_KEY [simp]: "leaf_class l = KEY \<longleftrightarrow> \<not> leaf_name_refused l" "leaf_class l \<noteq> NAMESPACE"
  by (auto simp: leaf_class_def)

lemma plain_leaves_pass:
  "list_all (\<lambda>l. \<not> leaf_name_refused l)
    (u ''masks'' # u ''ro'' # u ''rw'' # BIND_LEAF_CATEGORIES @ DECLARED_CONFIG_LEAVES @ DECLARED_META_RUNTIME_LEAVES @
     DECLARED_META_RUNTIME_USER_LEAVES @ DECLARED_META_RUNTIME_ADMIN_LEAVES @ DECLARED_META_ASSEMBLY_LEAVES @
     DECLARED_META_WORKSET_LEAVES @ DECLARED_META_WORKSET_AUTH_LEAVES @ DECLARED_META_BOX_LEAVES @
     DECLARED_META_BOX_AUTH_LEAVES @ DECLARED_META_AGENT_LEAVES @ DECLARED_META_AGENT_AUTH_LEAVES)"
  by code_simp

lemma fence_leaves_pass:
  "pseudo_agent_fence name = Some f \<Longrightarrow> l \<in> set (meta_leaves f) \<union> set (meta_auth_leaves f) \<Longrightarrow> \<not> leaf_name_refused l"
proof -
  assume f: "pseudo_agent_fence name = Some f" and l: "l \<in> set (meta_leaves f) \<union> set (meta_auth_leaves f)"
  have "list_all (\<lambda>(_, f). list_all (\<lambda>l. \<not> leaf_name_refused l) (meta_leaves f @ meta_auth_leaves f)) PSEUDO_AGENT_FENCES"
    by code_simp
  then show ?thesis
    using f l by (fastforce simp: pseudo_agent_fence_def list_all_iff dest!: map_of_SomeD)
qed

lemma floored_category: "floored category_class"
  using plain_leaves_pass
  by (auto simp: floored_def category_class_def list_all_iff split: list.splits if_splits)

lemma floored_scope: "floored (scope_class leaves sub_tables)"
  using floored_category
  by (auto simp: floored_def scope_class_def split: list.splits if_splits option.splits)

lemma floored_agent_tail: "floored (agent_tail_class leaves known)"
  using floored_category by (auto simp: floored_def agent_tail_class_def split: list.splits if_splits)

lemma floored_meta_agent: "floored (meta_agent_class w)"
  using plain_leaves_pass fence_leaves_pass
  by (auto simp: floored_def meta_agent_class_def Let_def list_all_iff split: list.splits if_splits option.splits)

lemma floored_cons:
  "floored cls \<Longrightarrow> cls [] \<noteq> KEY \<Longrightarrow> cls tail = KEY \<Longrightarrow> \<not> leaf_name_refused (last (h # tail))"
  by (cases "tail = []") (auto dest: flooredD)

lemma floored_meta_box: "floored (meta_box_class w)"
  unfolding floored_def
proof (intro allI impI)
  fix rest
  assume key: "meta_box_class w rest = KEY" and ne: "rest \<noteq> []"
  then obtain l mirror where r: "rest = l # mirror" by (cases rest) auto
  have two: "last mirror = mirror ! 1" if "length mirror = 2"
    using that by (cases mirror; cases "tl mirror") auto
  show "\<not> leaf_name_refused (last rest)"
  proof (cases "agent_tail_class (effective_agent_leaves w) True mirror = KEY")
    case True
    with r show ?thesis
      using floored_cons [OF floored_agent_tail _ True] by (simp add: agent_tail_class_def)
  next
    case False
    with key r plain_leaves_pass two show ?thesis
      by (auto simp: meta_box_class_def list_all_iff length_Suc_conv split: if_splits)
  qed
qed

lemma floored_meta_small: "floored meta_runtime_class" "floored meta_workset_class" "floored config_class"
  using plain_leaves_pass
  by (auto simp: floored_def meta_runtime_class_def meta_workset_class_def config_class_def list_all_iff
      split: list.splits if_splits)

lemma floored_meta: "floored (meta_class w)"
  unfolding floored_def
proof (intro allI impI)
  fix rest
  assume key: "meta_class w rest = KEY" and ne: "rest \<noteq> []"
  then obtain grp tail where r: "rest = grp # tail" by (cases rest) auto
  have small: "floored (\<lambda>tail. case tail of [] \<Rightarrow> NAMESPACE
      | [l] \<Rightarrow> if l \<in> set DECLARED_META_ASSEMBLY_LEAVES then KEY else UNDECLARED | _ \<Rightarrow> UNDECLARED)"
    using plain_leaves_pass by (auto simp: floored_def list_all_iff split: list.splits if_splits)
  have none: "meta_runtime_class [] \<noteq> KEY" "meta_workset_class [] \<noteq> KEY" "meta_box_class w [] \<noteq> KEY"
      "meta_agent_class w [] \<noteq> KEY"
    by (simp_all add: meta_runtime_class_def meta_workset_class_def meta_box_class_def meta_agent_class_def)
  from key r show "\<not> leaf_name_refused (last rest)"
    using floored_cons [OF floored_meta_small(1) none(1)] floored_cons [OF floored_meta_small(2) none(2)]
      floored_cons [OF floored_meta_box none(3)] floored_cons [OF floored_meta_agent none(4)]
      floored_cons [OF small]
    by (simp add: meta_class_def del: last.simps split: if_splits)
qed

lemma floored_agent: "floored (agent_class w)"
  using floored_cons [OF floored_agent_tail]
  by (auto simp: floored_def agent_class_def agent_tail_class_def [of _ _ "[]"] split: list.splits if_splits)

lemma floored_segments: "floored (segments_class w)"
  unfolding floored_def
proof (intro allI impI)
  fix ss
  assume "segments_class w ss = KEY" "ss \<noteq> []"
  then show "\<not> leaf_name_refused (last ss)"
  proof (induction ss)
    case (Cons h rest)
    have none: "config_class [] \<noteq> KEY" "meta_class w [] \<noteq> KEY" "agent_class w [] \<noteq> KEY"
        "scope_class leaves sub [] \<noteq> KEY" for leaves sub
      by (simp_all add: config_class_def meta_class_def agent_class_def scope_class_def)
    show ?case
    proof (cases "h = u ''pref''")
      case True
      with Cons show ?thesis by (auto simp: segments_pref simp del: segments_class.simps split: if_splits)
    next
      case False
      with Cons.prems show ?thesis
        using floored_cons [OF floored_meta_small(3) none(1)] floored_cons [OF floored_meta none(2)]
          floored_cons [OF floored_agent none(3)] floored_cons [OF floored_scope none(4)]
        by (simp del: last.simps split: if_splits)
    qed
  qed simp
qed

lemma dunder_iff:
  assumes "10 \<notin> set s"
  shows "dunder s \<longleftrightarrow> prefix (u ''__'') s \<and> suffix (u ''__'') s \<and> 4 \<le> length s"
proof -
  have "chomp s = s" using assms last_in_set [of s] by (auto simp: chomp_def simp del: last_in_set)
  with assms show ?thesis by (auto simp: dunder_def Let_def)
qed

lemma short_dunder:
  assumes "prefix (u ''__'') s" "suffix (u ''__'') s" "length s < 4"
  shows "s = u ''__'' \<or> s = u ''___''"
proof -
  have parts: "u ''__'' = [95, 95]" "u ''___'' = [95, 95, 95]" by code_simp+
  from assms(1) obtain t where t: "s = [95, 95] @ t" by (auto simp: parts prefix_def)
  with assms(3) have "t = [] \<or> (\<exists>c. t = [c])" by (cases t; cases "tl t") auto
  with assms(2) t show ?thesis by (auto simp: parts suffix_def Cons_eq_append_conv append_eq_Cons_conv)
qed


definition no_agents :: key_oracle where
  "no_agents = \<lparr>unicode_tables = ascii_only, valid_agent = (\<lambda>_. False), agent_leaf_map = None\<rparr>"

lemma underscores_declared_unstorable:
  "key_class no_agents (u ''box.env.__'') = KEY \<and>
   check_key_name (u ''__'') = Inl (ReservedDunder (u ''__''))"
  by code_simp

lemma newline_name_declared:
  "key_class no_agents (u ''box.env.FOO'' @ [10]) = KEY"
  by code_simp

lemma refused_leaf_storable:
  "leaf_name_refused (u ''__x__'' @ [10]) \<and> check_key_name (u ''__x__'' @ [10]) = Inr (u ''__x__'' @ [10])"
  by code_simp

theorem key_interiors_witness:
  "key_class no_agents (join_char dot (take 2 (split_char dot (u ''system.channels.chat'')))) = NAMESPACE"
  by (rule key_interiors) code_simp+


end
