(* ===== verification/StorePaths.thy ===== *)
theory StorePaths imports Keys "HOL-Library.List_Lexorder" begin

text \<open>
  The audit of a whole store against the closed keyspace (\<open>settings_keyspace.py\<close>, from
  \<open>KEYSPACE_ROOTS\<close> on, and the oracle of \<open>settings_keyspace_probe.py\<close>): what each path of a
  store is, and the report of those nothing declares. A note is prose and not modelled.
\<close>

section \<open>The class of one path\<close>

definition KEYSPACE_ROOTS :: "pystr list" where
  "KEYSPACE_ROOTS = SCOPE_CONTAINMENT @ [u ''config'', u ''meta'', u ''pref'', BINDING_DERIVATIONS_NODE]"

datatype verdict =
    VDeclared | VValue | VDataSegment | VNamespace | VContainer | VUnrooted | VReserved | VUndeclared

definition FINDING_VERDICTS :: "verdict list" where
  "FINDING_VERDICTS = [VUndeclared, VNamespace]"

record Judgment =
  verdict :: verdict
  jkey :: pystr
  key_len :: nat

definition is_var_table :: "(pystr \<Rightarrow> key_class) \<Rightarrow> pystr list \<Rightarrow> bool" where
  "is_var_table oracle_of parent \<longleftrightarrow>
     parent \<noteq> [] \<and> last parent \<in> set VAR_KEYED_CATEGORIES \<and> oracle_of (join_char dot parent) = NAMESPACE"

text \<open>The loop over the cuts: what is before the cut, and what follows it.\<close>

fun classify_loop :: "(pystr \<Rightarrow> key_class) \<Rightarrow> pystr list \<Rightarrow> pystr list \<Rightarrow> Judgment" where
  "classify_loop oracle_of pre [] =
     \<lparr>verdict = (if oracle_of (join_char dot pre) = NAMESPACE then VNamespace else VUndeclared),
      jkey = [], key_len = length pre\<rparr>"
| "classify_loop oracle_of pre (s # rest) =
     (if dot \<in> set s then
        (if pre = [] \<or> (oracle_of (join_char dot pre) = NAMESPACE \<and> \<not> is_var_table oracle_of pre)
         then \<lparr>verdict = VUndeclared, jkey = [], key_len = length pre + Suc (length rest)\<rparr>
         else \<lparr>verdict = VDataSegment, jkey = join_char dot pre, key_len = length pre\<rparr>)
      else if oracle_of (join_char dot (pre @ [s])) = KEY then
        \<lparr>verdict = (if rest = [] then VDeclared else VValue), jkey = join_char dot (pre @ [s]),
         key_len = length pre + 1\<rparr>
      else classify_loop oracle_of (pre @ [s]) rest)"

definition classify_whole_store_path :: "(pystr \<Rightarrow> key_class) \<Rightarrow> pystr list \<Rightarrow> Judgment" where
  "classify_whole_store_path oracle_of segments =
     (if segments = [] then \<lparr>verdict = VUnrooted, jkey = [], key_len = 0\<rparr>
      else if hd segments = BINDING_DERIVATIONS_NODE then
        \<lparr>verdict = VReserved, jkey = BINDING_DERIVATIONS_NODE, key_len = 1\<rparr>
      else classify_loop oracle_of [] segments)"

definition classify_store_path :: "(pystr \<Rightarrow> key_class) \<Rightarrow> pystr list \<Rightarrow> Judgment" where
  "classify_store_path oracle_of segments =
     (if segments \<noteq> [] \<and> hd segments \<notin> set KEYSPACE_ROOTS
      then \<lparr>verdict = VUnrooted, jkey = [], key_len = length segments\<rparr>
      else classify_whole_store_path oracle_of segments)"

text \<open>\<open>render_store_path\<close>, for a path whose key part is all of it or its first \<open>n\<close> segments.\<close>

definition bar_join :: "pystr list \<Rightarrow> pystr" where
  "bar_join parts = (case parts of [] \<Rightarrow> [] | p # ps \<Rightarrow> p @ concat (map (\<lambda>q. u '' | '' @ q) ps))"

definition render_store_path :: "pystr list \<Rightarrow> nat option \<Rightarrow> pystr" where
  "render_store_path parts at =
     (case at of
        Some n \<Rightarrow>
          if n < length parts then
            (let h = join_char dot (take n parts); t = bar_join (drop n parts)
             in if h \<noteq> [] then h @ [32, 10216] @ t @ [10217] else [10216] @ t @ [10217])
          else if list_ex (\<lambda>s. dot \<in> set s) parts then bar_join parts else join_char dot parts
      | None \<Rightarrow> if list_ex (\<lambda>s. dot \<in> set s) parts then bar_join parts else join_char dot parts)"

definition display_store_path :: "pystr list \<Rightarrow> nat option \<Rightarrow> pystr" where
  "display_store_path segments at = render_store_path (display_segments segments) at"

section \<open>The audit\<close>

definition MAX_STORE_DEPTH :: nat where "MAX_STORE_DEPTH = 64"

text \<open>Every path and whether it is a node, depth first; a mapping is a node.\<close>

fun walk_store_paths :: "keystore \<Rightarrow> pystr list \<Rightarrow> (pystr list \<times> bool) list" where
  "walk_store_paths ks pre =
     (if MAX_STORE_DEPTH \<le> length pre then []
      else concat (map (\<lambda>(k, v). case v of
          SLeaf _ \<Rightarrow> [(pre @ [k], False)]
        | SNode sub \<Rightarrow> (pre @ [k], True) # walk_store_paths sub (pre @ [k])) ks))"

text \<open>
  The paths rescued: a node the keyspace declares a namespace, and an undeclared node above a
  declared path (\<open>carriers\<close>).
\<close>

definition carriers :: "(pystr list \<times> verdict \<times> bool) list \<Rightarrow> pystr list list" where
  "carriers nodes = concat (map (\<lambda>(segments, v, _).
     if v \<in> {VDeclared, VValue} then map (\<lambda>cut. take cut segments) [1..<length segments] else []) nodes)"

definition container_notes :: "(pystr list \<times> verdict \<times> bool) list \<Rightarrow> pystr list list" where
  "container_notes nodes =
     map fst (filter (\<lambda>(segments, v, is_node).
       is_node \<and> (v = VNamespace \<or> (v = VUndeclared \<and> segments \<in> set (carriers nodes)))) nodes)"

definition undeclared_store_paths ::
  "(pystr \<Rightarrow> key_class) \<Rightarrow> keystore \<Rightarrow> pystr list \<Rightarrow> (pystr list \<times> Judgment) list" where
  "undeclared_store_paths oracle_of store pre =
     (let judged = map (\<lambda>(seg, is_node). (seg, classify_whole_store_path oracle_of seg, is_node))
            (walk_store_paths store pre);
          rescued = container_notes (map (\<lambda>(seg, j, is_node). (seg, verdict j, is_node)) judged);
          found = filter (\<lambda>(seg, j, _). verdict j \<in> set FINDING_VERDICTS \<and> seg \<notin> set rescued)
            (sort_key fst judged);
          findings = map fst found;
          skip_under = filter (\<lambda>seg. list_ex (\<lambda>r. strict_prefix r seg) findings) findings
      in map (\<lambda>(seg, j, _). (seg, j)) (filter (\<lambda>(seg, _). seg \<notin> set skip_under) found))"

section \<open>The oracle\<close>

text \<open>
  Any agent name is conceded, and the leaves of each harness no plugin here was read for. The
  memo of \<open>keyspace_verdict\<close> holds the answers of a function and is not modelled; what an
  oracle that raises would store in it is not either, \<open>key_class\<close> being total.
\<close>

definition declared_keyspace_oracle :: "unicode \<Rightarrow> (pystr \<times> pystr list) list \<Rightarrow> pystr \<Rightarrow> key_class" where
  "declared_keyspace_oracle U read =
     key_class \<lparr>unicode_tables = U, valid_agent = (\<lambda>_. True),
       agent_leaf_map = Some \<lparr>harness_leaves = read, conceded = Some (unread_harnesses read)\<rparr>\<rparr>"

definition keyspace_verdict :: "unicode \<Rightarrow> (pystr \<times> pystr list) list \<Rightarrow> pystr \<Rightarrow> key_class" where
  "keyspace_verdict U read path = declared_keyspace_oracle U read path"

section \<open>Addresses of a store\<close>

text \<open>A store is made of dictionaries: no name twice at any node.\<close>

fun dict_store :: "keystore \<Rightarrow> bool" where
  "dict_store ks \<longleftrightarrow> distinct (map fst ks) \<and>
     list_all (\<lambda>(_, v). case v of SNode sub \<Rightarrow> dict_store sub | SLeaf _ \<Rightarrow> True) ks"

declare dict_store.simps [simp del] walk_store_paths.simps [simp del]

fun is_node :: "store_value \<Rightarrow> bool" where
  "is_node (SNode _) = True"
| "is_node (SLeaf _) = False"

lemma dict_store_sub: "dict_store ks \<Longrightarrow> map_of ks k = Some (SNode sub) \<Longrightarrow> dict_store sub"
  by (auto simp: dict_store.simps [of ks] list_all_iff dest!: map_of_SomeD)

lemma dict_store_member: "dict_store ks \<Longrightarrow> (k, v) \<in> set ks \<longleftrightarrow> map_of ks k = Some v"
  by (simp add: dict_store.simps [of ks])

lemma ks_lookup_step:
  "ks_lookup ks (k # q) = (case map_of ks k of None \<Rightarrow> None
     | Some v \<Rightarrow> if q = [] then Some v else (case v of SNode sub \<Rightarrow> ks_lookup sub q | SLeaf _ \<Rightarrow> None))"
  by (cases q) (auto split: option.splits store_value.splits)

lemma ks_lookup_take:
  "ks_lookup ks q = Some v \<Longrightarrow> i < length q \<Longrightarrow> \<exists>sub. ks_lookup ks (take i q) = Some (SNode sub)"
proof (induction q arbitrary: ks i)
  case (Cons k q)
  show ?case
  proof (cases i)
    case (Suc j)
    with Cons.prems obtain sub where sub: "map_of ks k = Some (SNode sub)" "ks_lookup sub q = Some v"
      by (auto simp: ks_lookup_step split: option.splits if_splits store_value.splits)
    with Suc Cons show ?thesis by (cases "take j q = []") (auto simp: ks_lookup_step)
  qed simp
qed simp

lemma walk_member:
  assumes "length pre < MAX_STORE_DEPTH"
  shows "(seg, n) \<in> set (walk_store_paths ks pre) \<longleftrightarrow>
    (\<exists>k v. (k, v) \<in> set ks \<and> ((seg = pre @ [k] \<and> n = is_node v) \<or>
      (\<exists>sub. v = SNode sub \<and> (seg, n) \<in> set (walk_store_paths sub (pre @ [k])))))"
proof -
  have "(seg, n) \<in> set (case v of SLeaf _ \<Rightarrow> [(pre @ [k], False)]
        | SNode sub \<Rightarrow> (pre @ [k], True) # walk_store_paths sub (pre @ [k])) \<longleftrightarrow>
      ((seg = pre @ [k] \<and> n = is_node v) \<or>
       (\<exists>sub. v = SNode sub \<and> (seg, n) \<in> set (walk_store_paths sub (pre @ [k]))))" for k v
    by (cases v) auto
  with assms show ?thesis by (simp add: walk_store_paths.simps [of ks] Bex_def split_paired_Ex)
qed

lemma walk_iff:
  "dict_store ks \<Longrightarrow> (seg, n) \<in> set (walk_store_paths ks pre) \<longleftrightarrow>
    (\<exists>q v. q \<noteq> [] \<and> seg = pre @ q \<and> length seg \<le> MAX_STORE_DEPTH \<and> ks_lookup ks q = Some v \<and> n = is_node v)"
proof (induction ks pre arbitrary: seg n rule: walk_store_paths.induct)
  case (1 ks pre)
  show ?case
  proof (cases "MAX_STORE_DEPTH \<le> length pre")
    case True
    then show ?thesis by (auto simp: walk_store_paths.simps [of ks] neq_Nil_conv)
  next
    case False
    have sub: "(seg, n) \<in> set (walk_store_paths sub (pre @ [k])) \<longleftrightarrow>
        (\<exists>q v. q \<noteq> [] \<and> seg = pre @ k # q \<and> length seg \<le> MAX_STORE_DEPTH \<and>
           ks_lookup sub q = Some v \<and> n = is_node v)" if "map_of ks k = Some (SNode sub)" for k sub
      using "1.IH" [of "(k, SNode sub)" k "SNode sub" sub seg n] False that "1.prems"
      by (simp add: dict_store_sub dict_store_member)
    have "(seg, n) \<in> set (walk_store_paths ks pre) \<longleftrightarrow>
        (\<exists>k v. map_of ks k = Some v \<and> ((seg = pre @ [k] \<and> n = is_node v) \<or>
          (\<exists>sub. v = SNode sub \<and> (seg, n) \<in> set (walk_store_paths sub (pre @ [k])))))"
      using False "1.prems" by (simp add: walk_member dict_store_member)
    also have "\<dots> \<longleftrightarrow> (\<exists>k v. map_of ks k = Some v \<and> ((seg = pre @ [k] \<and> n = is_node v) \<or>
          (\<exists>sub. v = SNode sub \<and> (\<exists>q v. q \<noteq> [] \<and> seg = pre @ k # q \<and> length seg \<le> MAX_STORE_DEPTH \<and>
             ks_lookup sub q = Some v \<and> n = is_node v))))"
      by (intro iff_exI conj_cong refl disj_cong) (use sub in auto)
    also have "\<dots> \<longleftrightarrow> (\<exists>q v. q \<noteq> [] \<and> seg = pre @ q \<and> length seg \<le> MAX_STORE_DEPTH \<and>
        ks_lookup ks q = Some v \<and> n = is_node v)" (is "?l \<longleftrightarrow> ?r")
    proof
      assume ?l
      then obtain k v where k: "map_of ks k = Some v"
        and alt: "(seg = pre @ [k] \<and> n = is_node v) \<or>
          (\<exists>sub. v = SNode sub \<and> (\<exists>q v. q \<noteq> [] \<and> seg = pre @ k # q \<and> length seg \<le> MAX_STORE_DEPTH \<and>
             ks_lookup sub q = Some v \<and> n = is_node v))" by blast
      from alt show ?r
      proof
        assume "seg = pre @ [k] \<and> n = is_node v"
        with k False show ?r by (intro exI [of _ "[k]"]) auto
      next
        assume "\<exists>sub. v = SNode sub \<and> (\<exists>q v. q \<noteq> [] \<and> seg = pre @ k # q \<and> length seg \<le> MAX_STORE_DEPTH \<and>
             ks_lookup sub q = Some v \<and> n = is_node v)"
        then obtain sub q v' where "v = SNode sub" "q \<noteq> []" "seg = pre @ k # q" "length seg \<le> MAX_STORE_DEPTH"
          "ks_lookup sub q = Some v'" "n = is_node v'" by blast
        with k show ?r by (intro exI [of _ "k # q"]) (auto simp: ks_lookup_step)
      qed
    next
      assume ?r
      then obtain q v where q: "q \<noteq> []" "seg = pre @ q" "length seg \<le> MAX_STORE_DEPTH"
        "ks_lookup ks q = Some v" "n = is_node v" by blast
      then obtain k r where "q = k # r" by (cases q) auto
      with q show ?l
        by (fastforce simp: ks_lookup_step split: option.splits if_splits store_value.splits)
    qed
    finally show ?thesis .
  qed
qed

section \<open>What the loop over the cuts finds\<close>

text \<open>A declared key ends at the cut \<open>c\<close> of a path.\<close>

definition key_cut :: "(pystr \<Rightarrow> key_class) \<Rightarrow> pystr list \<Rightarrow> nat \<Rightarrow> bool" where
  "key_cut oracle_of seg c \<longleftrightarrow> 0 < c \<and> c \<le> length seg \<and> dot_free (take c seg) \<and> oracle_of (join_char dot (take c seg)) = KEY"

text \<open>A name with a dot at the variable slot of a per-variable table.\<close>

definition var_slot :: "(pystr \<Rightarrow> key_class) \<Rightarrow> pystr list \<Rightarrow> bool" where
  "var_slot oracle_of seg \<longleftrightarrow> (\<exists>c < length seg. dot_free (take c seg) \<and> dot \<in> set (seg ! c) \<and> is_var_table oracle_of (take c seg))"

lemma ex_take_Cons:
  "(\<exists>d < length (s # rest). P d (take (Suc d) (s # rest))) \<longleftrightarrow>
    P 0 [s] \<or> (\<exists>d < length rest. P (Suc d) (s # take (Suc d) rest))"
  by (simp add: Ex_less_Suc2)

lemma loop_real:
  "verdict (classify_loop oc pre rest) \<in> {VDeclared, VValue} \<longleftrightarrow>
    (\<exists>d < length rest. dot_free (take (Suc d) rest) \<and> oc (join_char dot (pre @ take (Suc d) rest)) = KEY)"
proof (induction oc pre rest rule: classify_loop.induct)
  case (2 oc pre s rest)
  show ?case
    using 2 unfolding ex_take_Cons [where P = "\<lambda>_ t. dot_free t \<and> oc (join_char dot (pre @ t)) = KEY"]
    by auto
qed auto

lemma loop_namespace:
  "verdict (classify_loop oc pre rest) = VNamespace \<longleftrightarrow>
    dot_free rest \<and> oc (join_char dot (pre @ rest)) = NAMESPACE \<and>
    \<not> (\<exists>d < length rest. oc (join_char dot (pre @ take (Suc d) rest)) = KEY)"
proof (induction oc pre rest rule: classify_loop.induct)
  case (2 oc pre s rest)
  show ?case
    using 2 unfolding ex_take_Cons [where P = "\<lambda>_ t. oc (join_char dot (pre @ t)) = KEY"]
    by auto
qed auto

lemma loop_data:
  "verdict (classify_loop oc pre rest) = VDataSegment \<longleftrightarrow>
    (\<exists>d < length rest. dot_free (take d rest) \<and> dot \<in> set (rest ! d) \<and>
      \<not> (\<exists>e < d. oc (join_char dot (pre @ take (Suc e) rest)) = KEY) \<and> pre @ take d rest \<noteq> [] \<and>
      (oc (join_char dot (pre @ take d rest)) \<noteq> NAMESPACE \<or> is_var_table oc (pre @ take d rest)))"
  (is "_ \<longleftrightarrow> (\<exists>d < _. ?P oc pre rest d)")
proof (induction oc pre rest rule: classify_loop.induct)
  case (2 oc pre s rest)
  have shift: "?P oc pre (s # rest) (Suc d) \<longleftrightarrow>
      dot \<notin> set s \<and> oc (join_char dot (pre @ [s])) \<noteq> KEY \<and> ?P oc (pre @ [s]) rest d" for d
    by (auto simp: Ex_less_Suc2)
  have parts: "(\<exists>d < length (s # rest). ?P oc pre (s # rest) d) \<longleftrightarrow>
      ?P oc pre (s # rest) 0 \<or> (\<exists>d < length rest. ?P oc pre (s # rest) (Suc d))"
    unfolding length_Cons by (rule Ex_less_Suc2)
  have "verdict (classify_loop oc pre (s # rest)) = VDataSegment \<longleftrightarrow> ?P oc pre (s # rest) 0 \<or>
      (\<exists>d < length rest. dot \<notin> set s \<and> oc (join_char dot (pre @ [s])) \<noteq> KEY \<and> ?P oc (pre @ [s]) rest d)"
    using 2 by auto
  then show ?case unfolding parts shift .
qed auto

lemma loop_kinds:
  "verdict (classify_loop oc pre rest) \<in> {VDeclared, VValue, VNamespace, VDataSegment, VUndeclared}"
  by (induction oc pre rest rule: classify_loop.induct) auto

lemma dot_free_take: "dot_free ss \<Longrightarrow> dot_free (take e ss)"
  by (auto simp: list_all_iff dest: in_set_takeD)

lemma dot_free_take_le: "dot_free (take c ss) \<Longrightarrow> e \<le> c \<Longrightarrow> dot_free (take e ss)"
  using dot_free_take [of "take c ss" e] by (simp add: min_def)

lemma key_cut_take: "key_cut oc (take m s) c \<Longrightarrow> key_cut oc s c"
  by (auto simp: key_cut_def min_def split: if_splits)

lemma var_slot_take:
  assumes "var_slot oc (take m s)"
  shows "var_slot oc s"
proof -
  from assms obtain c where c: "c < length (take m s)" "dot_free (take c (take m s))" "dot \<in> set (take m s ! c)"
      "is_var_table oc (take c (take m s))" by (auto simp: var_slot_def)
  then have "take c (take m s) = take c s" "take m s ! c = s ! c" by auto
  with c show ?thesis unfolding var_slot_def by (intro exI [of _ c]) auto
qed

lemma loop_dot_free: "dot_free rest \<Longrightarrow> verdict (classify_loop oc pre rest) \<noteq> VDataSegment"
  by (auto simp: loop_data list_all_length)

section \<open>What is declared\<close>

text \<open>
  What may stand at an address: anything in the reserved node, anything at or inside a declared
  key, a node at a declared namespace, and anything at or inside a variable slot whose name
  holds a dot.
\<close>

definition place_ok :: "(pystr \<Rightarrow> key_class) \<Rightarrow> pystr list \<Rightarrow> bool \<Rightarrow> bool" where
  "place_ok oc seg node_there \<longleftrightarrow>
     hd seg = BINDING_DERIVATIONS_NODE \<or> (\<exists>c. key_cut oc seg c) \<or>
     (node_there \<and> dot_free seg \<and> oc (join_char dot seg) = NAMESPACE) \<or> var_slot oc seg"

definition violates :: "(pystr \<Rightarrow> key_class) \<Rightarrow> pystr list \<Rightarrow> bool \<Rightarrow> bool" where
  "violates oc seg node_there \<longleftrightarrow> verdict (classify_whole_store_path oc seg) = VUndeclared \<or>
     (verdict (classify_whole_store_path oc seg) = VNamespace \<and> \<not> node_there)"

definition declared_place :: "(pystr \<Rightarrow> key_class) \<Rightarrow> pystr list \<Rightarrow> bool" where
  "declared_place oc pre \<longleftrightarrow>
     pre = [] \<or> (dot_free pre \<and> hd pre \<noteq> BINDING_DERIVATIONS_NODE \<and> oc (join_char dot pre) = NAMESPACE)"

text \<open>The walk with the verdicts, and the paths of it nothing declares.\<close>

definition judged_walk :: "(pystr \<Rightarrow> key_class) \<Rightarrow> keystore \<Rightarrow> pystr list \<Rightarrow> (pystr list \<times> verdict \<times> bool) list" where
  "judged_walk oc ks pre = map (\<lambda>(seg, n). (seg, verdict (classify_whole_store_path oc seg), n)) (walk_store_paths ks pre)"

definition bad_paths :: "(pystr \<Rightarrow> key_class) \<Rightarrow> keystore \<Rightarrow> pystr list \<Rightarrow> pystr list set" where
  "bad_paths oc ks pre = {seg. \<exists>n. (seg, n) \<in> set (walk_store_paths ks pre) \<and> violates oc seg n}"

text \<open>A closed keyspace: the interiors of a key are declared, and no declared interior is deep.\<close>

locale closed_keyspace =
  fixes oc :: "pystr \<Rightarrow> key_class"
  assumes interior:
      "\<lbrakk>dot_free ss; oc (join_char dot ss) = KEY; 0 < i; i < length ss\<rbrakk> \<Longrightarrow> oc (join_char dot (take i ss)) = NAMESPACE"
    and shallow: "\<lbrakk>dot_free ss; oc (join_char dot ss) = NAMESPACE\<rbrakk> \<Longrightarrow> length ss < MAX_STORE_DEPTH"
begin

lemma whole_real:
  assumes "seg \<noteq> []" "hd seg \<noteq> BINDING_DERIVATIONS_NODE"
  shows "verdict (classify_whole_store_path oc seg) \<in> {VDeclared, VValue} \<longleftrightarrow> (\<exists>c. key_cut oc seg c)"
proof -
  have "(\<exists>d < length seg. dot_free (take (Suc d) seg) \<and> oc (join_char dot ([] @ take (Suc d) seg)) = KEY) \<longleftrightarrow>
      (\<exists>c. key_cut oc seg c)" (is "?l \<longleftrightarrow> ?r")
  proof
    assume ?r
    then obtain c where "key_cut oc seg c" ..
    then show ?l by (intro exI [of _ "c - 1"]) (auto simp: key_cut_def)
  next
    assume ?l
    then obtain d where "d < length seg" "dot_free (take (Suc d) seg)" "oc (join_char dot (take (Suc d) seg)) = KEY"
      by auto
    then show ?r by (intro exI [of _ "Suc d"]) (simp add: key_cut_def)
  qed
  then show ?thesis
    using assms loop_real [of oc "[]" seg] by (simp only: classify_whole_store_path_def if_False)
qed

lemma whole_namespace:
  assumes "seg \<noteq> []" "hd seg \<noteq> BINDING_DERIVATIONS_NODE" "\<nexists>c. key_cut oc seg c"
  shows "verdict (classify_whole_store_path oc seg) = VNamespace \<longleftrightarrow> dot_free seg \<and> oc (join_char dot seg) = NAMESPACE"
proof -
  have "oc (join_char dot (take (Suc d) seg)) \<noteq> KEY" if "d < length seg" "dot_free seg" for d
  proof -
    from assms(3) have "\<not> key_cut oc seg (Suc d)" by blast
    with that(1) dot_free_take [OF that(2), of "Suc d"] show ?thesis by (simp add: key_cut_def)
  qed
  then show ?thesis
    using assms by (auto simp: classify_whole_store_path_def loop_namespace)
qed

lemma no_carrier:
  assumes "verdict (classify_whole_store_path oc seg) = VUndeclared" "seg \<noteq> []" "strict_prefix seg seg'"
  shows "verdict (classify_whole_store_path oc seg') \<notin> {VDeclared, VValue}"
proof
  assume real: "verdict (classify_whole_store_path oc seg') \<in> {VDeclared, VValue}"
  obtain t where t: "seg' = seg @ t" "t \<noteq> []" using assms(3) by (auto simp: strict_prefix_def prefix_def)
  have hd: "hd seg \<noteq> BINDING_DERIVATIONS_NODE" "hd seg' = hd seg" "seg' \<noteq> []"
    using assms(1,2) t by (auto simp: classify_whole_store_path_def split: if_splits)
  obtain c where c: "key_cut oc seg' c" using real whole_real hd by metis
  have none: "\<not> key_cut oc seg e" for e using whole_real [OF assms(2) hd(1)] assms(1) by auto
  have "length seg < c"
  proof (rule ccontr)
    assume "\<not> length seg < c"
    with c t have "key_cut oc seg c" by (simp add: key_cut_def)
    with none show False by simp
  qed
  then have "dot_free seg \<and> oc (join_char dot seg) = NAMESPACE"
    using c t assms(2) interior [of "take c seg'" "length seg"] dot_free_take [of "take c seg'" "length seg"]
    by (simp add: key_cut_def min_def)
  then show False
    using whole_namespace [OF assms(2) hd(1)] none assms(1) by simp
qed

lemma place_ok_fine:
  assumes "seg \<noteq> []" "place_ok oc seg n"
  shows "\<not> violates oc seg n"
proof (cases "hd seg = BINDING_DERIVATIONS_NODE \<or> (\<exists>c. key_cut oc seg c)")
  case True
  then show ?thesis
    using whole_real [OF assms(1)] assms(1)
    by (cases "hd seg = BINDING_DERIVATIONS_NODE") (auto simp: violates_def classify_whole_store_path_def)
next
  case False
  then have no: "hd seg \<noteq> BINDING_DERIVATIONS_NODE" "\<nexists>c. key_cut oc seg c" by auto
  show ?thesis
  proof (cases "var_slot oc seg")
    case True
    then obtain c where c: "c < length seg" "dot_free (take c seg)" "dot \<in> set (seg ! c)" "is_var_table oc (take c seg)"
      by (auto simp: var_slot_def)
    have "oc (join_char dot (take (Suc e) seg)) \<noteq> KEY" if "e < c" for e
    proof -
      have "dot_free (take (Suc e) seg)" using dot_free_take_le [OF c(2)] that by simp
      moreover from no(2) have "\<not> key_cut oc seg (Suc e)" by blast
      ultimately show ?thesis using c(1) that by (simp add: key_cut_def)
    qed
    then have "verdict (classify_whole_store_path oc seg) = VDataSegment"
      using c assms(1) no(1)
      by (auto simp: classify_whole_store_path_def loop_data is_var_table_def intro!: exI [of _ c])
    then show ?thesis by (simp add: violates_def)
  next
    case novar: False
    with assms(2) False have "n" "dot_free seg \<and> oc (join_char dot seg) = NAMESPACE" by (auto simp: place_ok_def)
    with whole_namespace [OF assms(1) no] show ?thesis by (simp add: violates_def)
  qed
qed

lemma clean_place:
  assumes "declared_place oc pre" "dict_store ks"
    and clean: "\<And>s n. (s, n) \<in> set (walk_store_paths ks pre) \<Longrightarrow> \<not> violates oc s n"
    and q: "ks_lookup ks q = Some v" "q \<noteq> []" "length (pre @ q) \<le> MAX_STORE_DEPTH"
  shows "place_ok oc (pre @ q) (is_node v)"
proof (rule ccontr)
  let ?s = "pre @ q"
  assume "\<not> place_ok oc ?s (is_node v)"
  then have no: "hd ?s \<noteq> BINDING_DERIVATIONS_NODE" "\<nexists>c. key_cut oc ?s c" "\<not> var_slot oc ?s"
      "\<not> (is_node v \<and> dot_free ?s \<and> oc (join_char dot ?s) = NAMESPACE)"
    by (auto simp: place_ok_def)
  have ne: "?s \<noteq> []" using q(2) by simp
  have "\<not> violates oc ?s (is_node v)" using clean walk_iff [OF assms(2)] q by blast
  then have "verdict (classify_loop oc [] ?s) = VDataSegment"
    using loop_kinds [of oc "[]" ?s] whole_real [OF ne no(1)] whole_namespace [OF ne no(1,2)] no(2,4) ne no(1)
    by (auto simp: violates_def classify_whole_store_path_def)
  then obtain d where d: "d < length ?s" "dot_free (take d ?s)" "dot \<in> set (?s ! d)" "take d ?s \<noteq> []"
      "oc (join_char dot (take d ?s)) \<noteq> NAMESPACE \<or> is_var_table oc (take d ?s)"
    by (auto simp: loop_data)
  with no(3) have notns: "oc (join_char dot (take d ?s)) \<noteq> NAMESPACE" by (auto simp: var_slot_def)
  have long: "length pre < d"
  proof (rule ccontr)
    assume "\<not> length pre < d"
    then consider "d < length pre" | "d = length pre" by linarith
    then show False
    proof cases
      case 1
      then have "dot_free pre" using assms(1) by (auto simp: declared_place_def)
      with 1 d(3) show False by (simp add: nth_append list_all_iff)
    next
      case 2
      with d(4) notns assms(1) show False by (auto simp: declared_place_def)
    qed
  qed
  let ?p = "take d ?s"
  have p: "?p = pre @ take (d - length pre) q" "take (d - length pre) q \<noteq> []" "d - length pre < length q"
    using long d(1) q(2) by auto
  obtain sub where "ks_lookup ks (take (d - length pre) q) = Some (SNode sub)"
    using ks_lookup_take [OF q(1) p(3)] by blast
  then have "(?p, True) \<in> set (walk_store_paths ks pre)"
    using walk_iff [OF assms(2)] p q(3) d(1) by (intro iffD2 [OF walk_iff [OF assms(2)]] exI conjI) auto
  then have fine: "\<not> violates oc ?p True" by (rule clean)
  have hdp: "?p \<noteq> []" "hd ?p \<noteq> BINDING_DERIVATIONS_NODE" using d(4) no(1) by (auto simp: hd_append hd_take)
  have nocut: "\<nexists>c. key_cut oc ?p c"
  proof
    assume "\<exists>c. key_cut oc ?p c"
    then obtain c where "key_cut oc ?p c" ..
    then have "key_cut oc ?s c" by (rule key_cut_take)
    with no(2) show False by blast
  qed
  have "verdict (classify_loop oc [] ?p) \<noteq> VDataSegment"
    using d(2) by (rule loop_dot_free)
  with fine whole_real [OF hdp] whole_namespace [OF hdp nocut] nocut notns loop_kinds [of oc "[]" ?p] hdp show False
    by (auto simp: violates_def classify_whole_store_path_def)
qed

lemma clean_iff:
  assumes "declared_place oc pre" "dict_store ks" "length pre < MAX_STORE_DEPTH"
  shows "(\<forall>s n. (s, n) \<in> set (walk_store_paths ks pre) \<longrightarrow> \<not> violates oc s n) \<longleftrightarrow>
    (\<forall>q v. q \<noteq> [] \<longrightarrow> ks_lookup ks q = Some v \<longrightarrow> place_ok oc (pre @ q) (is_node v))" (is "?l \<longleftrightarrow> ?r")
proof
  assume ?r
  then show ?l using walk_iff [OF assms(2)] place_ok_fine by fastforce
next
  assume l: ?l
  show ?r
  proof (intro allI impI)
    fix q v
    assume q: "q \<noteq> []" "ks_lookup ks q = Some v"
    show "place_ok oc (pre @ q) (is_node v)"
    proof (cases "length (pre @ q) \<le> MAX_STORE_DEPTH")
      case True
      with clean_place [OF assms(1,2)] l q show ?thesis by blast
    next
      case False
      let ?i = "MAX_STORE_DEPTH - length pre"
      let ?p = "pre @ take ?i q"
      have i: "?i < length q" "take ?i q \<noteq> []" "length ?p = MAX_STORE_DEPTH" using False assms(3) q(1) by auto
      then obtain sub where "ks_lookup ks (take ?i q) = Some (SNode sub)" using ks_lookup_take [OF q(2)] by blast
      then have ok: "place_ok oc ?p True" using clean_place [OF assms(1,2) _ _ i(2), of "SNode sub"] l i(3) by simp
      have s: "?p = take MAX_STORE_DEPTH (pre @ q)" using assms(3) by simp
      have "\<not> (dot_free ?p \<and> oc (join_char dot ?p) = NAMESPACE)" using shallow i(3) by fastforce
      with ok consider "hd ?p = BINDING_DERIVATIONS_NODE" | c where "key_cut oc ?p c" | "var_slot oc ?p"
        by (auto simp: place_ok_def)
      then show ?thesis
      proof cases
        case 1
        with i(2) show ?thesis by (auto simp: place_ok_def hd_append hd_take)
      next
        case 2
        then have "key_cut oc (pre @ q) c" unfolding s by (rule key_cut_take)
        then show ?thesis by (auto simp: place_ok_def)
      next
        case 3
        then have "var_slot oc (pre @ q)" unfolding s by (rule var_slot_take)
        then show ?thesis by (simp add: place_ok_def)
      qed
    qed
  qed
qed

text \<open>The rule of the carriers rescues nothing: an undeclared path has no declared path under it.\<close>

lemma container_notes_iff:
  "seg \<in> set (container_notes nodes) \<longleftrightarrow>
    (\<exists>v. (seg, v, True) \<in> set nodes \<and> (v = VNamespace \<or> (v = VUndeclared \<and> seg \<in> set (carriers nodes))))"
  unfolding container_notes_def by force

lemma carriers_real:
  assumes "seg \<in> set (carriers nodes)"
  shows "\<exists>seg' v n. (seg', v, n) \<in> set nodes \<and> v \<in> {VDeclared, VValue} \<and> strict_prefix seg seg' \<and> seg \<noteq> []"
proof -
  from assms obtain seg' v n cut where "(seg', v, n) \<in> set nodes" "v \<in> {VDeclared, VValue}"
      "1 \<le> cut" "cut < length seg'" "seg = take cut seg'"
    by (auto simp: carriers_def split: if_splits)
  moreover from this have "strict_prefix seg seg'" by (simp add: strict_prefix_def take_is_prefix)
  ultimately show ?thesis by (intro exI [of _ seg'] exI [of _ v] exI [of _ n]) auto
qed

lemma walk_fun:
  "dict_store ks \<Longrightarrow> (seg, n) \<in> set (walk_store_paths ks pre) \<Longrightarrow> (seg, n') \<in> set (walk_store_paths ks pre) \<Longrightarrow> n' = n"
  by (auto simp: walk_iff)

lemma judged_walk_iff:
  "(seg, v, n) \<in> set (judged_walk oc ks pre) \<longleftrightarrow>
    (seg, n) \<in> set (walk_store_paths ks pre) \<and> v = verdict (classify_whole_store_path oc seg)"
  by (auto simp: judged_walk_def)

lemma rescued_iff:
  assumes "dict_store ks" "(seg, n) \<in> set (walk_store_paths ks pre)"
  shows "seg \<in> set (container_notes (judged_walk oc ks pre)) \<longleftrightarrow>
    n \<and> verdict (classify_whole_store_path oc seg) = VNamespace"
proof -
  have "seg \<notin> set (carriers (judged_walk oc ks pre))" if v: "verdict (classify_whole_store_path oc seg) = VUndeclared"
  proof
    assume "seg \<in> set (carriers (judged_walk oc ks pre))"
    from carriers_real [OF this] obtain seg' where
      "verdict (classify_whole_store_path oc seg') \<in> {VDeclared, VValue}" "strict_prefix seg seg'" "seg \<noteq> []"
      by (auto simp: judged_walk_iff)
    with no_carrier [OF v] show False by blast
  qed
  then have "seg \<in> set (container_notes (judged_walk oc ks pre)) \<longleftrightarrow>
      (seg, True) \<in> set (walk_store_paths ks pre) \<and> verdict (classify_whole_store_path oc seg) = VNamespace"
    unfolding container_notes_iff judged_walk_iff by blast
  also have "(seg, True) \<in> set (walk_store_paths ks pre) \<longleftrightarrow> n"
    using assms(2) walk_fun [OF assms, of True] by (cases n) auto
  finally show ?thesis by blast
qed

lemma skip_nested:
  "(seg, j) \<in> set (map (\<lambda>(seg, j, _). (seg, j))
      (filter (\<lambda>(seg, _). seg \<notin> set (filter (\<lambda>seg. list_ex (\<lambda>r. strict_prefix r seg) F) F)) found)) \<longleftrightarrow>
    (\<exists>n. (seg, j, n) \<in> set found) \<and> \<not> (seg \<in> set F \<and> (\<exists>r. r \<in> set F \<and> strict_prefix r seg))"
  unfolding list_ex_iff by force

lemma report_iff:
  assumes "dict_store ks"
  shows "(seg, j) \<in> set (undeclared_store_paths oc ks pre) \<longleftrightarrow>
    j = classify_whole_store_path oc seg \<and> seg \<in> bad_paths oc ks pre \<and>
    (\<forall>r \<in> bad_paths oc ks pre. \<not> strict_prefix r seg)"
proof -
  let ?W = "walk_store_paths ks pre"
  let ?judged = "map (\<lambda>(seg, n). (seg, classify_whole_store_path oc seg, n)) ?W"
  let ?found = "filter (\<lambda>(seg, j, _). verdict j \<in> set FINDING_VERDICTS \<and> seg \<notin> set (container_notes (judged_walk oc ks pre)))
      (sort_key fst ?judged)"
  have nodes: "map (\<lambda>(seg, j, n). (seg, verdict j, n)) ?judged = judged_walk oc ks pre"
    by (simp add: judged_walk_def comp_def split_def)
  have mem: "(seg, j, n) \<in> set ?found \<longleftrightarrow> (seg, n) \<in> set ?W \<and> j = classify_whole_store_path oc seg \<and> violates oc seg n"
    for seg j n
  proof -
    have "(seg, j, n) \<in> set ?judged \<longleftrightarrow> (seg, n) \<in> set ?W \<and> j = classify_whole_store_path oc seg" by auto
    moreover have "violates oc seg n \<longleftrightarrow> verdict (classify_whole_store_path oc seg) \<in> set FINDING_VERDICTS \<and>
        seg \<notin> set (container_notes (judged_walk oc ks pre))" if "(seg, n) \<in> set ?W"
      using rescued_iff [OF assms that] by (auto simp: FINDING_VERDICTS_def violates_def)
    ultimately show ?thesis by auto
  qed
  have bad: "seg \<in> set (map fst ?found) \<longleftrightarrow> seg \<in> bad_paths oc ks pre" for seg
  proof -
    have "seg \<in> set (map fst ?found) \<longleftrightarrow> (\<exists>j n. (seg, j, n) \<in> set ?found)" by force
    then show ?thesis unfolding mem by (auto simp: bad_paths_def)
  qed
  have "(seg, j) \<in> set (undeclared_store_paths oc ks pre) \<longleftrightarrow>
      (\<exists>n. (seg, j, n) \<in> set ?found) \<and>
      \<not> (seg \<in> set (map fst ?found) \<and> (\<exists>r. r \<in> set (map fst ?found) \<and> strict_prefix r seg))"
    unfolding undeclared_store_paths_def Let_def nodes by (rule skip_nested)
  then show ?thesis unfolding bad mem by (auto simp: bad_paths_def)
qed

lemma bad_has_shallowest:
  "seg \<in> bad_paths oc ks pre \<Longrightarrow> \<exists>r \<in> bad_paths oc ks pre. prefix r seg \<and> (\<forall>r' \<in> bad_paths oc ks pre. \<not> strict_prefix r' r)"
proof (induction "length seg" arbitrary: seg rule: less_induct)
  case less
  show ?case
  proof (cases "\<exists>r \<in> bad_paths oc ks pre. strict_prefix r seg")
    case True
    then obtain r where r: "r \<in> bad_paths oc ks pre" "strict_prefix r seg" by blast
    with less.hyps [of r] prefix_length_less obtain s where "s \<in> bad_paths oc ks pre" "prefix s r"
      "\<forall>r' \<in> bad_paths oc ks pre. \<not> strict_prefix r' s" by blast
    with r show ?thesis by (meson prefix_order.order_trans strict_prefix_def)
  qed (use less.prems in blast)
qed

lemma report_empty:
  assumes "dict_store ks"
  shows "undeclared_store_paths oc ks pre = [] \<longleftrightarrow> bad_paths oc ks pre = {}"
proof
  assume "undeclared_store_paths oc ks pre = []"
  with report_iff [OF assms, of _ _ pre] bad_has_shallowest show "bad_paths oc ks pre = {}" by fastforce
next
  assume "bad_paths oc ks pre = {}"
  with report_iff [OF assms, of _ _ pre] show "undeclared_store_paths oc ks pre = []"
    by (cases "undeclared_store_paths oc ks pre") force+
qed

end

lemma report_sorted: "sorted (map fst (undeclared_store_paths oc ks pre))"
  unfolding undeclared_store_paths_def Let_def
  by (simp add: comp_def split_def) (metis (no_types, lifting) sorted_filter sorted_sort_key filter_filter)

interpretation kv: closed_keyspace "keyspace_verdict U read" for U read
proof
  show "keyspace_verdict U read (join_char dot (take i ss)) = NAMESPACE"
    if "dot_free ss" "keyspace_verdict U read (join_char dot ss) = KEY" "0 < i" "i < length ss" for ss i
    using that unfolding keyspace_verdict_def declared_keyspace_oracle_def by (rule interior_namespace)
  show "length ss < MAX_STORE_DEPTH"
    if "dot_free ss" "keyspace_verdict U read (join_char dot ss) = NAMESPACE" for ss
  proof -
    let ?w = "\<lparr>unicode_tables = U, valid_agent = (\<lambda>_. True),
       agent_leaf_map = Some \<lparr>harness_leaves = read, conceded = Some (unread_harnesses read)\<rparr>\<rparr>"
    have "segments_class ?w ss = NAMESPACE"
      using that declared_segs(2) [OF that(1), of ?w] by (simp add: keyspace_verdict_def declared_keyspace_oracle_def)
    from shallow_segments [OF this] show ?thesis by (simp add: MAX_STORE_DEPTH_def split: if_splits)
  qed
qed

text \<open>
  C15. The audit reports nothing exactly when everything stored is declared: at every address of
  the store, however deep, stands something of the reserved node, something at or inside a
  declared key, a node at a declared namespace, or a name with a dot at a variable slot. The
  cap of the walk hides nothing. The store may be judged as if it stood at a declared place.
\<close>

theorem audit_clean_iff:
  assumes "declared_place (keyspace_verdict U read) pre" "dict_store ks" "length pre < MAX_STORE_DEPTH"
  shows "undeclared_store_paths (keyspace_verdict U read) ks pre = [] \<longleftrightarrow>
    (\<forall>q v. q \<noteq> [] \<longrightarrow> ks_lookup ks q = Some v \<longrightarrow> place_ok (keyspace_verdict U read) (pre @ q) (is_node v))"
  unfolding kv.report_empty [OF assms(2)] kv.clean_iff [OF assms, symmetric]
  by (auto simp: bad_paths_def)

text \<open>
  C16. The report is sorted and names, for every path nothing declares, exactly one path at or
  above it, the shallowest such path; what it names is such a path itself, with its class.
\<close>

theorem audit_names_shallowest:
  assumes "dict_store ks"
  shows "sorted (map fst (undeclared_store_paths (keyspace_verdict U read) ks pre)) \<and>
    (\<forall>(seg, j) \<in> set (undeclared_store_paths (keyspace_verdict U read) ks pre).
       j = classify_whole_store_path (keyspace_verdict U read) seg \<and> seg \<in> bad_paths (keyspace_verdict U read) ks pre) \<and>
    (\<forall>seg \<in> bad_paths (keyspace_verdict U read) ks pre.
       \<exists>!r. r \<in> set (map fst (undeclared_store_paths (keyspace_verdict U read) ks pre)) \<and> prefix r seg)"
proof (intro conjI ballI)
  let ?oc = "keyspace_verdict U read"
  let ?B = "bad_paths ?oc ks pre"
  show "sorted (map fst (undeclared_store_paths ?oc ks pre))" by (rule report_sorted)
  show "case x of (seg, j) \<Rightarrow> j = classify_whole_store_path ?oc seg \<and> seg \<in> ?B"
    if "x \<in> set (undeclared_store_paths ?oc ks pre)" for x
    using that kv.report_iff [OF assms, of "fst x" "snd x" U read pre] by (simp add: split_def)
  have mem: "r \<in> set (map fst (undeclared_store_paths ?oc ks pre)) \<longleftrightarrow> r \<in> ?B \<and> (\<forall>r' \<in> ?B. \<not> strict_prefix r' r)" for r
    using kv.report_iff [OF assms, of r _ U read pre] by force
  show "\<exists>!r. r \<in> set (map fst (undeclared_store_paths ?oc ks pre)) \<and> prefix r seg" if "seg \<in> ?B" for seg
    using kv.bad_has_shallowest [OF that] prefix_same_cases unfolding mem strict_prefix_def by blast
qed

definition sample_snapshot :: keystore where
  "sample_snapshot =
     [(u ''box'', SNode [(u ''image'', SLeaf (LStr (u ''x''))),
        (u ''caches'', SNode [(u ''/home/agent/.cache'', SLeaf (LStr (u ''c'')))])])]"

definition bad_snapshot :: keystore where
  "bad_snapshot = [(u ''box'', SNode [(u ''frob'', SNode [(u ''nard'', SLeaf LNone)])])]"

lemma sample_audits:
  "undeclared_store_paths (keyspace_verdict ascii_only []) sample_snapshot [] = []"
  "map fst (undeclared_store_paths (keyspace_verdict ascii_only []) bad_snapshot []) = [[u ''box'', u ''frob'']]"
  "dict_store sample_snapshot" "dict_store bad_snapshot"
  by code_simp+

theorem audit_clean_iff_witness:
  "place_ok (keyspace_verdict ascii_only []) [u ''box'', u ''caches'', u ''/home/agent/.cache''] False"
proof -
  have "ks_lookup sample_snapshot [u ''box'', u ''caches'', u ''/home/agent/.cache''] = Some (SLeaf (LStr (u ''c'')))"
    by code_simp
  moreover have "\<forall>q v. q \<noteq> [] \<longrightarrow> ks_lookup sample_snapshot q = Some v \<longrightarrow>
      place_ok (keyspace_verdict ascii_only []) ([] @ q) (is_node v)"
    by (rule iffD1 [OF audit_clean_iff sample_audits(1)])
      (simp_all add: sample_audits(3) declared_place_def MAX_STORE_DEPTH_def)
  ultimately have "place_ok (keyspace_verdict ascii_only [])
      ([] @ [u ''box'', u ''caches'', u ''/home/agent/.cache'']) (is_node (SLeaf (LStr (u ''c''))))"
    by blast
  then show ?thesis by (simp only: append_Nil is_node.simps)
qed

theorem audit_names_shallowest_witness:
  "\<exists>!r. r \<in> set (map fst (undeclared_store_paths (keyspace_verdict ascii_only []) bad_snapshot [])) \<and>
     prefix r [u ''box'', u ''frob'', u ''nard'']"
proof -
  have "([u ''box'', u ''frob'', u ''nard''], False) \<in> set (walk_store_paths bad_snapshot []) \<and>
      violates (keyspace_verdict ascii_only []) [u ''box'', u ''frob'', u ''nard''] False"
    by code_simp
  then have "[u ''box'', u ''frob'', u ''nard''] \<in> bad_paths (keyspace_verdict ascii_only []) bad_snapshot []"
    by (auto simp: bad_paths_def)
  then show ?thesis using audit_names_shallowest [OF sample_audits(4)] by blast
qed

end
