(* ===== verification/AgentView.thy ===== *)
theory AgentView imports StorePaths Expand begin

text \<open>
  Readers of the launch snapshot (\<open>settings_launch.py\<close>): the pick of the active agent over the
  default tier, its read-back under \<open>meta.box.agent\<close>, what \<open>expand\<close> is told of that read-back
  before it exists, the behaviour values, the launch grammar and the credential-sharing chain.
\<close>

section \<open>The pick\<close>

definition node_under :: "keystore \<Rightarrow> pystr \<Rightarrow> keystore option" where
  "node_under ks name = (case map_of ks name of Some (SNode sub) \<Rightarrow> Some sub | _ \<Rightarrow> None)"

definition snapshot_leaf :: "keystore \<Rightarrow> pystr \<Rightarrow> store_value option" where
  "snapshot_leaf ks dotted = ks_lookup ks (split_char dot dotted)"

text \<open>Names of \<open>top\<close> in order: two nodes are overlaid, anything else is replaced.\<close>

fun overlay_into :: "keystore \<Rightarrow> keystore \<Rightarrow> keystore" where
  "overlay_into base [] = base"
| "overlay_into base ((k, SLeaf l) # rest) = overlay_into (dict_set k (SLeaf l) base) rest"
| "overlay_into base ((k, SNode sub) # rest) =
     overlay_into (dict_set k (SNode (overlay_into (case node_under base k of Some b \<Rightarrow> b | None \<Rightarrow> []) sub)) base) rest"

definition fallback_node :: "keystore \<Rightarrow> keystore option" where
  "fallback_node agent_node = node_under agent_node (u ''default'')"

definition agent_pick_node :: "keystore \<Rightarrow> pystr \<Rightarrow> keystore" where
  "agent_pick_node snap active =
     (case node_under snap (u ''agent'') of
        None \<Rightarrow> []
      | Some agents \<Rightarrow>
          let base = (case fallback_node agents of None \<Rightarrow> [] | Some d \<Rightarrow> overlay_into [] d)
          in case node_under agents active of None \<Rightarrow> base | Some a \<Rightarrow> overlay_into base a)"

section \<open>The mirror\<close>

definition MIRROR_SEGMENTS :: "pystr list" where
  "MIRROR_SEGMENTS = [u ''meta'', u ''box'', u ''agent'']"

fun pop_path :: "keystore \<Rightarrow> pystr list \<Rightarrow> keystore" where
  "pop_path ks [] = ks"
| "pop_path ks [s] = dict_pop s ks"
| "pop_path ks (s # t # r) =
     (case map_of ks s of Some (SNode sub) \<Rightarrow> dict_set s (SNode (pop_path sub (t # r))) ks | _ \<Rightarrow> ks)"

definition drop_non_mirror_keys :: "(pystr \<Rightarrow> key_class) \<Rightarrow> keystore \<Rightarrow> keystore" where
  "drop_non_mirror_keys oc effective =
     foldl (\<lambda>ks (segments, _). pop_path ks (drop (length MIRROR_SEGMENTS) segments)) effective
       (undeclared_store_paths oc effective MIRROR_SEGMENTS)"

fun mirror_fill :: "keystore \<Rightarrow> keystore \<Rightarrow> keystore" where
  "mirror_fill box [] = box"
| "mirror_fill box ((name, SLeaf l) # rest) =
     mirror_fill (case map_of box name of None \<Rightarrow> dict_set name (SLeaf l) box | Some _ \<Rightarrow> box) rest"
| "mirror_fill box ((name, SNode a) # rest) =
     mirror_fill (case map_of box name of
         None \<Rightarrow> dict_set name (SNode (clone_store a)) box
       | Some (SNode b) \<Rightarrow> dict_set name (SNode (mirror_fill b a)) box
       | Some (SLeaf _) \<Rightarrow> box) rest"

definition materialize_box_agent_mirror :: "(pystr \<Rightarrow> key_class) \<Rightarrow> keystore \<Rightarrow> pystr \<Rightarrow> keystore" where
  "materialize_box_agent_mirror oc snap active =
     (if active = [] \<or> strip active = [] then snap
      else let effective = drop_non_mirror_keys oc (agent_pick_node snap active);
               nd = (\<lambda>ks name. case node_under ks name of Some n \<Rightarrow> n | None \<Rightarrow> []);
               meta = nd snap (u ''meta''); box = nd meta (u ''box''); agent = nd box (u ''agent'')
           in if effective = [] then snap
              else dict_set (u ''meta'') (SNode (dict_set (u ''box'') (SNode
                     (dict_set (u ''agent'') (SNode (mirror_fill agent effective)) box)) meta)) snap)"

section \<open>Credential sharing\<close>

text \<open>\<open>as_bool\<close> takes nothing but a \<open>bool\<close>.\<close>

datatype view_error = NotABool "store_value" | NoGrammarNode pystr | NotArgv pystr

record auth_inputs =
  support :: bool
  system_allow :: bool
  workset_allow :: bool
  global_sync :: bool
  global_knob :: bool
  workset_knob :: bool

definition as_bool :: "store_value \<Rightarrow> view_error + bool" where
  "as_bool v = (case v of SLeaf (LBool b) \<Rightarrow> Inr b | _ \<Rightarrow> Inl (NotABool v))"

definition auth_flag :: "store_value option \<Rightarrow> bool \<Rightarrow> view_error + bool" where
  "auth_flag v dflt = (case v of None \<Rightarrow> Inr dflt | Some w \<Rightarrow> as_bool w)"

text \<open>The six keys in the order they are read, with what stands for an absent one.\<close>

definition AUTH_INPUT_KEYS :: "(pystr \<times> bool) list" where
  "AUTH_INPUT_KEYS =
     [(u ''meta.box.agent.auth.share_support'', False), (u ''system.auth.share_allowed'', False),
      (u ''workset.auth.share_allowed'', False), (u ''workset.auth.global_sync'', False),
      (u ''box.auth.global_enabled'', True), (u ''box.auth.workset_enabled'', True)]"

definition auth_inputs_of :: "bool list \<Rightarrow> auth_inputs" where
  "auth_inputs_of flags =
     \<lparr>support = flags ! 0, system_allow = flags ! 1, workset_allow = flags ! 2, global_sync = flags ! 3,
      global_knob = flags ! 4, workset_knob = flags ! 5\<rparr>"

definition floorless :: "bool list" where
  "floorless = [False, False, False, False, True, True]"

definition read_auth_inputs :: "keystore \<Rightarrow> view_error + auth_inputs" where
  "read_auth_inputs snap =
     (if node_under snap (u ''box'') = None then Inr (auth_inputs_of floorless)
      else bindE (mapE (\<lambda>(key, dflt). auth_flag (snapshot_leaf snap key) dflt) AUTH_INPUT_KEYS)
             (\<lambda>flags. Inr (auth_inputs_of flags)))"

definition AUTH_ACTIVE_KEYS :: "pystr list" where
  "AUTH_ACTIVE_KEYS =
     [u ''meta.workset.auth.global_active'', u ''meta.box.auth.global_active'', u ''meta.box.auth.workset_active'']"

definition auth_active_values :: "auth_inputs \<Rightarrow> bool \<times> bool \<times> bool" where
  "auth_active_values i =
     (if \<not> support i then (False, False, False)
      else let box_global = system_allow i \<and> global_knob i;
               workset_global = system_allow i \<and> global_sync i;
               box_workset = (if workset_allow i \<and> workset_knob i
                              then (if global_sync i then True else \<not> box_global) else False)
           in (workset_global, box_global, box_workset))"

definition materialize_auth_active :: "keystore \<Rightarrow> view_error + keystore" where
  "materialize_auth_active snap = bindE (read_auth_inputs snap) (\<lambda>i.
     case auth_active_values i of (wg, bg, bw) \<Rightarrow>
       let s1 = snd (insert_segments snap [u ''meta'', u ''workset'', u ''auth'', u ''global_active''] (SLeaf (LBool wg)));
           s2 = snd (insert_segments s1 [u ''meta'', u ''box'', u ''auth'', u ''global_active''] (SLeaf (LBool bg)))
       in Inr (snd (insert_segments s2 [u ''meta'', u ''box'', u ''auth'', u ''workset_active''] (SLeaf (LBool bw)))))"

datatype auth_tier = WorksetTier | GlobalTier | BoxTier

record auth_source =
  tier :: auth_tier
  global_enabled :: bool
  workset_enabled :: bool
  source_sync :: bool
  workset_source :: "pystr option"

definition creds_shared :: "auth_source \<Rightarrow> bool" where
  "creds_shared a \<longleftrightarrow> tier a \<noteq> BoxTier"

text \<open>A non-empty string at \<open>meta.box.auth.workset_path\<close>, reached through nodes.\<close>

definition workset_path_of :: "keystore \<Rightarrow> pystr option" where
  "workset_path_of snap =
     (case ks_lookup snap [u ''meta'', u ''box'', u ''auth'', u ''workset_path''] of
        Some (SLeaf (LStr wp)) \<Rightarrow> if wp = [] then None else Some wp | _ \<Rightarrow> None)"

definition resolve_auth_source :: "keystore \<Rightarrow> view_error + auth_source" where
  "resolve_auth_source snap = bindE (read_auth_inputs snap) (\<lambda>i.
     if node_under snap (u ''box'') = None
     then Inr \<lparr>tier = BoxTier, global_enabled = False, workset_enabled = False, source_sync = False, workset_source = None\<rparr>
     else case auth_active_values i of (wg, ga, wa) \<Rightarrow>
       let src = workset_path_of snap;
           t = (if wa \<and> src \<noteq> None then WorksetTier else if ga then GlobalTier else BoxTier)
       in Inr \<lparr>tier = t, global_enabled = ga, workset_enabled = support i \<and> workset_allow i \<and> workset_knob i,
               source_sync = wg, workset_source = (if t = WorksetTier then src else None)\<rparr>)"

section \<open>The mirror, asked for during the expansion\<close>

fun source_keys :: "keystore \<Rightarrow> pystr \<Rightarrow> keystore" where
  "source_keys [] pre = []"
| "source_keys ((name, SLeaf _) # rest) pre = (name, SLeaf (LStr (pre @ dot # name))) # source_keys rest pre"
| "source_keys ((name, SNode sub) # rest) pre = (name, SNode (source_keys sub (pre @ dot # name))) # source_keys rest pre"

definition mirror_sources :: "(pystr \<Rightarrow> key_class) \<Rightarrow> keystore \<Rightarrow> pystr \<Rightarrow> keystore \<times> keystore option" where
  "mirror_sources oc snap active =
     (let put = (\<lambda>tiers name. case Option.bind (node_under snap (u ''agent'')) (\<lambda>agents. node_under agents name) of
                None \<Rightarrow> tiers | Some n \<Rightarrow> dict_set name (SNode (source_keys n (u ''agent.'' @ name))) tiers);
          tiers = put (put [] (u ''default'')) active
      in (drop_non_mirror_keys oc (agent_pick_node [(u ''agent'', SNode tiers)] active), fallback_node tiers))"

text \<open>
  A read of the six inputs in order, as the expansion sees it; the \<open>ValueError\<close> of \<open>as_bool\<close> is
  held as a refusal of the derivation.
\<close>

fun read_flags :: "(pystr \<times> bool) list \<Rightarrow> bool list \<Rightarrow> (bool list \<Rightarrow> derivation) \<Rightarrow> derivation" where
  "read_flags [] got k = k got"
| "read_flags ((key, dflt) # keys) got k =
     ReadKey key (\<lambda>v. case auth_flag v dflt of
       Inl _ \<Rightarrow> DerivationError key | Inr b \<Rightarrow> read_flags keys (got @ [b]) k)"

definition auth_answer :: "pystr \<Rightarrow> bool list \<Rightarrow> derivation" where
  "auth_answer dotted flags = (case auth_active_values (auth_inputs_of flags) of (wg, bg, bw) \<Rightarrow>
     Derived (SLeaf (LBool (if dotted = AUTH_ACTIVE_KEYS ! 0 then wg
                            else if dotted = AUTH_ACTIVE_KEYS ! 1 then bg else bw))))"

definition answer :: "store_value option \<Rightarrow> derivation" where
  "answer v = (case v of None \<Rightarrow> Underivable | Some w \<Rightarrow> Derived w)"

definition MIRROR_HEAD :: pystr where "MIRROR_HEAD = u ''meta.box.agent.''"

definition post_expand_keys :: "(pystr \<Rightarrow> key_class) \<Rightarrow> keystore \<Rightarrow> pystr \<Rightarrow> pystr \<Rightarrow> derivation" where
  "post_expand_keys oc snap active dotted =
     (if dotted \<in> set AUTH_ACTIVE_KEYS then
        (if node_under snap (u ''box'') = None then auth_answer dotted floorless
         else read_flags AUTH_INPUT_KEYS [] (auth_answer dotted))
      else if \<not> prefix MIRROR_HEAD dotted \<or> strip active = [] then Underivable
      else case mirror_sources oc snap active of (picked, fallback) \<Rightarrow>
        let leaf = drop (length MIRROR_HEAD) dotted
        in case snapshot_leaf picked leaf of
             Some (SLeaf (LStr source)) \<Rightarrow>
               ReadKey source (\<lambda>v. if v \<noteq> None then answer v
                 else case fallback of
                     None \<Rightarrow> Underivable
                   | Some f \<Rightarrow>
                       (case snapshot_leaf f leaf of
                          Some (SLeaf (LStr backup)) \<Rightarrow>
                            if backup \<noteq> source then ReadKey backup answer else Underivable
                        | _ \<Rightarrow> Underivable))
           | _ \<Rightarrow> Underivable)"

section \<open>Behaviour values and the launch grammar\<close>

datatype slot = ActiveSlot | DefaultSlot

definition behavior_pick :: "keystore \<Rightarrow> pystr \<Rightarrow> pystr \<Rightarrow> (slot \<times> store_value) option" where
  "behavior_pick snap active key =
     (case node_under snap (u ''agent'') of
        None \<Rightarrow> None
      | Some agents \<Rightarrow>
          (case Option.bind (node_under agents active) (\<lambda>a. map_of a key) of
             Some v \<Rightarrow> Some (ActiveSlot, v)
           | None \<Rightarrow>
               (case Option.bind (fallback_node agents) (\<lambda>d. map_of d key) of
                  Some v \<Rightarrow> Some (DefaultSlot, v) | None \<Rightarrow> None)))"

definition behavior_slot :: "keystore \<Rightarrow> pystr \<Rightarrow> pystr \<Rightarrow> slot option" where
  "behavior_slot snap active key = map_option fst (behavior_pick snap active key)"

definition LIST_VALUED_KEYS :: "pystr list" where "LIST_VALUED_KEYS = [u ''run_args'']"

definition argv_text :: "pystr list \<Rightarrow> pystr" where "argv_text words = join_char 32 words"

definition stored_leaf_text :: "pystr \<Rightarrow> store_value \<Rightarrow> pystr option" where
  "stored_leaf_text tail v =
     (case v of SLeaf (LList ws) \<Rightarrow> if tail \<in> set LIST_VALUED_KEYS then Some (argv_text ws) else None | _ \<Rightarrow> None)"

text \<open>\<open>str()\<close>; \<open>other\<close> is that of a float, a list or a pair.\<close>

definition behavior_text :: "(store_value \<Rightarrow> pystr) \<Rightarrow> pystr \<Rightarrow> store_value \<Rightarrow> pystr option" where
  "behavior_text other key v =
     (case v of
        SNode _ \<Rightarrow> None
      | SLeaf LNone \<Rightarrow> None
      | SLeaf (LBind _ _ _) \<Rightarrow> None
      | SLeaf (LStr s) \<Rightarrow> Some s
      | SLeaf (LInt i) \<Rightarrow> Some (int_text i)
      | SLeaf (LBool b) \<Rightarrow> Some (if b then u ''True'' else u ''False'')
      | _ \<Rightarrow> Some (case stored_leaf_text key v of Some t \<Rightarrow> t | None \<Rightarrow> other v))"

definition effective_behavior ::
  "(store_value \<Rightarrow> pystr) \<Rightarrow> keystore \<Rightarrow> pystr \<Rightarrow> pystr list option \<Rightarrow> (pystr \<times> pystr) list" where
  "effective_behavior other snap active keys =
     (case node_under snap (u ''agent'') of
        None \<Rightarrow> []
      | Some agents \<Rightarrow>
          let names = (\<lambda>n. case n of None \<Rightarrow> [] | Some ks \<Rightarrow> dict_keys ks);
              key_iter = (case keys of
                  Some ks \<Rightarrow> ks
                | None \<Rightarrow> let a = names (node_under agents active)
                          in a @ filter (\<lambda>k. k \<notin> set a) (names (fallback_node agents)))
          in fold (\<lambda>key out. case behavior_pick snap active key of
                 None \<Rightarrow> out
               | Some (_, v) \<Rightarrow> (case behavior_text other key v of None \<Rightarrow> out | Some t \<Rightarrow> dict_set key t out))
               key_iter [])"

record agent_grammar =
  grammar_mode :: "(pystr \<times> pystr list) list"
  exec_fragment :: "pystr list option"

definition argv_fragment :: "pystr \<Rightarrow> store_value \<Rightarrow> view_error + pystr list" where
  "argv_fragment key v = (case v of SLeaf (LList ws) \<Rightarrow> Inr ws | _ \<Rightarrow> Inl (NotArgv key))"

definition meta_agent_grammar :: "keystore \<Rightarrow> pystr \<Rightarrow> view_error + agent_grammar" where
  "meta_agent_grammar snap active =
     (let key = u ''meta.agent.'' @ active @ u ''.mode''
      in case Option.bind (Option.bind (node_under snap (u ''meta'')) (\<lambda>m. node_under m (u ''agent''))) (\<lambda>r. node_under r active) of
           None \<Rightarrow> Inl (NoGrammarNode (shown_key key))
         | Some sl \<Rightarrow>
             (case node_under sl (u ''mode'') of
                None \<Rightarrow> Inl (NoGrammarNode (shown_key key))
              | Some modes \<Rightarrow>
                  bindE (mapE (\<lambda>(k, v). bindE (argv_fragment (shown_key key @ dot # k) v) (\<lambda>ws. Inr (k, ws))) modes) (\<lambda>mode.
                  bindE (case map_of sl (u ''exec'') of
                      None \<Rightarrow> Inr None
                    | Some (SLeaf LNone) \<Rightarrow> Inr None
                    | Some v \<Rightarrow> bindE (argv_fragment (u ''meta.agent.'' @ active @ u ''.exec'') v) (\<lambda>ws. Inr (Some ws))) (\<lambda>ex.
                  Inr \<lparr>grammar_mode = mode, exec_fragment = ex\<rparr>))))"

section \<open>What the pick and the mirror hold\<close>

lemma node_under_iff: "node_under ks n = Some sub \<longleftrightarrow> map_of ks n = Some (SNode sub)"
  by (auto simp: node_under_def split: option.splits store_value.splits)

lemma node_under_dict_set: "k \<noteq> n \<Longrightarrow> node_under (dict_set k v ks) n = node_under ks n"
  by (simp add: node_under_def)

lemma dict_storeD: "dict_store ks \<Longrightarrow> distinct (map fst ks)"
  by (simp add: dict_store.simps [of ks])

lemma dict_store_Cons:
  "dict_store ((k, v) # ks) \<longleftrightarrow> k \<notin> fst ` set ks \<and> dict_store ks \<and> (\<forall>sub. v = SNode sub \<longrightarrow> dict_store sub)"
  unfolding dict_store.simps [of "(k, v) # ks"] dict_store.simps [of ks] by (auto split: store_value.splits)

lemma dict_store_Nil [simp]: "dict_store []"
  by (simp add: dict_store.simps)

lemma dict_store_iff:
  "dict_store ks \<longleftrightarrow> distinct (map fst ks) \<and> (\<forall>k sub. (k, SNode sub) \<in> set ks \<longrightarrow> dict_store sub)"
proof (induction ks)
  case (Cons p ks)
  then show ?case by (cases p) (auto simp: dict_store_Cons)
qed simp

lemma set_dict_set: "distinct (map fst ks) \<Longrightarrow> set (dict_set k v ks) = insert (k, v) {p \<in> set ks. fst p \<noteq> k}"
  by (induction k v ks rule: dict_set.induct) (auto simp: image_iff)

lemma dict_store_set:
  assumes "dict_store ks" "\<And>sub. v = SNode sub \<Longrightarrow> dict_store sub"
  shows "dict_store (dict_set k v ks)"
  using assms distinct_dict_set [of ks k v]
  unfolding dict_store_iff [of ks] dict_store_iff [of "dict_set k v ks"] by (auto simp: set_dict_set)

lemma dict_store_under: "dict_store ks \<Longrightarrow> node_under ks n = Some sub \<Longrightarrow> dict_store sub"
  by (auto simp: node_under_iff intro: dict_store_sub)

lemma map_of_overlay:
  "distinct (map fst over) \<Longrightarrow> map_of (overlay_into base over) k =
    (case map_of over k of
       None \<Rightarrow> map_of base k
     | Some (SLeaf l) \<Rightarrow> Some (SLeaf l)
     | Some (SNode sub) \<Rightarrow> Some (SNode (overlay_into (case node_under base k of Some b \<Rightarrow> b | None \<Rightarrow> []) sub)))"
proof (induction base over rule: overlay_into.induct)
  case (2 base k' l rest)
  then show ?case
    by (cases "k' = k")
      (simp_all add: node_under_dict_set map_of_eq_None_iff [THEN iffD2] split: option.split store_value.split)
next
  case (3 base k' sub rest)
  then show ?case
    by (cases "k' = k")
      (simp_all add: node_under_dict_set map_of_eq_None_iff [THEN iffD2] split: option.split store_value.split)
qed simp

lemma dict_store_overlay: "dict_store base \<Longrightarrow> dict_store over \<Longrightarrow> dict_store (overlay_into base over)"
proof (induction base over rule: overlay_into.induct)
  case (3 base k sub rest)
  have "dict_store (case node_under base k of Some b \<Rightarrow> b | None \<Rightarrow> [])"
    using "3.prems"(1) by (auto split: option.splits dest: dict_store_under)
  then show ?case using 3 by (auto simp: dict_store_Cons intro!: dict_store_set)
qed (auto simp: dict_store_Cons intro: dict_store_set)

lemma ks_lookup_empty [simp]: "ks_lookup [] (m # r) = None"
  by (simp add: ks_lookup_step)

lemma overlay_leaf:
  "dict_store over \<Longrightarrow> ks_lookup (overlay_into base over) q = Some (SLeaf l) \<longleftrightarrow>
    ks_lookup over q = Some (SLeaf l) \<or> (\<not> blocks over q \<and> ks_lookup base q = Some (SLeaf l))"
proof (induction over q arbitrary: base rule: blocks.induct)
  case (3 ks n m r)
  then show ?case
    using map_of_overlay [OF dict_storeD [OF "3.prems"], of base n]
    by (auto simp: node_under_def dict_store_sub split: option.splits store_value.splits)
next
  case (2 ks n)
  then show ?case
    using map_of_overlay [OF dict_storeD [OF "2.prems"], of base n]
    by (auto split: option.splits store_value.splits)
qed simp

lemma map_of_mirror_fill:
  "distinct (map fst a) \<Longrightarrow> map_of (mirror_fill b a) n =
    (case map_of b n of
       None \<Rightarrow> map_of a n
     | Some (SLeaf l) \<Rightarrow> Some (SLeaf l)
     | Some (SNode bn) \<Rightarrow> (case map_of a n of Some (SNode an) \<Rightarrow> Some (SNode (mirror_fill bn an)) | _ \<Rightarrow> Some (SNode bn)))"
proof (induction b a rule: mirror_fill.induct)
  case (2 b k' l rest)
  then show ?case
    by (cases "k' = n"; cases "map_of b k'")
      (simp_all add: map_of_eq_None_iff [THEN iffD2] split: option.split store_value.split)
next
  case (3 b k' an rest)
  show ?case
  proof (cases "map_of b k'")
    case None
    with 3 show ?thesis
      by (cases "k' = n")
        (simp_all add: clone_store_id map_of_eq_None_iff [THEN iffD2] del: clone_store.simps split: option.split store_value.split)
  next
    case (Some v)
    with 3 show ?thesis
      by (cases v; cases "k' = n")
        (simp_all add: map_of_eq_None_iff [THEN iffD2] del: clone_store.simps split: option.split store_value.split)
  qed
qed (simp split: option.split store_value.split)

lemma mirror_fill_leaf:
  "dict_store a \<Longrightarrow> ks_lookup (mirror_fill b a) q = Some (SLeaf l) \<longleftrightarrow>
    ks_lookup b q = Some (SLeaf l) \<or> (\<not> blocks b q \<and> ks_lookup a q = Some (SLeaf l))"
proof (induction b q arbitrary: a rule: blocks.induct)
  case (3 ks n m r)
  then show ?case
    using map_of_mirror_fill [OF dict_storeD [OF "3.prems"], of ks n]
    by (auto simp: dict_store_sub split: option.splits store_value.splits)
next
  case (2 ks n)
  then show ?case
    using map_of_mirror_fill [OF dict_storeD [OF "2.prems"], of ks n]
    by (auto split: option.splits store_value.splits)
qed simp

section \<open>What is dropped\<close>

text \<open>What stands at an address: a leaf, or a node whatever it holds.\<close>

definition shape_of :: "store_value \<Rightarrow> leaf option" where
  "shape_of v = (case v of SLeaf l \<Rightarrow> Some l | SNode _ \<Rightarrow> None)"

definition shape_at :: "keystore \<Rightarrow> pystr list \<Rightarrow> leaf option option" where
  "shape_at ks q = map_option shape_of (ks_lookup ks q)"

lemma shape_of_simps [simp]: "shape_of (SLeaf l) = Some l" "shape_of (SNode ks) = None"
  by (simp_all add: shape_of_def)

lemma is_node_shape: "is_node v \<longleftrightarrow> shape_of v = None"
  by (cases v) auto

lemma shape_leaf: "shape_at ks q = Some (Some l) \<longleftrightarrow> ks_lookup ks q = Some (SLeaf l)"
  by (cases "ks_lookup ks q") (auto simp: shape_at_def shape_of_def split: store_value.splits)

lemma shape_at_step:
  "shape_at ks (k # q) = (case map_of ks k of None \<Rightarrow> None
     | Some v \<Rightarrow> if q = [] then Some (shape_of v) else (case v of SNode sub \<Rightarrow> shape_at sub q | SLeaf _ \<Rightarrow> None))"
  by (auto simp: shape_at_def ks_lookup_step split: option.splits store_value.splits)

lemma shape_pop_path:
  "p \<noteq> [] \<Longrightarrow> q \<noteq> [] \<Longrightarrow> shape_at (pop_path ks p) q = (if prefix p q then None else shape_at ks q)"
proof (induction ks p arbitrary: q rule: pop_path.induct)
  case (2 ks s)
  then show ?case by (cases q) (auto simp: shape_at_step)
next
  case (3 ks s t r)
  from "3.prems"(2) obtain k q' where q: "q = k # q'" by (cases q) auto
  show ?case
  proof (cases "map_of ks s")
    case None
    with q show ?thesis by (cases "k = s") (auto simp: shape_at_step)
  next
    case (Some v)
    with q 3 show ?thesis
      by (cases v; cases "k = s"; cases "q' = []") (auto simp: shape_at_step)
  qed
qed simp

lemma dict_store_pop_path: "dict_store ks \<Longrightarrow> dict_store (pop_path ks p)"
proof (induction ks p rule: pop_path.induct)
  case (2 ks s)
  then show ?case unfolding dict_store_iff [of ks] dict_store_iff [of "pop_path ks [s]"]
    by (auto simp: dict_pop_def distinct_map_filter)
next
  case (3 ks s t r)
  then show ?case
    by (auto intro!: dict_store_set dest: dict_store_sub split: option.splits store_value.splits)
qed simp

lemma fold_pops:
  assumes "\<And>p. p \<in> set ps \<Longrightarrow> p \<noteq> []" "q \<noteq> []"
  shows "shape_at (foldl pop_path ks ps) q = (if \<exists>p \<in> set ps. prefix p q then None else shape_at ks q)"
  using assms(1)
  by (induction ps arbitrary: ks) (auto simp: shape_pop_path assms(2))

lemma dict_store_pops: "dict_store ks \<Longrightarrow> dict_store (foldl pop_path ks ps)"
  by (induction ps arbitrary: ks) (auto simp: dict_store_pop_path)

lemma drop_as_pops:
  "drop_non_mirror_keys oc ks = foldl pop_path ks (map (\<lambda>(seg, _). drop 3 seg) (undeclared_store_paths oc ks MIRROR_SEGMENTS))"
  by (simp add: drop_non_mirror_keys_def foldl_map split_def) (simp add: MIRROR_SEGMENTS_def numeral_3_eq_3)

lemma mirror_place: "declared_place (keyspace_verdict U read) MIRROR_SEGMENTS"
proof -
  have segs: "split_char dot (join_char dot MIRROR_SEGMENTS) = MIRROR_SEGMENTS" "[] \<notin> set MIRROR_SEGMENTS"
      "join_char dot MIRROR_SEGMENTS \<noteq> []" "dot_free MIRROR_SEGMENTS" "hd MIRROR_SEGMENTS \<noteq> BINDING_DERIVATIONS_NODE"
    by code_simp+
  have names: "u ''meta'' \<noteq> u ''config''" "u ''box'' \<noteq> u ''runtime''" "u ''box'' \<noteq> u ''assembly''"
      "u ''box'' \<noteq> u ''workset''" "u ''agent'' \<noteq> u ''auth''" "u ''agent'' \<notin> set DECLARED_META_BOX_LEAVES"
    by code_simp+
  have "keyspace_verdict U read (join_char dot MIRROR_SEGMENTS) = NAMESPACE"
    using segs(1-3) names unfolding keyspace_verdict_def declared_keyspace_oracle_def key_class_def
    by (simp add: MIRROR_SEGMENTS_def meta_class_def meta_box_class_def agent_tail_class_def)
  with segs show ?thesis by (simp add: declared_place_def)
qed

lemma bad_under: "dict_store ks \<Longrightarrow> seg \<in> bad_paths oc ks pre \<Longrightarrow> \<exists>q. q \<noteq> [] \<and> seg = pre @ q"
  by (auto simp: bad_paths_def walk_iff)

lemma shape_drop:
  assumes "dict_store ks" "q \<noteq> []"
  shows "shape_at (drop_non_mirror_keys (keyspace_verdict U read) ks) q =
    (if \<exists>r \<in> bad_paths (keyspace_verdict U read) ks MIRROR_SEGMENTS. prefix r (MIRROR_SEGMENTS @ q)
     then None else shape_at ks q)"
proof -
  let ?oc = "keyspace_verdict U read"
  let ?B = "bad_paths ?oc ks MIRROR_SEGMENTS"
  let ?R = "undeclared_store_paths ?oc ks MIRROR_SEGMENTS"
  let ?ps = "map (\<lambda>(seg, _). drop 3 seg) ?R"
  have three: "length MIRROR_SEGMENTS = 3" by (simp add: MIRROR_SEGMENTS_def)
  have reported: "\<exists>s. s \<noteq> [] \<and> seg = MIRROR_SEGMENTS @ s \<and> seg \<in> ?B" if "(seg, j) \<in> set ?R" for seg j
    using that kv.report_iff [OF assms(1), of seg j U read MIRROR_SEGMENTS] bad_under [OF assms(1)] by blast
  have ne: "p \<noteq> []" if "p \<in> set ?ps" for p
    using that reported three by fastforce
  have "(\<exists>p \<in> set ?ps. prefix p q) \<longleftrightarrow> (\<exists>r \<in> ?B. prefix r (MIRROR_SEGMENTS @ q))"
  proof
    assume "\<exists>p \<in> set ?ps. prefix p q"
    then obtain seg j where R: "(seg, j) \<in> set ?R" "prefix (drop 3 seg) q" by auto
    from reported [OF R(1)] obtain s where "seg = MIRROR_SEGMENTS @ s" "seg \<in> ?B" by blast
    with R(2) three show "\<exists>r \<in> ?B. prefix r (MIRROR_SEGMENTS @ q)" by (intro bexI [of _ seg]) auto
  next
    assume "\<exists>r \<in> ?B. prefix r (MIRROR_SEGMENTS @ q)"
    then obtain r where "r \<in> ?B" "prefix r (MIRROR_SEGMENTS @ q)" by blast
    with kv.bad_has_shallowest obtain r' where r': "r' \<in> ?B" "prefix r' (MIRROR_SEGMENTS @ q)"
        "\<forall>r'' \<in> ?B. \<not> strict_prefix r'' r'" by (meson prefix_order.order_trans)
    then have "(r', classify_whole_store_path ?oc r') \<in> set ?R"
      using kv.report_iff [OF assms(1), of r' _ U read MIRROR_SEGMENTS] by blast
    moreover obtain s where "r' = MIRROR_SEGMENTS @ s" using bad_under [OF assms(1) r'(1)] by blast
    ultimately show "\<exists>p \<in> set ?ps. prefix p q"
      using r'(2) three by (intro bexI [of _ s]) force+
  qed
  with fold_pops [of ?ps q ks] ne assms(2) show ?thesis unfolding drop_as_pops by simp
qed

lemma drop_clean:
  assumes "dict_store ks"
  shows "undeclared_store_paths (keyspace_verdict U read) (drop_non_mirror_keys (keyspace_verdict U read) ks) MIRROR_SEGMENTS = []"
proof -
  let ?oc = "keyspace_verdict U read"
  let ?d = "drop_non_mirror_keys ?oc ks"
  have d: "dict_store ?d" unfolding drop_as_pops by (rule dict_store_pops [OF assms])
  have "seg \<notin> bad_paths ?oc ?d MIRROR_SEGMENTS" for seg
  proof
    assume "seg \<in> bad_paths ?oc ?d MIRROR_SEGMENTS"
    then obtain n where w: "(seg, n) \<in> set (walk_store_paths ?d MIRROR_SEGMENTS)" "violates ?oc seg n"
      by (auto simp: bad_paths_def)
    then obtain q v where q: "q \<noteq> []" "seg = MIRROR_SEGMENTS @ q" "length seg \<le> MAX_STORE_DEPTH"
        "ks_lookup ?d q = Some v" "n = is_node v" by (auto simp: walk_iff [OF d])
    then have "shape_at ?d q = Some (shape_of v)" by (simp add: shape_at_def)
    with shape_drop [OF assms q(1)] have here: "shape_at ks q = Some (shape_of v)"
        and fine: "\<not> (\<exists>r \<in> bad_paths ?oc ks MIRROR_SEGMENTS. prefix r seg)"
      using q(2) by (auto split: if_splits)
    from here obtain v' where "ks_lookup ks q = Some v'" "shape_of v' = shape_of v" by (auto simp: shape_at_def)
    with q(1-3,5) have "(seg, n) \<in> set (walk_store_paths ks MIRROR_SEGMENTS)"
      by (auto simp: walk_iff [OF assms] is_node_shape)
    with w(2) fine show False by (auto simp: bad_paths_def)
  qed
  then show ?thesis using kv.report_empty [OF d] by blast
qed

text \<open>
  The drop leaves nothing the audit would name at the mirror, and takes away nothing else: a
  leaf stays unless a path nothing declares is at or above it.
\<close>

theorem mirror_drop_exact:
  assumes "dict_store ks" "q \<noteq> []"
  shows "undeclared_store_paths (keyspace_verdict U read) (drop_non_mirror_keys (keyspace_verdict U read) ks) MIRROR_SEGMENTS = [] \<and>
    (ks_lookup (drop_non_mirror_keys (keyspace_verdict U read) ks) q = Some (SLeaf l) \<longleftrightarrow>
     ks_lookup ks q = Some (SLeaf l) \<and>
     (\<nexists>r. r \<in> bad_paths (keyspace_verdict U read) ks MIRROR_SEGMENTS \<and> prefix r (MIRROR_SEGMENTS @ q)))"
  using drop_clean [OF assms(1)] shape_drop [OF assms, of U read] by (auto simp: shape_leaf [symmetric])

section \<open>The read-back of the active agent\<close>

definition agent_leaf :: "keystore \<Rightarrow> pystr \<Rightarrow> pystr list \<Rightarrow> leaf option" where
  "agent_leaf snap slot_name q = (case ks_lookup snap (u ''agent'' # slot_name # q) of Some (SLeaf l) \<Rightarrow> Some l | _ \<Rightarrow> None)"

text \<open>A node put in place of anything that is not one.\<close>

abbreviation node_or_new :: "keystore \<Rightarrow> pystr \<Rightarrow> keystore" where
  "node_or_new ks name \<equiv> (case node_under ks name of Some n \<Rightarrow> n | None \<Rightarrow> [])"

lemma agent_leaf_under:
  "q \<noteq> [] \<Longrightarrow> agent_leaf snap slot_name q = Some l \<longleftrightarrow>
    ks_lookup (node_or_new (node_or_new snap (u ''agent'')) slot_name) q = Some (SLeaf l)"
  by (cases q) (auto simp: agent_leaf_def ks_lookup_step node_under_def split: option.splits store_value.splits if_splits)

lemma pick_leaf:
  assumes "dict_store snap" "q \<noteq> []"
  shows "ks_lookup (agent_pick_node snap active) q = Some (SLeaf l) \<longleftrightarrow>
    agent_leaf snap active q = Some l \<or>
    (\<not> blocks (node_or_new (node_or_new snap (u ''agent'')) active) q \<and> agent_leaf snap (u ''default'') q = Some l)"
proof -
  have empty: "\<not> blocks [] q" "ks_lookup [] q = None" using assms(2) by (cases q; cases "tl q"; simp add: ks_lookup_step)+
  have sub: "dict_store n" if "node_under snap (u ''agent'') = Some ag" "node_under ag t = Some n" for ag t n
    using that assms(1) dict_store_under by blast
  show ?thesis
    unfolding agent_leaf_under [OF assms(2)] agent_pick_node_def fallback_node_def
    using empty sub
    by (auto simp: Let_def overlay_leaf node_under_def [of "[]"] split: option.splits)
qed

lemma dict_store_pick: "dict_store snap \<Longrightarrow> dict_store (agent_pick_node snap active)"
  unfolding agent_pick_node_def fallback_node_def
  by (auto simp: Let_def split: option.splits intro!: dict_store_overlay dest: dict_store_under)

definition mirror_node :: "keystore \<Rightarrow> keystore" where
  "mirror_node snap = node_or_new (node_or_new (node_or_new snap (u ''meta'')) (u ''box'')) (u ''agent'')"

lemma lookup_under:
  "q \<noteq> [] \<Longrightarrow> ks_lookup ks (n # q) = Some (SLeaf l) \<longleftrightarrow> ks_lookup (node_or_new ks n) q = Some (SLeaf l)"
  by (cases q) (auto simp: ks_lookup_step node_under_def split: option.splits store_value.splits)

lemma lookup_mirror:
  "q \<noteq> [] \<Longrightarrow> ks_lookup snap (MIRROR_SEGMENTS @ q) = Some (SLeaf l) \<longleftrightarrow> ks_lookup (mirror_node snap) q = Some (SLeaf l)"
  unfolding MIRROR_SEGMENTS_def mirror_node_def append_Cons append_Nil
  by (simp only: lookup_under list.simps not_False_eq_True)

lemma materialize_leaf:
  assumes "q \<noteq> []" "strip active \<noteq> []"
  shows "ks_lookup (materialize_box_agent_mirror oc snap active) (MIRROR_SEGMENTS @ q) = Some (SLeaf l) \<longleftrightarrow>
    ks_lookup (mirror_fill (mirror_node snap) (drop_non_mirror_keys oc (agent_pick_node snap active))) q = Some (SLeaf l)"
proof -
  have "active \<noteq> []" using assms(2) by (auto simp: strip_def rstrip_by_def)
  then show ?thesis
    unfolding lookup_mirror [OF assms(1)] using assms
    by (auto simp: materialize_box_agent_mirror_def Let_def mirror_node_def node_under_def
        split: if_splits)
qed

text \<open>
  C18. The read-back under \<open>meta.box.agent\<close>: after it is materialized a leaf stands at an address
  there exactly when it stood there before, or nothing there blocks the address, the pick gives
  it (the active agent's leaf, or the default tier's where the active one sets nothing on the
  way), and no path that the keyspace refuses at the mirror is at or above it. Nothing outside
  \<open>meta\<close> changes.
\<close>

theorem mirror_reads_back:
  assumes "dict_store snap" "q \<noteq> []" "strip active \<noteq> []"
  shows "(ks_lookup (materialize_box_agent_mirror (keyspace_verdict U read) snap active) (MIRROR_SEGMENTS @ q) = Some (SLeaf l) \<longleftrightarrow>
      ks_lookup snap (MIRROR_SEGMENTS @ q) = Some (SLeaf l) \<or>
      (\<not> blocks (mirror_node snap) q \<and>
       (agent_leaf snap active q = Some l \<or>
        (\<not> blocks (node_or_new (node_or_new snap (u ''agent'')) active) q \<and> agent_leaf snap (u ''default'') q = Some l)) \<and>
       (\<nexists>r. r \<in> bad_paths (keyspace_verdict U read) (agent_pick_node snap active) MIRROR_SEGMENTS \<and>
          prefix r (MIRROR_SEGMENTS @ q)))) \<and>
    (\<forall>p. p \<noteq> [] \<and> hd p \<noteq> u ''meta'' \<longrightarrow>
      ks_lookup (materialize_box_agent_mirror (keyspace_verdict U read) snap active) p = ks_lookup snap p)"
    (is "?leaf \<and> ?frame")
proof
  let ?eff = "drop_non_mirror_keys (keyspace_verdict U read) (agent_pick_node snap active)"
  have pick: "dict_store (agent_pick_node snap active)" by (rule dict_store_pick [OF assms(1)])
  have eff: "dict_store ?eff" unfolding drop_as_pops by (rule dict_store_pops [OF pick])
  show ?leaf
    unfolding materialize_leaf [OF assms(2,3)] mirror_fill_leaf [OF eff] lookup_mirror [OF assms(2), of snap]
      pick_leaf [OF assms(1,2), symmetric]
    using shape_drop [OF pick assms(2), of U read] by (auto simp: shape_leaf [symmetric])
  show ?frame
  proof (intro allI impI)
    fix p
    assume "p \<noteq> [] \<and> hd p \<noteq> u ''meta''"
    then show "ks_lookup (materialize_box_agent_mirror (keyspace_verdict U read) snap active) p = ks_lookup snap p"
      by (cases p) (auto simp: materialize_box_agent_mirror_def Let_def ks_lookup_step)
  qed
qed

text \<open>
  The two readers of an agent's tiers agree on leaves: the value of one behaviour key is a
  leaf exactly when the subtree pick holds that leaf at the key.
\<close>

theorem behavior_pick_agrees:
  assumes "dict_store snap"
  shows "(\<exists>sl. behavior_pick snap active key = Some (sl, SLeaf l)) \<longleftrightarrow>
    map_of (agent_pick_node snap active) key = Some (SLeaf l)"
proof -
  have sub: "dict_store n" if "node_under snap (u ''agent'') = Some ag" "node_under ag t = Some n" for ag t n
    using that assms dict_store_under by blast
  show ?thesis
    unfolding behavior_pick_def agent_pick_node_def fallback_node_def
    by (auto simp: Let_def map_of_overlay dict_storeD sub split: option.splits store_value.splits)
qed

section \<open>Who shares credentials\<close>

lemma auth_values_cases:
  "auth_active_values i = (wg, bg, bw) \<Longrightarrow>
    (bg \<longleftrightarrow> support i \<and> system_allow i \<and> global_knob i) \<and>
    (wg \<longleftrightarrow> support i \<and> system_allow i \<and> global_sync i) \<and>
    (bw \<longleftrightarrow> support i \<and> workset_allow i \<and> workset_knob i \<and> (global_sync i \<or> \<not> bg))"
  by (auto simp: auth_active_values_def Let_def split: if_splits)

text \<open>
  C17. Credentials are shared with nobody who has not agreed: a box of the workset tier has a
  capable agent, an allowing working set, its own knob on and a store to share from; one of the
  global tier has a capable agent, an allowing system and its knob on. A working set's store and
  the global one are never both active for a box unless the working set syncs with the global
  one, the source is given for the workset tier alone, and without a \<open>box\<close> node nothing is shared.
\<close>

theorem creds_need_consent:
  assumes "resolve_auth_source snap = Inr a" "read_auth_inputs snap = Inr i"
  shows "(creds_shared a \<longrightarrow> support i \<and> node_under snap (u ''box'') \<noteq> None) \<and>
    (tier a = WorksetTier \<longrightarrow> workset_allow i \<and> workset_knob i \<and> workset_source a = workset_path_of snap \<and>
       (global_enabled a \<longrightarrow> global_sync i)) \<and>
    (tier a = GlobalTier \<longrightarrow> system_allow i \<and> global_knob i) \<and>
    (workset_source a \<noteq> None \<longleftrightarrow> tier a = WorksetTier) \<and>
    (source_sync a \<longrightarrow> support i \<and> system_allow i \<and> global_sync i)"
proof -
  obtain wg bg bw where v: "auth_active_values i = (wg, bg, bw)" by (cases "auth_active_values i")
  note active = auth_values_cases [OF v]
  show ?thesis
  proof (cases "node_under snap (u ''box'')")
    case None
    with assms show ?thesis by (auto simp: resolve_auth_source_def bindE_def creds_shared_def)
  next
    case (Some box)
    let ?t = "if bw \<and> workset_path_of snap \<noteq> None then WorksetTier else if bg then GlobalTier else BoxTier"
    from Some assms have a: "tier a = ?t" "global_enabled a = bg" "source_sync a = wg"
        "workset_source a = (if ?t = WorksetTier then workset_path_of snap else None)"
      by (auto simp: resolve_auth_source_def bindE_def v Let_def)
    show ?thesis unfolding creds_shared_def a Some using active by (simp split: if_splits) blast
  qed
qed

text \<open>A derivation run with a reader of the finished tree.\<close>

primrec ask_derivation :: "(pystr \<Rightarrow> store_value option) \<Rightarrow> derivation \<Rightarrow> pystr + store_value option" where
  "ask_derivation rd Underivable = Inr None"
| "ask_derivation rd (Derived v) = Inr (Some v)"
| "ask_derivation rd (DerivationError m) = Inl m"
| "ask_derivation rd (ReadKey key k) = ask_derivation rd (k (rd key))"

lemma ask_read_flags:
  "mapE (\<lambda>(key, dflt). auth_flag (rd key) dflt) keys = Inr flags \<Longrightarrow>
    ask_derivation rd (read_flags keys got k) = ask_derivation rd (k (got @ flags))"
  by (induction keys arbitrary: got flags) (auto simp: bindE_def split: sum.splits)

lemma insert_segments_ok:
  "list_all (\<lambda>seg. check_key_name seg = Inr seg) segs \<Longrightarrow> segs \<noteq> [] \<Longrightarrow> fst (insert_segments ks segs v) = None"
proof (induction ks segs v rule: insert_segments.induct)
  case (3 ks seg seg' rest v)
  then show ?case by (cases "map_of ks seg" rule: option.exhaust) (auto split: store_value.splits prod.splits simp: prod_eq_iff)
qed (auto simp: set_item_def bindE_def)

lemma insert_segments_at:
  assumes "list_all (\<lambda>seg. check_key_name seg = Inr seg) segs" "segs \<noteq> []"
  shows "ks_lookup (snd (insert_segments ks segs v)) q =
    (if q = segs then Some v
     else if prefix segs q \<or> prefix q segs then ks_lookup (snd (insert_segments ks segs v)) q else ks_lookup ks q)"
proof -
  have "insert_segments ks segs v = (None, snd (insert_segments ks segs v))"
    using insert_segments_ok [OF assms, of ks v] by (simp add: prod_eq_iff)
  from insert_segments_spec [OF this] show ?thesis by auto
qed

lemma auth_segments:
  "split_char dot (AUTH_ACTIVE_KEYS ! 0) = [u ''meta'', u ''workset'', u ''auth'', u ''global_active'']"
  "split_char dot (AUTH_ACTIVE_KEYS ! 1) = [u ''meta'', u ''box'', u ''auth'', u ''global_active'']"
  "split_char dot (AUTH_ACTIVE_KEYS ! 2) = [u ''meta'', u ''box'', u ''auth'', u ''workset_active'']"
  "list_all (\<lambda>seg. check_key_name seg = Inr seg)
     [u ''meta'', u ''box'', u ''workset'', u ''auth'', u ''global_active'', u ''workset_active'']"
  "distinct [u ''box'', u ''workset'', u ''global_active'', u ''workset_active'']"
  "distinct AUTH_ACTIVE_KEYS"
  by code_simp+


section \<open>A box of a working set\<close>

definition shared_box :: keystore where
  "shared_box =
     [(u ''agent'', SNode [(u ''claude'', SNode [(u ''model'', SLeaf (LStr (u ''new'')))]),
        (u ''default'', SNode [(u ''model'', SLeaf (LStr (u ''continue''))), (u ''frob'', SLeaf LNone)])]),
      (u ''system'', SNode [(u ''auth'', SNode [(u ''share_allowed'', SLeaf (LBool True))])]),
      (u ''box'', SNode []),
      (u ''meta'', SNode [(u ''box'', SNode [(u ''agent'', SNode [(u ''auth'', SNode [(u ''share_support'', SLeaf (LBool True))])])])])]"

lemma shared_box_facts:
  "dict_store shared_box" "strip (u ''claude'') \<noteq> []" "MIRROR_SEGMENTS @ [u ''model''] = [u ''meta'', u ''box'', u ''agent'', u ''model'']"
  "node_under shared_box (u ''box'') \<noteq> None"
  "creds_shared \<lparr>tier = GlobalTier, global_enabled = True, workset_enabled = False, source_sync = False, workset_source = None\<rparr>"
  "ks_lookup shared_box [u ''agent'', u ''claude'', u ''model''] = Some (SLeaf (LStr (u ''new'')))"
  "map_of (agent_pick_node shared_box (u ''claude'')) (u ''model'') = Some (SLeaf (LStr (u ''new'')))"
  "u ''agent'' \<noteq> u ''meta''" "AUTH_ACTIVE_KEYS ! 1 \<in> set AUTH_ACTIVE_KEYS"
  by code_simp+

lemma shared_box_mirror:
  "ks_lookup (materialize_box_agent_mirror (keyspace_verdict ascii_only []) shared_box (u ''claude'')) (MIRROR_SEGMENTS @ [u ''model'']) =
    Some (SLeaf (LStr (u ''new'')))"
  by code_simp

lemma shared_box_source:
  "resolve_auth_source shared_box =
    Inr \<lparr>tier = GlobalTier, global_enabled = True, workset_enabled = False, source_sync = False, workset_source = None\<rparr>"
  "read_auth_inputs shared_box =
    Inr \<lparr>support = True, system_allow = True, workset_allow = False, global_sync = False, global_knob = True, workset_knob = True\<rparr>"
  by code_simp+

theorem mirror_reads_back_witness:
  "(\<nexists>r. r \<in> bad_paths (keyspace_verdict ascii_only []) (agent_pick_node shared_box (u ''claude'')) MIRROR_SEGMENTS \<and>
      prefix r (MIRROR_SEGMENTS @ [u ''model''])) \<and>
   ks_lookup (materialize_box_agent_mirror (keyspace_verdict ascii_only []) shared_box (u ''claude'')) [u ''agent'', u ''claude'', u ''model''] =
     Some (SLeaf (LStr (u ''new'')))"
proof
  have absent: "ks_lookup shared_box (MIRROR_SEGMENTS @ [u ''model'']) = None" by code_simp
  have one: "[u ''model''] \<noteq> []" by simp
  show "\<nexists>r. r \<in> bad_paths (keyspace_verdict ascii_only []) (agent_pick_node shared_box (u ''claude'')) MIRROR_SEGMENTS \<and>
      prefix r (MIRROR_SEGMENTS @ [u ''model''])"
    using iffD1 [OF conjunct1 [OF mirror_reads_back [OF shared_box_facts(1) one shared_box_facts(2)]] shared_box_mirror] absent
    by simp
  show "ks_lookup (materialize_box_agent_mirror (keyspace_verdict ascii_only []) shared_box (u ''claude'')) [u ''agent'', u ''claude'', u ''model''] =
     Some (SLeaf (LStr (u ''new'')))"
    unfolding shared_box_facts(6) [symmetric]
    by (rule mp [OF spec [OF conjunct2 [OF mirror_reads_back [OF shared_box_facts(1) one shared_box_facts(2)]]]])
      (simp add: shared_box_facts(8))
qed

theorem behavior_pick_agrees_witness:
  "\<exists>sl. behavior_pick shared_box (u ''claude'') (u ''model'') = Some (sl, SLeaf (LStr (u ''new'')))"
  by (rule iffD2 [OF behavior_pick_agrees [OF shared_box_facts(1)] shared_box_facts(7)])

theorem creds_need_consent_witness:
  "support \<lparr>support = True, system_allow = True, workset_allow = False, global_sync = False, global_knob = True, workset_knob = True\<rparr> \<and>
   node_under shared_box (u ''box'') \<noteq> None"
  using creds_need_consent [OF shared_box_source] shared_box_facts(5) by blast


end
