(* ===== verification/Entries.thy ===== *)
theory Entries imports AgentView Collapse "HOL-Library.Product_Lexorder" begin

text \<open>
  The entries of a launch (\<open>src/kanibako/settings/settings_launch.py\<close>): from the expanded snapshot
  to the one list of category entries that the shapes, the collapse and the launch seam read.
  The refusals are values that name the key; their sentences are not modelled.
\<close>

datatype entry_error =
    ArmlessBinding pystr pystr
  | CategoryRootValue pystr pystr store_value
  | NoBindEntry pystr pystr store_value
  | NoScalarValue pystr pystr store_value
  | RelativeSecret pystr pystr
  | BadDestination expr_error

text \<open>\<open>sort_key\<close>: the scope's rank, the category, the name.\<close>

type_synonym ranked = "(nat \<times> pystr \<times> pystr) \<times> category_entry"

definition SECRET_MOUNT_DIR :: pystr where "SECRET_MOUNT_DIR = u ''/run/kanibako/secrets''"

definition no_lookup :: "pystr \<Rightarrow> pystr list \<Rightarrow> expr_error + pystr" where
  "no_lookup name chain = Inl (Other (u ''unexpected reference in a box_dest: '' @ name))"

definition resolve_box_dest :: "resolve_ctx \<Rightarrow> pystr \<Rightarrow> entry_error + pystr" where
  "resolve_box_dest bctx raw =
     (case expand_expr (\<lambda>_. False) False GuestSpace bctx no_lookup [] False raw of
        Inl e \<Rightarrow> Inl (BadDestination e) | Inr d \<Rightarrow> Inr d)"

section \<open>What may stand at a category\<close>

definition require_category_node :: "pystr \<Rightarrow> pystr \<Rightarrow> store_value option \<Rightarrow> entry_error + keystore" where
  "require_category_node key_prefix cat v =
     (case v of None \<Rightarrow> Inr [] | Some (SNode ks) \<Rightarrow> Inr ks
      | Some (SLeaf l) \<Rightarrow> Inl (CategoryRootValue (shown_key key_prefix) cat (SLeaf l)))"

definition assert_arms :: "pystr \<Rightarrow> keystore \<Rightarrow> entry_error + unit" where
  "assert_arms key_prefix bnode =
     bindE (mapE (\<lambda>name. if name \<in> {u ''ro'', u ''rw''} then Inr ()
         else Inl (ArmlessBinding (shown_key key_prefix) name)) (dict_keys bnode)) (\<lambda>_.
     bindE (mapE (\<lambda>mode. require_category_node key_prefix (u ''bindings.'' @ mode) (map_of bnode mode))
         [u ''ro'', u ''rw'']) (\<lambda>_. Inr ()))"

definition assert_declared_categories :: "pystr \<Rightarrow> keystore \<Rightarrow> entry_error + unit" where
  "assert_declared_categories key_prefix nd =
     bindE (bindE (require_category_node key_prefix (u ''bindings'') (map_of nd (u ''bindings'')))
         (assert_arms key_prefix)) (\<lambda>_.
     bindE (mapE (\<lambda>cat. require_category_node key_prefix cat (map_of nd cat))
         (BIND_LEAF_CATEGORIES @ [u ''masks''])) (\<lambda>_. Inr ()))"

section \<open>Who declared an entry\<close>

definition fixed_decl_scope :: "pystr \<Rightarrow> pystr \<Rightarrow> pystr \<Rightarrow> pystr" where
  "fixed_decl_scope sc cat name = sc"

definition agent_decl_scope :: "keystore \<Rightarrow> pystr \<Rightarrow> pystr \<Rightarrow> pystr \<Rightarrow> pystr" where
  "agent_decl_scope snap active cat name =
     (case Option.bind (node_under snap (u ''agent'')) (\<lambda>ag. node_under ag active) of
        None \<Rightarrow> u ''agent.default''
      | Some nd \<Rightarrow> if ks_lookup nd (split_char dot cat @ [name]) = None then u ''agent.default''
                   else u ''agent.'' @ active)"

definition decl_segments :: "(pystr \<Rightarrow> pystr \<Rightarrow> pystr) \<Rightarrow> pystr \<Rightarrow> pystr \<Rightarrow> pystr list" where
  "decl_segments decl cat name = split_char dot (decl cat name) @ split_char dot cat @ [name]"

section \<open>The entries of one scope\<close>

definition emit_bind ::
  "resolve_ctx \<Rightarrow> (pystr \<Rightarrow> pystr \<Rightarrow> pystr) \<Rightarrow> pystr \<Rightarrow> pystr \<Rightarrow> pystr \<Rightarrow> pystr \<Rightarrow> pystr option \<Rightarrow> entry_error + ranked" where
  "emit_bind bctx decl sc cat dest src opts =
     bindE (resolve_box_dest bctx dest) (\<lambda>d.
       let deliv = the (map_of DELIVERY cat)
       in Inr ((scope_rank sc, cat, dest),
            \<lparr>category = cat, scope = sc, box_dest = d, host_src = Some src, delivery = deliv,
             options = (if deliv = MOUNT then (case opts of Some os \<Rightarrow> os | None \<Rightarrow> bind_options cat) else []),
             ename = dest, key_segments = decl_segments decl cat dest, is_credential = False\<rparr>))"

definition emit_bind_map ::
  "resolve_ctx \<Rightarrow> (pystr \<Rightarrow> pystr \<Rightarrow> pystr) \<Rightarrow> pystr \<Rightarrow> pystr \<Rightarrow> keystore \<Rightarrow> entry_error + ranked list" where
  "emit_bind_map bctx decl sc cat map_node =
     bindE (mapE (\<lambda>(dest, v). case v of
          SLeaf LNone \<Rightarrow> Inr []
        | SLeaf (LEntry src opts) \<Rightarrow> bindE (emit_bind bctx decl sc cat dest src opts) (\<lambda>e. Inr [e])
        | _ \<Rightarrow> Inl (NoBindEntry
            (entry_label (shown_key (join_char dot (butlast (decl_segments decl cat dest)))) dest) cat v)) map_node)
       (\<lambda>ess. Inr (concat ess))"

definition emit_mask :: "resolve_ctx \<Rightarrow> (pystr \<Rightarrow> pystr \<Rightarrow> pystr) \<Rightarrow> pystr \<Rightarrow> pystr \<Rightarrow> entry_error + ranked" where
  "emit_mask bctx decl sc raw =
     bindE (resolve_box_dest bctx raw) (\<lambda>d. Inr ((scope_rank sc, u ''masks'', d),
       \<lparr>category = u ''masks'', scope = sc, box_dest = d, host_src = None, delivery = MOUNT, options = u ''ro'',
        ename = d, key_segments = decl_segments decl (u ''masks'') raw, is_credential = False\<rparr>))"

text \<open>The key a refusal names.\<close>

definition family_key :: "(pystr \<Rightarrow> pystr \<Rightarrow> pystr) \<Rightarrow> pystr \<Rightarrow> pystr \<Rightarrow> pystr" where
  "family_key decl cat var = decl cat var @ dot # cat @ dot # var"

fun is_scalar_family_value :: "store_value \<Rightarrow> bool" where
  "is_scalar_family_value (SLeaf l) =
     (case l of LNone \<Rightarrow> True | LStr _ \<Rightarrow> True | LInt _ \<Rightarrow> True | LFloat _ \<Rightarrow> True | LBool _ \<Rightarrow> True | _ \<Rightarrow> False)"
| "is_scalar_family_value (SNode _) = False"

fun is_path_key_value :: "store_value \<Rightarrow> bool" where
  "is_path_key_value (SLeaf l) = (case l of LNone \<Rightarrow> True | LStr _ \<Rightarrow> True | _ \<Rightarrow> False)"
| "is_path_key_value (SNode _) = False"

definition refuse_non_scalar_family_value :: "pystr \<Rightarrow> pystr \<Rightarrow> store_value \<Rightarrow> entry_error + unit" where
  "refuse_non_scalar_family_value key cat v =
     (if (if cat = u ''env'' then is_scalar_family_value v else is_path_key_value v) then Inr ()
      else Inl (NoScalarValue key cat v))"

definition emit_env ::
  "(store_value \<Rightarrow> pystr) \<Rightarrow> (pystr \<Rightarrow> pystr \<Rightarrow> pystr) \<Rightarrow> pystr \<Rightarrow> pystr \<times> store_value \<Rightarrow> entry_error + ranked list" where
  "emit_env other decl sc row =
     (case row of (var, v) \<Rightarrow>
       if v = SLeaf LNone then Inr []
       else bindE (refuse_non_scalar_family_value (family_key decl (u ''env'') var) (u ''env'') v) (\<lambda>_.
         Inr [((scope_rank sc, u ''env'', var),
           \<lparr>category = u ''env'', scope = sc, box_dest = var, host_src = None, delivery = ENV,
            options = value_text other (Some v), ename = var, key_segments = decl_segments decl (u ''env'') var,
            is_credential = False\<rparr>)]))"

definition secret_entry :: "(pystr \<Rightarrow> pystr \<Rightarrow> pystr) \<Rightarrow> pystr \<Rightarrow> pystr \<Rightarrow> pystr option \<Rightarrow> ranked" where
  "secret_entry decl sc var src =
     ((scope_rank sc, u ''secret_path'', var),
      \<lparr>category = u ''secret_path'', scope = sc, box_dest = SECRET_MOUNT_DIR @ slash # var, host_src = src,
       delivery = MOUNT, options = u ''ro'', ename = var, key_segments = decl_segments decl (u ''secret_path'') var,
       is_credential = False\<rparr>)"

definition emit_secret ::
  "(store_value \<Rightarrow> pystr) \<Rightarrow> (pystr \<Rightarrow> pystr \<Rightarrow> pystr) \<Rightarrow> pystr \<Rightarrow> pystr \<times> store_value \<Rightarrow> entry_error + ranked" where
  "emit_secret other decl sc row =
     (case row of (var, v) \<Rightarrow>
       let key = family_key decl (u ''secret_path'') var
       in if v = SLeaf LNone then Inr (secret_entry decl sc var None)
          else bindE (refuse_non_scalar_family_value key (u ''secret_path'') v) (\<lambda>_.
            let src = value_text other (Some v)
            in if src \<noteq> [] \<and> \<not> prefix [slash] src then Inl (RelativeSecret key src)
               else Inr (secret_entry decl sc var (Some src))))"

text \<open>A category whose node is absent, or is no node, is passed over here.\<close>

definition category_node :: "keystore \<Rightarrow> pystr list \<Rightarrow> keystore" where
  "category_node nd path = (case ks_lookup nd path of Some (SNode ks) \<Rightarrow> ks | _ \<Rightarrow> [])"

text \<open>The leaf categories are a frozenset, walked in one fixed order here: which
  of several refusals is raised may differ, the sorted entries do not.\<close>

definition BIND_SHAPED :: "pystr list" where
  "BIND_SHAPED = [u ''bindings.ro'', u ''bindings.rw''] @ BIND_LEAF_CATEGORIES"

definition emit_scope_node ::
  "(store_value \<Rightarrow> pystr) \<Rightarrow> resolve_ctx \<Rightarrow> (pystr \<Rightarrow> pystr \<Rightarrow> pystr) \<Rightarrow> pystr \<Rightarrow> keystore \<Rightarrow> entry_error + ranked list" where
  "emit_scope_node other bctx decl sc nd =
     bindE (mapE (\<lambda>cat. emit_bind_map bctx decl sc cat (category_node nd (split_char dot cat))) BIND_SHAPED) (\<lambda>binds.
     bindE (mapE (\<lambda>(raw, _). emit_mask bctx decl sc raw) (category_node nd [u ''masks''])) (\<lambda>masks.
     bindE (mapE (emit_env other decl sc) (category_node nd [u ''env''])) (\<lambda>envs.
     bindE (mapE (emit_secret other decl sc) (category_node nd [u ''secret_path''])) (\<lambda>secrets.
       Inr (concat binds @ masks @ concat envs @ secrets)))))"

section \<open>The entries of a launch\<close>

definition assert_agent_tiers :: "keystore \<Rightarrow> entry_error + unit" where
  "assert_agent_tiers agents =
     bindE (mapE (\<lambda>(name, v). case v of
          SNode nd \<Rightarrow> assert_declared_categories (u ''agent.'' @ name) nd | SLeaf _ \<Rightarrow> Inr ()) agents) (\<lambda>_. Inr ())"

text \<open>The node a scope's entries come from; the agent's is the pick of its tiers.\<close>

definition scope_node :: "keystore \<Rightarrow> pystr \<Rightarrow> pystr \<Rightarrow> keystore option" where
  "scope_node snap active sc = (if sc = u ''agent'' then Some (agent_pick_node snap active) else node_under snap sc)"

definition decl_scope :: "keystore \<Rightarrow> pystr \<Rightarrow> pystr \<Rightarrow> pystr \<Rightarrow> pystr \<Rightarrow> pystr" where
  "decl_scope snap active sc = (if sc = u ''agent'' then agent_decl_scope snap active else fixed_decl_scope sc)"

definition assert_scope :: "keystore \<Rightarrow> pystr \<Rightarrow> entry_error + unit" where
  "assert_scope snap sc =
     (case node_under snap sc of
        None \<Rightarrow> Inr ()
      | Some nd \<Rightarrow> if sc = u ''agent'' then assert_agent_tiers nd else assert_declared_categories sc nd)"

definition collect_scope ::
  "(store_value \<Rightarrow> pystr) \<Rightarrow> keystore \<Rightarrow> pystr \<Rightarrow> resolve_ctx \<Rightarrow> pystr \<Rightarrow> entry_error + ranked list" where
  "collect_scope other snap active bctx sc =
     bindE (assert_scope snap sc) (\<lambda>_.
       case scope_node snap active sc of
         None \<Rightarrow> Inr []
       | Some nd \<Rightarrow> emit_scope_node other bctx (decl_scope snap active sc) sc nd)"

definition snapshot_category_entries ::
  "(store_value \<Rightarrow> pystr) \<Rightarrow> keystore \<Rightarrow> pystr \<Rightarrow> resolve_ctx \<Rightarrow> entry_error + category_entry list" where
  "snapshot_category_entries other snap active bctx =
     bindE (mapE (collect_scope other snap active bctx) SCOPE_CONTAINMENT) (\<lambda>rss.
       Inr (map snd (sort_key fst (concat rss))))"

section \<open>Where an entry comes from\<close>

lemma mapE_set: "mapE f xs = Inr ys \<Longrightarrow> y \<in> set ys \<longleftrightarrow> (\<exists>x \<in> set xs. f x = Inr y)"
  by (induction xs arbitrary: ys) (auto simp: bindE_def split: sum.splits)

lemma mapE_image: "mapE f xs = Inr ys \<Longrightarrow> x \<in> set xs \<Longrightarrow> \<exists>y. f x = Inr y \<and> y \<in> set ys"
  by (induction xs arbitrary: ys) (auto simp: bindE_def split: sum.splits)

lemma mapE_concat:
  "mapE f xs = Inr yss \<Longrightarrow> y \<in> set (concat yss) \<longleftrightarrow> (\<exists>x \<in> set xs. \<exists>ys. f x = Inr ys \<and> y \<in> set ys)"
  by (induction xs arbitrary: yss) (auto simp: bindE_def split: sum.splits)

lemma emit_bind_map_set:
  assumes "emit_bind_map bctx decl sc cat map_node = Inr rs"
  shows "r \<in> set rs \<longleftrightarrow>
    (\<exists>dest src opts. (dest, SLeaf (LEntry src opts)) \<in> set map_node \<and> emit_bind bctx decl sc cat dest src opts = Inr r)"
proof -
  let ?f = "\<lambda>(dest, v). case v of
          SLeaf LNone \<Rightarrow> Inr []
        | SLeaf (LEntry src opts) \<Rightarrow> bindE (emit_bind bctx decl sc cat dest src opts) (\<lambda>e. Inr [e])
        | _ \<Rightarrow> Inl (NoBindEntry
            (entry_label (shown_key (join_char dot (butlast (decl_segments decl cat dest)))) dest) cat v)"
  obtain ess where m: "mapE ?f map_node = Inr ess" and rs: "rs = concat ess"
    using assms by (auto simp: emit_bind_map_def result_simps)
  have f: "(\<exists>es. ?f (dest, v) = Inr es \<and> r \<in> set es) \<longleftrightarrow>
      (\<exists>src opts. v = SLeaf (LEntry src opts) \<and> emit_bind bctx decl sc cat dest src opts = Inr r)" for dest v
    by (auto simp: bindE_def split: store_value.splits leaf.splits sum.splits)
  have "r \<in> set rs \<longleftrightarrow> (\<exists>x \<in> set map_node. \<exists>es. ?f x = Inr es \<and> r \<in> set es)"
    unfolding rs by (rule mapE_concat [OF m])
  also have "\<dots> \<longleftrightarrow> (\<exists>dest v. (dest, v) \<in> set map_node \<and> (\<exists>es. ?f (dest, v) = Inr es \<and> r \<in> set es))"
    by (simp only: bex_simps Bex_def split_paired_Ex)
  finally show ?thesis unfolding f by blast
qed

lemma emit_scope_node_set:
  assumes "emit_scope_node other bctx decl sc nd = Inr rs"
  shows "r \<in> set rs \<longleftrightarrow>
    (\<exists>cat \<in> set BIND_SHAPED. \<exists>dest src opts. (dest, SLeaf (LEntry src opts)) \<in> set (category_node nd (split_char dot cat)) \<and>
       emit_bind bctx decl sc cat dest src opts = Inr r) \<or>
    (\<exists>raw v. (raw, v) \<in> set (category_node nd [u ''masks'']) \<and> emit_mask bctx decl sc raw = Inr r) \<or>
    (\<exists>row \<in> set (category_node nd [u ''env'']). \<exists>es. emit_env other decl sc row = Inr es \<and> r \<in> set es) \<or>
    (\<exists>row \<in> set (category_node nd [u ''secret_path'']). emit_secret other decl sc row = Inr r)"
proof -
  obtain binds masks envs secrets where
    b: "mapE (\<lambda>cat. emit_bind_map bctx decl sc cat (category_node nd (split_char dot cat))) BIND_SHAPED = Inr binds"
    and m: "mapE (\<lambda>(raw, _). emit_mask bctx decl sc raw) (category_node nd [u ''masks'']) = Inr masks"
    and e: "mapE (emit_env other decl sc) (category_node nd [u ''env'']) = Inr envs"
    and s: "mapE (emit_secret other decl sc) (category_node nd [u ''secret_path'']) = Inr secrets"
    and rs: "rs = concat binds @ masks @ concat envs @ secrets"
    using assms by (auto simp: emit_scope_node_def result_simps)
  have "r \<in> set (concat binds) \<longleftrightarrow> (\<exists>cat \<in> set BIND_SHAPED. \<exists>dest src opts.
      (dest, SLeaf (LEntry src opts)) \<in> set (category_node nd (split_char dot cat)) \<and> emit_bind bctx decl sc cat dest src opts = Inr r)"
    unfolding mapE_concat [OF b]
  proof (rule bex_cong [OF refl])
    fix cat
    assume "cat \<in> set BIND_SHAPED"
    then obtain ys where "emit_bind_map bctx decl sc cat (category_node nd (split_char dot cat)) = Inr ys"
      using mapE_image [OF b] by blast
    then show "(\<exists>ys. emit_bind_map bctx decl sc cat (category_node nd (split_char dot cat)) = Inr ys \<and> r \<in> set ys) \<longleftrightarrow>
        (\<exists>dest src opts. (dest, SLeaf (LEntry src opts)) \<in> set (category_node nd (split_char dot cat)) \<and>
          emit_bind bctx decl sc cat dest src opts = Inr r)"
      by (simp add: emit_bind_map_set)
  qed
  moreover have "r \<in> set masks \<longleftrightarrow> (\<exists>raw v. (raw, v) \<in> set (category_node nd [u ''masks'']) \<and> emit_mask bctx decl sc raw = Inr r)"
    using mapE_set [OF m] by (auto simp: split_def) force
  moreover have "r \<in> set (concat envs) \<longleftrightarrow>
      (\<exists>row \<in> set (category_node nd [u ''env'']). \<exists>es. emit_env other decl sc row = Inr es \<and> r \<in> set es)"
    by (rule mapE_concat [OF e])
  ultimately show ?thesis unfolding rs using mapE_set [OF s] by auto
qed

lemma category_node_item:
  assumes "dict_store nd" "path \<noteq> []"
  shows "(n, v) \<in> set (category_node nd path) \<longleftrightarrow> ks_lookup nd (path @ [n]) = Some v"
  using assms
proof (induction nd path rule: ks_lookup.induct)
  case (2 ks seg)
  then show ?case
    by (auto simp: category_node_def dict_store_member [OF dict_store_sub] split: option.splits store_value.splits)
next
  case (3 ks seg seg' rest)
  then show ?case
    by (auto simp: category_node_def dest: dict_store_sub split: option.splits store_value.splits)
qed simp

lemma emit_bind_entry:
  assumes "emit_bind bctx decl sc cat dest src opts = Inr (k, e)"
  shows "k = (scope_rank sc, cat, dest) \<and> category e = cat \<and> scope e = sc \<and> ename e = dest \<and> host_src e = Some src \<and>
    key_segments e = decl_segments decl cat dest \<and> resolve_box_dest bctx dest = Inr (box_dest e)"
  using assms by (auto simp: emit_bind_def Let_def result_simps)

lemma emit_mask_entry:
  assumes "emit_mask bctx decl sc raw = Inr (k, e)"
  shows "k = (scope_rank sc, u ''masks'', ename e) \<and> category e = u ''masks'' \<and> scope e = sc \<and> host_src e = None \<and>
    key_segments e = decl_segments decl (u ''masks'') raw"
  using assms by (auto simp: emit_mask_def result_simps)

lemma emit_env_entry:
  assumes "emit_env other decl sc (var, v) = Inr es" "(k, e) \<in> set es"
  shows "k = (scope_rank sc, u ''env'', ename e) \<and> category e = u ''env'' \<and> scope e = sc \<and>
    key_segments e = decl_segments decl (u ''env'') var"
  using assms by (auto simp: emit_env_def result_simps split: if_splits)

lemma emit_secret_entry:
  assumes "emit_secret other decl sc (var, v) = Inr (k, e)"
  shows "k = (scope_rank sc, u ''secret_path'', ename e) \<and> category e = u ''secret_path'' \<and> scope e = sc \<and>
    key_segments e = decl_segments decl (u ''secret_path'') var"
  using assms by (auto simp: emit_secret_def secret_entry_def Let_def result_simps split: if_splits)

lemmas entry_facts = emit_bind_entry emit_mask_entry emit_env_entry emit_secret_entry

text \<open>What every collected entry is.\<close>

lemma category_segments:
  "split_char dot (u ''masks'') = [u ''masks'']" "split_char dot (u ''env'') = [u ''env'']"
  "split_char dot (u ''secret_path'') = [u ''secret_path'']"
  by code_simp+

lemma other_categories: "list_all (\<lambda>cat. cat \<notin> set [u ''masks'', u ''env'', u ''secret_path'']) BIND_SHAPED"
  by code_simp

lemma emitted_cases:
  assumes "emit_scope_node other bctx decl sc nd = Inr rs" "(k, e) \<in> set rs"
  obtains
      (bind) cat dest src opts where "cat \<in> set BIND_SHAPED" "(dest, SLeaf (LEntry src opts)) \<in> set (category_node nd (split_char dot cat))"
        "emit_bind bctx decl sc cat dest src opts = Inr (k, e)"
    | (mask) raw v where "(raw, v) \<in> set (category_node nd [u ''masks''])" "emit_mask bctx decl sc raw = Inr (k, e)"
    | (env) var v es where "(var, v) \<in> set (category_node nd [u ''env''])" "emit_env other decl sc (var, v) = Inr es" "(k, e) \<in> set es"
    | (secret) var v where "(var, v) \<in> set (category_node nd [u ''secret_path''])" "emit_secret other decl sc (var, v) = Inr (k, e)"
  using assms(2) [unfolded emit_scope_node_set [OF assms(1)]] by (auto simp del: split_paired_Ex)

lemma emitted_entry:
  assumes "emit_scope_node other bctx decl sc nd = Inr rs" "(k, e) \<in> set rs" "dict_store nd"
  shows "k = (scope_rank sc, category e, ename e) \<and> scope e = sc \<and>
    (category e \<in> set BIND_SHAPED \<and> host_src e \<noteq> None \<or> category e \<in> {u ''masks'', u ''env'', u ''secret_path''}) \<and>
    (\<exists>name v. key_segments e = decl_segments decl (category e) name \<and>
       ks_lookup nd (split_char dot (category e) @ [name]) = Some v)"
proof -
  note item = category_node_item [OF assms(3)]
  from assms(1,2) show ?thesis
  proof (cases rule: emitted_cases)
    case (bind cat dest src opts)
    then show ?thesis using emit_bind_entry [OF bind(3)] item [of "split_char dot cat"] by auto
  next
    case mask
    then show ?thesis using emit_mask_entry [OF mask(2)] item [of "[u ''masks'']"] category_segments by auto
  next
    case env
    then show ?thesis using emit_env_entry [OF env(2,3)] item [of "[u ''env'']"] category_segments by auto
  next
    case secret
    then show ?thesis using emit_secret_entry [OF secret(2)] item [of "[u ''secret_path'']"] category_segments by auto
  qed
qed

lemma emitted_bind:
  assumes "emit_scope_node other bctx decl sc nd = Inr rs" "(k, e) \<in> set rs" "dict_store nd" "category e \<in> set BIND_SHAPED"
  shows "\<exists>dest src opts. ks_lookup nd (split_char dot (category e) @ [dest]) = Some (SLeaf (LEntry src opts)) \<and>
    emit_bind bctx decl sc (category e) dest src opts = Inr (k, e)"
proof -
  have other: "category e \<notin> {u ''masks'', u ''env'', u ''secret_path''}"
    using assms(4) other_categories by (auto simp: list_all_iff)
  from assms(1,2) show ?thesis
  proof (cases rule: emitted_cases)
    case (bind cat dest src opts)
    with emit_bind_entry [OF bind(3)] category_node_item [OF assms(3), of "split_char dot cat"] show ?thesis by auto
  next
    case mask
    with other emit_mask_entry [OF mask(2)] show ?thesis by simp
  next
    case env
    with other emit_env_entry [OF env(2,3)] show ?thesis by simp
  next
    case secret
    with other emit_secret_entry [OF secret(2)] show ?thesis by simp
  qed
qed

lemma collected:
  assumes "snapshot_category_entries other snap active bctx = Inr entries"
  shows "e \<in> set entries \<longleftrightarrow> (\<exists>sc \<in> set SCOPE_CONTAINMENT. \<exists>nd rs k. scope_node snap active sc = Some nd \<and>
    emit_scope_node other bctx (decl_scope snap active sc) sc nd = Inr rs \<and> (k, e) \<in> set rs)"
proof -
  obtain rss where m: "mapE (collect_scope other snap active bctx) SCOPE_CONTAINMENT = Inr rss"
    and e: "entries = map snd (sort_key fst (concat rss))"
    using assms by (auto simp: snapshot_category_entries_def result_simps)
  have one: "(\<exists>rs. collect_scope other snap active bctx sc = Inr rs \<and> r \<in> set rs) \<longleftrightarrow>
      (\<exists>nd rs. scope_node snap active sc = Some nd \<and> emit_scope_node other bctx (decl_scope snap active sc) sc nd = Inr rs \<and> r \<in> set rs)"
    if sc: "sc \<in> set SCOPE_CONTAINMENT" for sc r
    using mapE_image [OF m sc] by (auto simp: collect_scope_def result_simps split: option.splits)
  have "e \<in> set entries \<longleftrightarrow> (\<exists>k. (k, e) \<in> set (concat rss))" using e by force
  also have "\<dots> \<longleftrightarrow> (\<exists>k. \<exists>sc \<in> set SCOPE_CONTAINMENT. \<exists>rs. collect_scope other snap active bctx sc = Inr rs \<and> (k, e) \<in> set rs)"
    unfolding mapE_concat [OF m] ..
  finally show ?thesis using one by blast
qed

section \<open>Reading an entry's key back\<close>

lemma overlay_present:
  "dict_store over \<Longrightarrow> q \<noteq> [] \<Longrightarrow> ks_lookup (overlay_into base over) q \<noteq> None \<longleftrightarrow>
    ks_lookup over q \<noteq> None \<or> (\<not> blocks over q \<and> ks_lookup base q \<noteq> None)"
proof (induction over q arbitrary: base rule: blocks.induct)
  case (3 ks n m r)
  then show ?case
    using map_of_overlay [OF dict_storeD [OF "3.prems"(1)], of base n]
    by (auto simp: node_under_def dict_store_sub split: option.splits store_value.splits)
next
  case (2 ks n)
  then show ?case
    using map_of_overlay [OF dict_storeD [OF "2.prems"(1)], of base n]
    by (auto split: option.splits store_value.splits)
qed simp

lemma present_blocks: "q \<noteq> [] \<Longrightarrow> ks_lookup ks q \<noteq> None \<Longrightarrow> blocks ks q"
  by (induction ks q rule: blocks.induct) (auto split: option.splits store_value.splits)

text \<open>The node of a tier; an absent one holds nothing.\<close>

definition tier_node :: "keystore \<Rightarrow> pystr \<Rightarrow> keystore" where
  "tier_node snap name = node_or_new (node_or_new snap (u ''agent'')) name"

lemma tier_lookup: "q \<noteq> [] \<Longrightarrow> ks_lookup (tier_node snap t) q = ks_lookup snap (u ''agent'' # t # q)"
  by (cases q) (auto simp: tier_node_def node_under_def ks_lookup_step split: option.splits store_value.splits)

lemma dict_store_tier: "dict_store snap \<Longrightarrow> dict_store (tier_node snap t)"
  by (auto simp: tier_node_def node_under_def split: option.splits store_value.splits intro: dict_store_sub)

lemma pick_overlay:
  "q \<noteq> [] \<Longrightarrow> ks_lookup (agent_pick_node snap active) q =
    ks_lookup (overlay_into (overlay_into [] (tier_node snap (u ''default''))) (tier_node snap active)) q"
  by (cases q) (auto simp: agent_pick_node_def fallback_node_def tier_node_def Let_def node_under_def [of "[]"] split: option.splits)

lemma pick_present:
  assumes "dict_store snap" "q \<noteq> []"
  shows "ks_lookup (agent_pick_node snap active) q \<noteq> None \<longleftrightarrow>
    ks_lookup snap (u ''agent'' # active # q) \<noteq> None \<or>
    (\<not> blocks (tier_node snap active) q \<and> ks_lookup snap (u ''agent'' # u ''default'' # q) \<noteq> None)"
proof -
  have "ks_lookup [] q = None" using assms(2) by (cases q) auto
  then show ?thesis
    unfolding pick_overlay [OF assms(2)] overlay_present [OF dict_store_tier [OF assms(1)] assms(2)] tier_lookup [OF assms(2), symmetric]
    by simp
qed

lemma tier_leaf: "q \<noteq> [] \<Longrightarrow> agent_leaf snap t q = Some l \<longleftrightarrow> ks_lookup snap (u ''agent'' # t # q) = Some (SLeaf l)"
  by (auto simp: agent_leaf_def split: option.splits store_value.splits)

lemma decl_active:
  "agent_decl_scope snap active cat name =
    (if ks_lookup snap (u ''agent'' # active # split_char dot cat @ [name]) = None then u ''agent.default'' else u ''agent.'' @ active)"
proof -
  have q: "split_char dot cat @ [name] \<noteq> []" by simp
  then have "ks_lookup [] (split_char dot cat @ [name]) = None" by (metis ks_lookup_empty list.exhaust)
  then show ?thesis
    unfolding tier_lookup [OF q, symmetric] agent_decl_scope_def tier_node_def
    by (cases "node_under snap (u ''agent'')") (auto simp: node_under_def [of "[]"] split: option.splits)
qed

lemma scope_names:
  "sc \<in> set SCOPE_CONTAINMENT \<Longrightarrow> split_char dot sc = [sc]"
  "split_char dot (u ''agent.default'') = [u ''agent'', u ''default'']"
  "dot \<notin> set active \<Longrightarrow> split_char dot (u ''agent.'' @ active) = [u ''agent'', active]"
proof -
  show "split_char dot sc = [sc]" if "sc \<in> set SCOPE_CONTAINMENT"
  proof -
    have "\<forall>sc \<in> set SCOPE_CONTAINMENT. split_char dot sc = [sc]" by code_simp
    then show ?thesis using that by blast
  qed
  show "split_char dot (u ''agent.default'') = [u ''agent'', u ''default'']" by code_simp
  have "dot \<notin> set (u ''agent'')" "u ''agent.'' = u ''agent'' @ [dot]" by code_simp+
  then show "split_char dot (u ''agent.'' @ active) = [u ''agent'', active]" if "dot \<notin> set active"
    using that by (simp add: split_char_append split_char_free)
qed

lemma key_read_back:
  assumes "dict_store snap" "dot \<notin> set active" "sc \<in> set SCOPE_CONTAINMENT" "scope_node snap active sc = Some nd"
    and "ks_lookup nd (split_char dot cat @ [name]) = Some v"
  shows "ks_lookup snap (decl_segments (decl_scope snap active sc) cat name) \<noteq> None"
    and "v = SLeaf l \<Longrightarrow> ks_lookup snap (decl_segments (decl_scope snap active sc) cat name) = Some (SLeaf l)"
proof -
  let ?q = "split_char dot cat @ [name]"
  have q: "?q \<noteq> []" by simp
  have "ks_lookup snap (decl_segments (decl_scope snap active sc) cat name) \<noteq> None \<and>
    (v = SLeaf l \<longrightarrow> ks_lookup snap (decl_segments (decl_scope snap active sc) cat name) = Some (SLeaf l))" for l
  proof (cases "sc = u ''agent''")
    case True
    with assms(4) have nd: "nd = agent_pick_node snap active" by (simp add: scope_node_def)
    have key: "decl_segments (decl_scope snap active sc) cat name =
        (if ks_lookup snap (u ''agent'' # active # ?q) = None then u ''agent'' # u ''default'' # ?q else u ''agent'' # active # ?q)"
      using True assms(2) scope_names by (simp add: decl_segments_def decl_scope_def decl_active)
    have "\<not> blocks (tier_node snap active) ?q \<longrightarrow> ks_lookup snap (u ''agent'' # active # ?q) = None"
      unfolding tier_lookup [OF q, symmetric] using present_blocks [OF q] by blast
    moreover have "ks_lookup snap (u ''agent'' # active # ?q) \<noteq> None \<or>
      (\<not> blocks (tier_node snap active) ?q \<and> ks_lookup snap (u ''agent'' # u ''default'' # ?q) \<noteq> None)"
      using pick_present [OF assms(1) q, of active] assms(5) nd by simp
    moreover have "v = SLeaf l \<longrightarrow> ks_lookup snap (u ''agent'' # active # ?q) = Some (SLeaf l) \<or>
      (\<not> blocks (tier_node snap active) ?q \<and> ks_lookup snap (u ''agent'' # u ''default'' # ?q) = Some (SLeaf l))"
      using pick_leaf [OF assms(1) q, of active l] assms(5) nd tier_leaf [OF q] by (simp add: tier_node_def)
    ultimately show ?thesis unfolding key by auto
  next
    case False
    with assms(4) have "map_of snap sc = Some (SNode nd)" by (simp add: scope_node_def node_under_iff)
    moreover have "decl_segments (decl_scope snap active sc) cat name = sc # ?q"
      using False scope_names(1) [OF assms(3)] by (simp add: decl_segments_def decl_scope_def fixed_decl_scope_def)
    ultimately show ?thesis using assms(5) q by (simp add: ks_lookup_step)
  qed
  then show "ks_lookup snap (decl_segments (decl_scope snap active sc) cat name) \<noteq> None"
    and "v = SLeaf l \<Longrightarrow> ks_lookup snap (decl_segments (decl_scope snap active sc) cat name) = Some (SLeaf l)"
    by blast+
qed

lemma dict_store_scope_node: "dict_store snap \<Longrightarrow> scope_node snap active sc = Some nd \<Longrightarrow> dict_store nd"
  by (auto simp: scope_node_def dict_store_pick split: if_splits intro: dict_store_under)

section \<open>The shapes can take every entry\<close>

lemma foldE_total: "(\<And>x s. x \<in> set xs \<Longrightarrow> \<exists>s'. f x s = Inr s') \<Longrightarrow> \<exists>t. foldE f xs s = Inr t"
proof (induction xs arbitrary: s)
  case (Cons x xs)
  then obtain s' where "f x s = Inr s'" by fastforce
  with Cons show ?case by simp
qed simp

definition shapeable :: "category_entry \<Rightarrow> bool" where
  "shapeable e \<longleftrightarrow> scope e \<in> set SCOPE_CONTAINMENT \<and>
    (category e \<in> set BIND_SHAPED \<and> host_src e \<noteq> None \<or> category e \<in> {u ''masks'', u ''env'', u ''secret_path''})"

lemma bind_shaped_arms:
  "list_all (\<lambda>cat. cat \<notin> set NO_ARM \<and> map_of ARM cat \<noteq> None \<and> dot \<notin> set (last (split_char dot cat))) BIND_SHAPED"
  "map_of ARM (u ''masks'') = Some ArmMask" "u ''masks'' \<notin> set NO_ARM" "set NO_ARM = {u ''env'', u ''secret_path''}"
  by (code_simp, code_simp, code_simp, auto simp: NO_ARM_def)

lemma shapeable_arm: "shapeable e \<Longrightarrow> \<exists>a. arm_of e = Inr a"
  using bind_shaped_arms by (auto simp: shapeable_def arm_of_def list_all_iff)

lemma shapeable_folds:
  assumes "shapeable e" "has_arm e"
  shows "\<exists>sh'. fold_entry e sh = Inr sh'"
proof -
  obtain a where a: "map_of ARM (category e) = Some a"
    using assms(2) by (auto simp: has_arm_def arm_of_def split: if_splits option.splits)
  have "a \<noteq> ArmMask \<Longrightarrow> host_src e \<noteq> None"
    using assms a bind_shaped_arms by (auto simp: shapeable_def has_arm_def arm_of_def)
  then show ?thesis using a by (cases a) (auto simp: fold_entry_def Let_def)
qed

lemma shapeable_set:
  assumes "\<forall>e \<in> set entries. shapeable e"
  shows "(\<exists>sss. build_store_shape_set entries = Inr sss) \<longleftrightarrow>
    (\<forall>sc \<in> set SCOPE_CONTAINMENT. \<nexists>d. contested (scope_entries entries sc) d)"
proof -
  have checked: "\<exists>t. foldE check_scope_entry entries () = Inr t"
    by (rule foldE_total) (use assms shapeable_arm in \<open>fastforce simp: check_scope_entry_def shapeable_def\<close>)
  have shape: "(\<exists>r. build_store_shape (scope_entries entries sc) = Inr r) \<longleftrightarrow> (\<nexists>d. contested (scope_entries entries sc) d)" for sc
  proof
    assume "\<exists>r. build_store_shape (scope_entries entries sc) = Inr r"
    then show "\<nexists>d. contested (scope_entries entries sc) d"
      using scope_survivors_Inr(1) by (auto simp: build_store_shape_def result_simps)
  next
    assume "\<nexists>d. contested (scope_entries entries sc) d"
    then obtain es ws where s: "scope_survivors (scope_entries entries sc) = Inr (es, ws)"
      using scope_survivors_succeeds [of "scope_entries entries sc"] by auto
    then have "set es \<subseteq> set (scope_entries entries sc)"
      by (auto simp: scope_survivors_def Let_def result_simps in_set_enumerate_eq)
    then have "\<exists>sh. foldE fold_entry es empty_shape = Inr sh"
      by (intro foldE_total) (use assms shapeable_folds in \<open>auto simp: scope_entries_def\<close>)
    then show "\<exists>r. build_store_shape (scope_entries entries sc) = Inr r"
      using s by (auto simp: build_store_shape_def result_simps)
  qed
  have each: "(\<exists>t. foldE (add_scope_shape entries) scs acc = Inr t) \<longleftrightarrow>
      (\<forall>sc \<in> set scs. \<exists>r. build_store_shape (scope_entries entries sc) = Inr r)" for scs acc
  proof (induction scs arbitrary: acc)
    case (Cons sc scs)
    show ?case
    proof (cases "build_store_shape (scope_entries entries sc)")
      case (Inr r)
      then show ?thesis by (cases r) (simp add: add_scope_shape_def [of entries sc acc] Cons.IH)
    qed (simp add: add_scope_shape_def [of entries sc acc])
  qed simp
  show ?thesis
    using checked each [of SCOPE_CONTAINMENT "\<lparr>shapes = [], warnings = []\<rparr>"] shape
    by (auto simp: build_store_shape_set_def result_simps)
qed

lemma collected_entry:
  assumes "snapshot_category_entries other snap active bctx = Inr entries" "dict_store snap" "e \<in> set entries"
  shows "shapeable e" and "\<exists>sc nd name v. sc \<in> set SCOPE_CONTAINMENT \<and> scope_node snap active sc = Some nd \<and>
    key_segments e = decl_segments (decl_scope snap active sc) (category e) name \<and>
    ks_lookup nd (split_char dot (category e) @ [name]) = Some v"
proof -
  from assms(3) [unfolded collected [OF assms(1)]] obtain sc nd rs k where c: "sc \<in> set SCOPE_CONTAINMENT"
    "scope_node snap active sc = Some nd" "emit_scope_node other bctx (decl_scope snap active sc) sc nd = Inr rs" "(k, e) \<in> set rs"
    by blast
  note emitted = emitted_entry [OF c(3,4) dict_store_scope_node [OF assms(2) c(2)]]
  from emitted c(1) show "shapeable e" by (auto simp: shapeable_def)
  from emitted c(1,2) show "\<exists>sc nd name v. sc \<in> set SCOPE_CONTAINMENT \<and> scope_node snap active sc = Some nd \<and>
    key_segments e = decl_segments (decl_scope snap active sc) (category e) name \<and>
    ks_lookup nd (split_char dot (category e) @ [name]) = Some v" by blast
qed

text \<open>
  C27. The entries of a snapshot always have a shape, unless two declarations contest a destination:
  no entry has an unknown scope, a category without an arm or a mount without a source, so the
  shapes are built exactly when in no scope a destination has two concrete bindings, or a concrete
  one and an abstraction deriving one. The entries come in the order of scope, category and name.
\<close>

theorem entries_have_shapes:
  assumes "snapshot_category_entries other snap active bctx = Inr entries" "dict_store snap"
  shows "((\<exists>sss. build_store_shape_set entries = Inr sss) \<longleftrightarrow>
      (\<forall>sc \<in> set SCOPE_CONTAINMENT. \<nexists>d. contested (scope_entries entries sc) d)) \<and>
    sorted (map (\<lambda>e. (scope_rank (scope e), category e, ename e)) entries)"
proof
  show "(\<exists>sss. build_store_shape_set entries = Inr sss) \<longleftrightarrow>
      (\<forall>sc \<in> set SCOPE_CONTAINMENT. \<nexists>d. contested (scope_entries entries sc) d)"
    by (rule shapeable_set) (use collected_entry(1) [OF assms] in blast)
  obtain rss where m: "mapE (collect_scope other snap active bctx) SCOPE_CONTAINMENT = Inr rss"
    and e: "entries = map snd (sort_key fst (concat rss))"
    using assms(1) by (auto simp: snapshot_category_entries_def result_simps)
  have "fst r = (scope_rank (scope (snd r)), category (snd r), ename (snd r))" if r: "r \<in> set (concat rss)" for r
  proof -
    from r [unfolded mapE_concat [OF m]] obtain sc rs where "collect_scope other snap active bctx sc = Inr rs" "r \<in> set rs" by blast
    then obtain nd where c: "scope_node snap active sc = Some nd"
        "emit_scope_node other bctx (decl_scope snap active sc) sc nd = Inr rs" "(fst r, snd r) \<in> set rs"
      by (auto simp: collect_scope_def result_simps split: option.splits)
    from emitted_entry [OF c(2,3) dict_store_scope_node [OF assms(2) c(1)]] show ?thesis by simp
  qed
  then have "map (\<lambda>e. (scope_rank (scope e), category e, ename e)) entries = map fst (sort_key fst (concat rss))"
    by (auto simp: e)
  then show "sorted (map (\<lambda>e. (scope_rank (scope e), category e, ename e)) entries)" by simp
qed

text \<open>
  C26. Every entry is a declaration, under the key it names: that key holds something in the
  snapshot, for the agent's entries in the tier that declared it; a bind-shaped entry's key holds
  the very bind whose source it mounts, and its destination is the key's last segment resolved.
\<close>

theorem entries_are_declared:
  assumes "snapshot_category_entries other snap active bctx = Inr entries" "dict_store snap" "dot \<notin> set active" "e \<in> set entries"
  shows "ks_lookup snap (key_segments e) \<noteq> None \<and>
    (category e \<in> set BIND_SHAPED \<longrightarrow>
      (\<exists>src opts. ks_lookup snap (key_segments e) = Some (SLeaf (LEntry src opts)) \<and> host_src e = Some src \<and>
         resolve_box_dest bctx (last (key_segments e)) = Inr (box_dest e)))"
proof
  obtain sc nd name v where c: "sc \<in> set SCOPE_CONTAINMENT" "scope_node snap active sc = Some nd"
    "key_segments e = decl_segments (decl_scope snap active sc) (category e) name"
    "ks_lookup nd (split_char dot (category e) @ [name]) = Some v"
    using collected_entry(2) [OF assms(1,2,4)] by blast
  show "ks_lookup snap (key_segments e) \<noteq> None"
    unfolding c(3) by (rule key_read_back(1) [OF assms(2,3) c(1,2,4)])
  show "category e \<in> set BIND_SHAPED \<longrightarrow>
      (\<exists>src opts. ks_lookup snap (key_segments e) = Some (SLeaf (LEntry src opts)) \<and> host_src e = Some src \<and>
         resolve_box_dest bctx (last (key_segments e)) = Inr (box_dest e))"
  proof
    assume bind: "category e \<in> set BIND_SHAPED"
    from assms(4) [unfolded collected [OF assms(1)]] obtain sc nd rs k where c: "sc \<in> set SCOPE_CONTAINMENT"
      "scope_node snap active sc = Some nd" "emit_scope_node other bctx (decl_scope snap active sc) sc nd = Inr rs" "(k, e) \<in> set rs"
      by blast
    obtain dest src opts where b: "ks_lookup nd (split_char dot (category e) @ [dest]) = Some (SLeaf (LEntry src opts))"
        "emit_bind bctx (decl_scope snap active sc) sc (category e) dest src opts = Inr (k, e)"
      using emitted_bind [OF c(3,4) dict_store_scope_node [OF assms(2) c(2)] bind] by blast
    from key_read_back(2) [OF assms(2,3) c(1,2) b(1) refl] emit_bind_entry [OF b(2)]
    show "\<exists>src opts. ks_lookup snap (key_segments e) = Some (SLeaf (LEntry src opts)) \<and> host_src e = Some src \<and>
         resolve_box_dest bctx (last (key_segments e)) = Inr (box_dest e)"
      by (auto simp: decl_segments_def)
  qed
qed

lemma bind_shaped_segments: "split_char dot cat @ [name] \<noteq> []"
  by simp

lemma emitted_for:
  assumes "snapshot_category_entries other snap active bctx = Inr entries" "dict_store snap" "sc \<in> set SCOPE_CONTAINMENT"
    "cat \<in> set BIND_SHAPED" "scope_node snap active sc = Some nd"
    "ks_lookup nd (split_char dot cat @ [dest]) = Some (SLeaf (LEntry src opts))"
  shows "\<exists>e. {x \<in> set entries. scope x = sc \<and> category x = cat \<and> ename x = dest} = {e} \<and> host_src e = Some src \<and>
    resolve_box_dest bctx dest = Inr (box_dest e)"
proof -
  let ?decl = "decl_scope snap active sc"
  have dict: "dict_store nd" by (rule dict_store_scope_node [OF assms(2,5)])
  obtain rss where m: "mapE (collect_scope other snap active bctx) SCOPE_CONTAINMENT = Inr rss"
    using assms(1) by (auto simp: snapshot_category_entries_def result_simps)
  from mapE_image [OF m assms(3)] assms(5) obtain rs where rs: "emit_scope_node other bctx ?decl sc nd = Inr rs"
    by (auto simp: collect_scope_def result_simps)
  then obtain binds where "mapE (\<lambda>cat. emit_bind_map bctx ?decl sc cat (category_node nd (split_char dot cat))) BIND_SHAPED = Inr binds"
    by (auto simp: emit_scope_node_def result_simps)
  from mapE_image [OF this assms(4)] obtain es where es: "emit_bind_map bctx ?decl sc cat (category_node nd (split_char dot cat)) = Inr es"
    by blast
  have item: "(dest, SLeaf (LEntry src opts)) \<in> set (category_node nd (split_char dot cat))"
    using assms(6) category_node_item [OF dict, of "split_char dot cat"] by simp
  obtain k e where b: "emit_bind bctx ?decl sc cat dest src opts = Inr (k, e)"
  proof -
    from es [unfolded emit_bind_map_def bindE_Inr_iff] obtain ess where "mapE (\<lambda>(dest, v). case v of
          SLeaf LNone \<Rightarrow> Inr []
        | SLeaf (LEntry src opts) \<Rightarrow> bindE (emit_bind bctx ?decl sc cat dest src opts) (\<lambda>e. Inr [e])
        | _ \<Rightarrow> Inl (NoBindEntry
            (entry_label (shown_key (join_char dot (butlast (decl_segments ?decl cat dest)))) dest) cat v))
        (category_node nd (split_char dot cat)) = Inr ess"
      by blast
    from mapE_image [OF this item] that show thesis by (auto simp: bindE_Inr_iff)
  qed
  then have "(k, e) \<in> set rs" unfolding emit_scope_node_set [OF rs] using item assms(4) by blast
  with assms(3,5) rs have mem: "e \<in> set entries" unfolding collected [OF assms(1)] by blast
  have "x = e" if x: "x \<in> set entries" "scope x = sc" "category x = cat" "ename x = dest" for x
  proof -
    from x(1) [unfolded collected [OF assms(1)]] obtain sc' nd' rs' k' where c: "scope_node snap active sc' = Some nd'"
        "emit_scope_node other bctx (decl_scope snap active sc') sc' nd' = Inr rs'" "(k', x) \<in> set rs'"
      by blast
    have "sc' = sc" using emitted_entry [OF c(2,3) dict_store_scope_node [OF assms(2) c(1)]] x(2) by simp
    with c assms(5) rs have "(k', x) \<in> set rs" by simp
    from emitted_bind [OF rs this dict] x(3) assms(4) obtain d s os where
        o: "ks_lookup nd (split_char dot cat @ [d]) = Some (SLeaf (LEntry s os))" "emit_bind bctx ?decl sc cat d s os = Inr (k', x)"
      by auto
    with emit_bind_entry [OF o(2)] x(4) assms(6) b show ?thesis by simp
  qed
  with mem emit_bind_entry [OF b] show ?thesis by blast
qed

text \<open>
  C25. No bind is lost: every bind stored under a scope's category, or in the active agent's tier,
  or in the default tier where the active one sets nothing on the way, gives exactly one entry of
  its scope, category and name, with the stored source and the resolved destination.
\<close>

theorem no_bind_lost:
  assumes "snapshot_category_entries other snap active bctx = Inr entries" "dict_store snap" "sc \<in> set SCOPE_CONTAINMENT"
    "cat \<in> set BIND_SHAPED" "ks_lookup snap (tier_path @ split_char dot cat @ [dest]) = Some (SLeaf (LEntry src opts))"
    "if sc \<noteq> u ''agent'' then tier_path = [sc]
     else tier_path = [u ''agent'', active] \<or>
       tier_path = [u ''agent'', u ''default''] \<and> \<not> blocks (tier_node snap active) (split_char dot cat @ [dest])"
  shows "\<exists>e. {x \<in> set entries. scope x = sc \<and> category x = cat \<and> ename x = dest} = {e} \<and> host_src e = Some src \<and>
    resolve_box_dest bctx dest = Inr (box_dest e)"
proof (cases "sc = u ''agent''")
  case True
  note q = bind_shaped_segments [of cat dest]
  have "ks_lookup (agent_pick_node snap active) (split_char dot cat @ [dest]) = Some (SLeaf (LEntry src opts))"
    unfolding pick_leaf [OF assms(2) q] tier_leaf [OF q] tier_node_def [symmetric] using assms(5,6) True by auto
  with emitted_for [OF assms(1-4)] True show ?thesis by (simp add: scope_node_def)
next
  case False
  then have p: "tier_path = [sc]" using assms(6) by simp
  with assms(5) bind_shaped_segments obtain nd where
      "map_of snap sc = Some (SNode nd)" "ks_lookup nd (split_char dot cat @ [dest]) = Some (SLeaf (LEntry src opts))"
    by (auto simp: ks_lookup_step split: option.splits store_value.splits)
  with emitted_for [OF assms(1-4)] False show ?thesis by (simp add: scope_node_def node_under_iff)
qed

section \<open>A small launch\<close>

definition launch_box :: keystore where
  "launch_box =
     [(u ''agent'', SNode [(u ''claude'', SNode []),
        (u ''default'', SNode [(u ''caches'', SNode [(u ''/c'', SLeaf (LEntry (u ''/h/c'') None))])])]),
      (u ''box'', SNode [(u ''bindings'', SNode [(u ''ro'', SNode [(u ''~/d'', SLeaf (LEntry (u ''/h/d'') (Some [])))])]),
        (u ''masks'', SNode [(u ''/m'', SLeaf (LBool True))]), (u ''env'', SNode [(u ''X'', SLeaf (LInt 1))]),
        (u ''secret_path'', SNode [(u ''T'', SLeaf LNone)])])]"

definition launch_ctx :: resolve_ctx where
  "launch_ctx = \<lparr>agent_name = None, workset_name = None, host_home = u ''/h'', xdg = [], term_var = [], colorterm = None\<rparr>"

definition launch_entries :: "category_entry list" where
  "launch_entries = (case snapshot_category_entries (\<lambda>_. []) launch_box (u ''claude'') launch_ctx of Inr es \<Rightarrow> es | Inl _ \<Rightarrow> [])"

lemma launch_facts:
  "isl (snapshot_category_entries (\<lambda>_. []) launch_box (u ''claude'') launch_ctx) = False"
  "map key_segments launch_entries =
    [[u ''agent'', u ''default'', u ''caches'', u ''/c''], [u ''box'', u ''bindings'', u ''ro'', u ''~/d''],
     [u ''box'', u ''env'', u ''X''], [u ''box'', u ''masks'', u ''/m''], [u ''box'', u ''secret_path'', u ''T'']]"
  "dict_store launch_box" "dot \<notin> set (u ''claude'')" "launch_entries \<noteq> []" "category (hd launch_entries) \<in> set BIND_SHAPED"
  "list_all (\<lambda>sc. list_all (\<lambda>e. \<not> contested (scope_entries launch_entries sc) (box_dest e)) launch_entries) SCOPE_CONTAINMENT"
  "u ''agent'' \<in> set SCOPE_CONTAINMENT" "u ''caches'' \<in> set BIND_SHAPED"
  by code_simp+

lemma launch_entries: "snapshot_category_entries (\<lambda>_. []) launch_box (u ''claude'') launch_ctx = Inr launch_entries"
  using launch_facts(1) by (cases "snapshot_category_entries (\<lambda>_. []) launch_box (u ''claude'') launch_ctx") (auto simp: launch_entries_def)

theorem entries_have_shapes_witness:
  "\<exists>sss. build_store_shape_set launch_entries = Inr sss"
proof (rule iffD2 [OF conjunct1 [OF entries_have_shapes [OF launch_entries launch_facts(3)]]], intro ballI notI)
  fix sc
  assume sc: "sc \<in> set SCOPE_CONTAINMENT" and "\<exists>d. contested (scope_entries launch_entries sc) d"
  then obtain d where d: "contested (scope_entries launch_entries sc) d" by blast
  then have "filter (\<lambda>e. box_dest e = d \<and> category e \<in> set FOLDED_CONCRETE) (scope_entries launch_entries sc) \<noteq> []"
    by (auto simp: contested_def Let_def)
  then obtain e where "e \<in> set launch_entries" "box_dest e = d" by (auto simp: filter_empty_conv scope_entries_def)
  with launch_facts(7) sc d show False by (auto simp: list_all_iff)
qed

theorem entries_are_declared_witness:
  "\<exists>src opts. ks_lookup launch_box (key_segments (hd launch_entries)) = Some (SLeaf (LEntry src opts)) \<and>
     host_src (hd launch_entries) = Some src"
  using entries_are_declared [OF launch_entries launch_facts(3,4) hd_in_set [OF launch_facts(5)]] launch_facts(6) by blast

theorem no_bind_lost_witness:
  "\<exists>e. e \<in> set launch_entries \<and> scope e = u ''agent'' \<and> host_src e = Some (u ''/h/c'')"
proof -
  have stored: "ks_lookup launch_box ([u ''agent'', u ''default''] @ split_char dot (u ''caches'') @ [u ''/c'']) =
      Some (SLeaf (LEntry (u ''/h/c'') None))"
    by code_simp
  have inherited: "if u ''agent'' \<noteq> u ''agent'' then [u ''agent'', u ''default''] = [u ''agent'']
     else [u ''agent'', u ''default''] = [u ''agent'', u ''claude''] \<or>
       [u ''agent'', u ''default''] = [u ''agent'', u ''default''] \<and>
       \<not> blocks (tier_node launch_box (u ''claude'')) (split_char dot (u ''caches'') @ [u ''/c''])"
    by code_simp
  show ?thesis using no_bind_lost [OF launch_entries launch_facts(3,8,9) stored inherited] by blast
qed

end
