(* ===== verification/Spec2Isabelle.thy ===== *)
theory Spec2Isabelle imports Kuid Keystore Collapse SupervisorLoops SupervisorTakeover ExpandCycles StorePaths Entries begin

text \<open>Kanibako settings and names.\<close>

end
